(* ===== verification/KT_Prelude.thy ===== *)
theory KT_Prelude
  imports Main "HOL-Library.Word" "HOL-Library.Multiset" "HOL-Library.Signed_Division"
begin

unbundle bit_operations_syntax

section \<open>Shared types, faults and automation\<close>

text \<open>
  The vocabulary every component theory uses: the integer types of \<open>kt_common.h\<close>, the
  outcome of a C computation (a value or the fault that stops it), checked array access,
  and the list and word lemmas the component proofs share.

  A fault is what the C program does instead of returning: an access outside the object
  (\<open>OutOfBounds\<close>), a null dereference, a division by zero, a signed overflow or an
  out-of-range conversion to \<open>int\<close>, a failed \<open>assert\<close>, a loop that never ends
  (\<open>Diverges\<close>), the use of a value that was never written (\<open>Indeterminate\<close>), or a
  call of \<open>exit\<close>. Error codes that the code returns itself (\<open>-1\<close>, \<open>NULL\<close>,
  \<open>-ENOBUFS\<close>) are ordinary values.
\<close>

type_synonym u8 = "8 word"
type_synonym u16 = "16 word"
type_synonym u32 = "32 word"
type_synonym u64 = "64 word"

datatype fault =
    OutOfBounds
  | NullDeref
  | DivByZero
  | SignedOverflow
  | IntRange
  | AssertFail
  | Diverges
  | Indeterminate
  | Exit

type_synonym 'a res = "fault + 'a"

named_theorems res_simps \<open>evaluation of checked operations\<close>
named_theorems arr_simps \<open>reads and writes of arrays inside their bounds\<close>

subsection \<open>Sequencing of checked operations\<close>

definition rbind :: "'a res \<Rightarrow> ('a \<Rightarrow> 'b res) \<Rightarrow> 'b res" where
  "rbind m f = (case m of Inl e \<Rightarrow> Inl e | Inr x \<Rightarrow> f x)"

lemma rbind_Inr [simp]: "rbind (Inr x) f = f x"
  by (simp add: rbind_def)

lemma rbind_Inl [simp]: "rbind (Inl e) f = Inl e"
  by (simp add: rbind_def)

lemma rbind_eq_Inr: "rbind m f = Inr y \<longleftrightarrow> (\<exists>x. m = Inr x \<and> f x = Inr y)"
  by (cases m) auto

lemma rbind_assoc: "rbind (rbind m f) g = rbind m (\<lambda>x. rbind (f x) g)"
  by (cases m) auto

text \<open>
  A loop that runs a checked operation on each element of a list, and one that runs it a
  given number of times and collects what it returns; the first fault stops either.
\<close>

fun rfold :: "('s \<Rightarrow> 'a \<Rightarrow> 's res) \<Rightarrow> 's \<Rightarrow> 'a list \<Rightarrow> 's res" where
  "rfold f s [] = Inr s"
| "rfold f s (x # xs) = rbind (f s x) (\<lambda>s'. rfold f s' xs)"

fun riter :: "('s \<Rightarrow> ('a \<times> 's) res) \<Rightarrow> nat \<Rightarrow> 's \<Rightarrow> ('a list \<times> 's) res" where
  "riter f 0 s = Inr ([], s)"
| "riter f (Suc n) s =
     rbind (f s) (\<lambda>(x, s'). rbind (riter f n s') (\<lambda>(xs, s''). Inr (x # xs, s'')))"

lemma rfold_append: "rfold f s (xs @ ys) = rbind (rfold f s xs) (\<lambda>s'. rfold f s' ys)"
  by (induction xs arbitrary: s) (auto simp: rbind_assoc)

subsection \<open>Checked array access\<close>

definition arr_get :: "'a list \<Rightarrow> nat \<Rightarrow> 'a res" where
  "arr_get xs i = (if i < length xs then Inr (xs ! i) else Inl OutOfBounds)"

definition arr_set :: "'a list \<Rightarrow> nat \<Rightarrow> 'a \<Rightarrow> 'a list res" where
  "arr_set xs i x = (if i < length xs then Inr (xs[i := x]) else Inl OutOfBounds)"

lemma arr_get_in [simp, arr_simps]: "i < length xs \<Longrightarrow> arr_get xs i = Inr (xs ! i)"
  by (simp add: arr_get_def)

lemma arr_get_out [arr_simps]: "length xs \<le> i \<Longrightarrow> arr_get xs i = Inl OutOfBounds"
  by (simp add: arr_get_def)

lemma arr_set_in [simp, arr_simps]: "i < length xs \<Longrightarrow> arr_set xs i x = Inr (xs[i := x])"
  by (simp add: arr_set_def)

lemma arr_set_out [arr_simps]: "length xs \<le> i \<Longrightarrow> arr_set xs i x = Inl OutOfBounds"
  by (simp add: arr_set_def)

lemma arr_get_eq_Inr: "arr_get xs i = Inr x \<longleftrightarrow> i < length xs \<and> xs ! i = x"
  by (auto simp: arr_get_def)

lemma arr_set_eq_Inr: "arr_set xs i x = Inr ys \<longleftrightarrow> i < length xs \<and> ys = xs[i := x]"
  by (auto simp: arr_set_def)

subsection \<open>Conversions between C integer types\<close>

definition INT32_MIN :: int where "INT32_MIN = - (2 ^ 31)"
definition INT64_MIN :: int where "INT64_MIN = - (2 ^ 63)"
definition INT64_MAX :: int where "INT64_MAX = 2 ^ 63 - 1"

definition is_i64 :: "int \<Rightarrow> bool" where
  "is_i64 x \<longleftrightarrow> INT64_MIN \<le> x \<and> x \<le> INT64_MAX"

text \<open>A \<open>u64\<close> read as an \<open>i64\<close>: two's complement.\<close>

definition i64_of_u64 :: "u64 \<Rightarrow> int" where
  "i64_of_u64 w = sint w"

text \<open>A signed 64-bit result: overflow is undefined behaviour.\<close>

definition i64_checked :: "int \<Rightarrow> int res" where
  "i64_checked x = (if is_i64 x then Inr x else Inl SignedOverflow)"

text \<open>
  A \<open>size_t\<close> or \<open>int\<close> expression used as an \<open>int\<close>: a value outside the type's
  range is a fault (the conversion is implementation-defined, the overflow undefined).
\<close>

definition int_of_size :: "nat \<Rightarrow> int res" where
  "int_of_size n = (if n < 2 ^ 31 then Inr (int n) else Inl IntRange)"

definition int_checked :: "int \<Rightarrow> int res" where
  "int_checked x = (if - (2 ^ 31) \<le> x \<and> x < 2 ^ 31 then Inr x else Inl SignedOverflow)"

lemma is_i64_i64_of_u64 [simp]: "is_i64 (i64_of_u64 w)"
  using sint_greater_eq [of w] sint_less [of w]
  by (simp add: is_i64_def i64_of_u64_def INT64_MIN_def INT64_MAX_def)

lemma int_of_size_in [simp]: "n < 2 ^ 31 \<Longrightarrow> int_of_size n = Inr (int n)"
  by (simp add: int_of_size_def)

lemma i64_checked_in [simp]: "is_i64 x \<Longrightarrow> i64_checked x = Inr x"
  by (simp add: i64_checked_def)

subsection \<open>Words\<close>

lemma unat_and_mask: "unat (x AND (mask k :: 'a::len word)) = unat x mod 2 ^ k"
  by (metis take_bit_eq_mask take_bit_eq_mod unsigned_take_bit_eq)

lemma and_not_mask_plus: "(x AND NOT (mask k)) + (x AND mask k) = (x :: 'a::len word)"
proof -
  have "x AND NOT (mask k) = push_bit k (drop_bit k x)"
    by (rule bit_word_eqI) (auto simp: bit_simps)
  then show ?thesis by (simp add: bits_ident flip: take_bit_eq_mask)
qed

lemma unat_and_not_mask:
  "unat (x AND NOT (mask k) :: 'a::len word) = unat x - unat x mod 2 ^ k"
proof -
  have "x AND NOT (mask k) = x - (x AND mask k)"
    using and_not_mask_plus [of x k] by (metis add_diff_cancel_right')
  moreover have "x AND mask k \<le> x"
    by (simp add: word_le_nat_alt unat_and_mask)
  ultimately show ?thesis by (simp add: unat_sub unat_and_mask)
qed

lemma word32_and_3: "unat (n AND 3 :: u32) = unat n mod 4"
  using unat_and_mask [of n 2] by (simp add: mask_eq_exp_minus_1)

lemma word32_and_not_3: "unat (n AND - 4 :: u32) = unat n - unat n mod 4"
  using unat_and_not_mask [of n 2] by (simp add: mask_eq_exp_minus_1)

lemma u32_bound: "unat (w :: u32) < 2 ^ 32"
  using unsigned_less [of w, where 'a = nat] by simp

lemma unat_of_nat_u64: "w = of_nat n \<Longrightarrow> n < 2 ^ 64 \<Longrightarrow> unat (w :: u64) = n"
  by (simp add: unat_of_nat take_bit_nat_eq_self)

lemma unat_of_nat_u32: "w = of_nat n \<Longrightarrow> n < 2 ^ 32 \<Longrightarrow> unat (w :: u32) = n"
  by (simp only: unat_of_nat) simp

lemma unat_dec: "w \<noteq> 0 \<Longrightarrow> unat (w - 1 :: u32) = unat w - 1"
  by (simp add: unat_sub word_le_nat_alt Suc_leI unat_gt_0)

lemma sint_of_nat_u64: "n < 2 ^ 63 \<Longrightarrow> sint (of_nat n :: u64) = int n"
  by (simp add: signed_of_nat signed_take_bit_int_eq_self)

lemma of_unat_eq: "unat w = m \<Longrightarrow> w = of_nat m"
  by auto

lemma word32_less_4_cases:
  assumes "unat (r :: u32) < 4"
  obtains "r = 0" | "r = 1" | "r = 2" | "r = 3"
proof -
  have "unat r = 0 \<or> unat r = 1 \<or> unat r = 2 \<or> unat r = 3" using assms by linarith
  then show ?thesis using that of_unat_eq [of r 0] of_unat_eq [of r 1] of_unat_eq [of r 2]
      of_unat_eq [of r 3] by fastforce
qed

text \<open>Powers of two: the sizes a ring may have. \<open>AND\<close> with the mask is the remainder.\<close>

definition is_pow2 :: "u32 \<Rightarrow> bool" where
  "is_pow2 w \<longleftrightarrow> (\<exists>k < 32. w = 2 ^ k)"

lemma unat_pow2_32: "k < 32 \<Longrightarrow> unat (2 ^ k :: u32) = 2 ^ k"
proof -
  assume k: "k < 32"
  have "(2::nat) ^ k < 2 ^ 32" using k by (intro power_strict_increasing) auto
  moreover have "(2 ^ k :: u32) = of_nat (2 ^ k)" by simp
  ultimately show ?thesis by (simp only: unat_of_nat) simp
qed

lemma pow2_cases:
  assumes "is_pow2 w"
  obtains k where "k < 32" "w = 2 ^ k" "unat w = 2 ^ k" "w - 1 = mask k"
  using assms unat_pow2_32 by (auto simp: is_pow2_def mask_eq_exp_minus_1)

lemma pow2_dvd: "is_pow2 w \<Longrightarrow> unat w dvd 2 ^ 32"
  by (metis pow2_cases le_imp_power_dvd less_imp_le)

lemma pow2_pos: "is_pow2 w \<Longrightarrow> 0 < unat w"
  by (erule pow2_cases) simp

lemma pow2_bound:
  assumes "is_pow2 w"
  shows "unat w \<le> 2 ^ 31"
proof -
  obtain k where "k < 32" "unat w = 2 ^ k" using assms by (rule pow2_cases)
  moreover from this have "(2::nat) ^ k \<le> 2 ^ 31" by (intro power_increasing) auto
  ultimately show ?thesis by simp
qed

lemma pow2_and_mask: "is_pow2 w \<Longrightarrow> unat (x AND (w - 1)) = unat x mod unat w"
  by (erule pow2_cases) (simp add: unat_and_mask)

lemma pow2_unat_minus_1: "is_pow2 w \<Longrightarrow> unat (w - 1) = unat w - 1"
  using pow2_pos [of w] by (simp add: unat_sub word_le_nat_alt)

lemma mod_pow2_of_sum:
  assumes "is_pow2 w"
  shows "unat (x + of_nat j :: u32) mod unat w = (unat x + j) mod unat w"
proof -
  have "unat (x + of_nat j) = (unat x + j) mod 2 ^ 32"
    by (simp add: unat_word_ariths unat_of_nat mod_simps)
  then show ?thesis using pow2_dvd [OF assms] by (simp add: mod_mod_cancel)
qed

subsection \<open>Copying between arrays\<close>

text \<open>
  The reference for every copying loop: \<open>n\<close> elements from \<open>src\<close> at \<open>s\<close> to \<open>dst\<close> at
  \<open>d\<close>.
\<close>

fun blit :: "nat \<Rightarrow> 'a list \<Rightarrow> nat \<Rightarrow> 'a list \<Rightarrow> nat \<Rightarrow> 'a list" where
  "blit 0 dst d src s = dst"
| "blit (Suc n) dst d src s = blit n (dst[d := src ! s]) (Suc d) src (Suc s)"

lemma blit_few:
  "blit 1 dst d src s = dst[d := src ! s]"
  "blit 2 dst d src s = dst[d := src ! s, Suc d := src ! Suc s]"
  "blit 3 dst d src s =
     dst[d := src ! s, Suc d := src ! Suc s, Suc (Suc d) := src ! Suc (Suc s)]"
  by (simp_all add: numeral_2_eq_2 numeral_3_eq_3)

lemma length_blit [simp]: "length (blit n dst d src s) = length dst"
  by (induction n arbitrary: dst d s) auto

lemma blit_add: "blit (m + n) dst d src s = blit n (blit m dst d src s) (d + m) src (s + m)"
  by (induction m arbitrary: dst d s) auto

lemma nth_blit:
  "d + n \<le> length dst \<Longrightarrow> j < length dst \<Longrightarrow>
   blit n dst d src s ! j = (if d \<le> j \<and> j < d + n then src ! (s + (j - d)) else dst ! j)"
proof (induction n arbitrary: dst d s)
  case (Suc n)
  then have "blit n (dst[d := src ! s]) (Suc d) src (Suc s) ! j =
    (if Suc d \<le> j \<and> j < Suc d + n then src ! (Suc s + (j - Suc d)) else dst[d := src ! s] ! j)"
    by simp
  then show ?case using Suc.prems by (auto simp: nth_list_update Suc_diff_Suc)
qed auto

lemma blit_from_0:
  assumes "n \<le> length dst" "s + n \<le> length src"
  shows "blit n dst 0 src s = take n (drop s src) @ drop n dst"
proof (rule nth_equalityI)
  show "length (blit n dst 0 src s) = length (take n (drop s src) @ drop n dst)"
    using assms by simp
next
  fix j assume "j < length (blit n dst 0 src s)"
  then show "blit n dst 0 src s ! j = (take n (drop s src) @ drop n dst) ! j"
    using assms by (auto simp: nth_blit nth_append)
qed

subsection \<open>Updating a range of an array\<close>

fun upd_range :: "('a \<Rightarrow> 'a) \<Rightarrow> nat \<Rightarrow> nat \<Rightarrow> 'a list \<Rightarrow> 'a list" where
  "upd_range f i 0 xs = xs"
| "upd_range f i (Suc n) xs = upd_range f (Suc i) n (xs[i := f (xs ! i)])"

lemma length_upd_range [simp]: "length (upd_range f i n xs) = length xs"
  by (induction n arbitrary: i xs) auto

lemma nth_upd_range:
  "i + n \<le> length xs \<Longrightarrow> j < length xs \<Longrightarrow>
   upd_range f i n xs ! j = (if i \<le> j \<and> j < i + n then f (xs ! j) else xs ! j)"
proof (induction n arbitrary: i xs)
  case (Suc n)
  then have "upd_range f (Suc i) n (xs[i := f (xs ! i)]) ! j =
    (if Suc i \<le> j \<and> j < Suc i + n then f (xs[i := f (xs ! i)] ! j) else xs[i := f (xs ! i)] ! j)"
    by simp
  then show ?case using Suc.prems by (auto simp: nth_list_update)
qed auto

lemma upd_range_inverse:
  assumes "i + n \<le> length xs" "\<And>j. i \<le> j \<Longrightarrow> j < i + n \<Longrightarrow> g (f (xs ! j)) = xs ! j"
  shows "upd_range g i n (upd_range f i n xs) = xs"
  using assms by (intro nth_equalityI) (auto simp: nth_upd_range)

lemma count_update:
  assumes "i < length xs" "P (xs ! i)" "\<not> P y"
  shows "Suc (length (filter P (xs[i := y]))) = length (filter P xs)"
proof -
  have "xs = take i xs @ xs ! i # drop (Suc i) xs" using assms(1) by (rule id_take_nth_drop)
  then have "length (filter P xs) = length (filter P (take i xs @ xs ! i # drop (Suc i) xs))"
    by simp
  then show ?thesis using assms by (simp add: upd_conv_take_nth_drop)
qed

lemma count_upd_range:
  "i + n \<le> length xs \<Longrightarrow> (\<And>j. i \<le> j \<Longrightarrow> j < i + n \<Longrightarrow> P (xs ! j)) \<Longrightarrow> (\<And>x. \<not> P (f x)) \<Longrightarrow>
   length (filter P (upd_range f i n xs)) + n = length (filter P xs)"
proof (induction n arbitrary: i xs)
  case (Suc n)
  have "length (filter P (upd_range f (Suc i) n (xs[i := f (xs ! i)]))) + n =
      length (filter P (xs[i := f (xs ! i)]))"
    using Suc.prems by (intro Suc.IH) (auto simp: nth_list_update)
  then show ?case using count_update [of i xs P "f (xs ! i)"] Suc.prems by simp
qed simp

lemma i64_of_small: "unat w < 2 ^ 63 \<Longrightarrow> i64_of_u64 w = int (unat w)"
  using sint_of_nat_u64 [of "unat w"] by (simp add: i64_of_u64_def)

subsection \<open>Byte ranges\<close>

text \<open>\<open>memcpy\<close> into and reads out of an array of bytes, with the bounds of both objects checked.\<close>

definition mem_write :: "u8 list \<Rightarrow> nat \<Rightarrow> u8 list \<Rightarrow> nat \<Rightarrow> u8 list res" where
  "mem_write dst off src n =
     (if off + n \<le> length dst \<and> n \<le> length src then Inr (blit n dst off src 0) else Inl OutOfBounds)"

definition mem_read :: "u8 list \<Rightarrow> nat \<Rightarrow> nat \<Rightarrow> u8 list res" where
  "mem_read src off n = (if off + n \<le> length src then Inr (take n (drop off src)) else Inl OutOfBounds)"

lemma mem_write_in [simp]:
  "off + n \<le> length dst \<Longrightarrow> n \<le> length src \<Longrightarrow> mem_write dst off src n = Inr (blit n dst off src 0)"
  by (simp add: mem_write_def)

lemma mem_read_in [simp]: "off + n \<le> length src \<Longrightarrow> mem_read src off n = Inr (take n (drop off src))"
  by (simp add: mem_read_def)

lemma blit_slices:
  assumes "off + n \<le> length dst" "n \<le> length src"
  shows "blit n dst off src 0 = take off dst @ take n src @ drop (off + n) dst"
  using assms by (intro nth_equalityI) (auto simp: nth_blit nth_append)

text \<open>Integers in network byte order, as \<open>rte_cpu_to_be_16\<close> and \<open>rte_cpu_to_be_32\<close> store them.\<close>

definition be16 :: "u16 \<Rightarrow> u8 list" where
  "be16 w = [ucast (drop_bit 8 w), ucast w]"

definition be32 :: "u32 \<Rightarrow> u8 list" where
  "be32 w = [ucast (drop_bit 24 w), ucast (drop_bit 16 w), ucast (drop_bit 8 w), ucast w]"

definition of_be16 :: "u8 list \<Rightarrow> u16" where
  "of_be16 bs = push_bit 8 (ucast (bs ! 0)) OR ucast (bs ! 1)"

definition of_be32 :: "u8 list \<Rightarrow> u32" where
  "of_be32 bs = push_bit 24 (ucast (bs ! 0)) OR push_bit 16 (ucast (bs ! 1)) OR
     push_bit 8 (ucast (bs ! 2)) OR ucast (bs ! 3)"

lemma length_be [simp]: "length (be16 w) = 2" "length (be32 v) = 4"
  by (simp_all add: be16_def be32_def)

lemma of_be16_be16 [simp]: "of_be16 (be16 w) = w"
  unfolding of_be16_def be16_def
  by (rule bit_word_eqI) (auto simp: bit_simps)

lemma of_be32_be32 [simp]: "of_be32 (be32 w) = w"
  unfolding of_be32_def be32_def
proof (rule bit_word_eqI)
  fix n assume "n < LENGTH(32)"
  then consider "n < 8" | "8 \<le> n" "n < 16" | "16 \<le> n" "n < 24" | "24 \<le> n" "n < 32"
    by force
  then show "bit (push_bit 24 (ucast ([ucast (drop_bit 24 w), ucast (drop_bit 16 w),
      ucast (drop_bit 8 w), ucast w :: u8] ! 0)) OR push_bit 16 (ucast ([ucast (drop_bit 24 w),
      ucast (drop_bit 16 w), ucast (drop_bit 8 w), ucast w :: u8] ! 1)) OR push_bit 8
      (ucast ([ucast (drop_bit 24 w), ucast (drop_bit 16 w), ucast (drop_bit 8 w), ucast w :: u8] ! 2)) OR
      ucast ([ucast (drop_bit 24 w), ucast (drop_bit 16 w), ucast (drop_bit 8 w), ucast w :: u8] ! 3) :: u32) n =
    bit w n"
    by cases (auto simp: bit_simps)
qed

end
