(* ===== verification/KT_Interfaces.thy ===== *)
theory KT_Interfaces
  imports KT_Prelude
begin

section \<open>Interfaces between the components\<close>

text \<open>
  What one component relies on of another, as locales: the operations a client calls and
  the laws their provider promises. Each locale is interpreted on the model's own
  operations in the theory of the component that provides them; the client's facts are
  proved once here.
\<close>

subsection \<open>Interface: a bounded bag\<close>

text \<open>
  What the packet scheduler relies on of the deadline queue for buffer accounting: an
  insertion with room adds exactly the given item, a removal takes exactly one item out,
  and neither faults. \<open>space\<close> counts the free places.
\<close>

locale bounded_bag =
  fixes inv :: "'q \<Rightarrow> bool"
    and bag :: "'q \<Rightarrow> 'a multiset"
    and space :: "'q \<Rightarrow> nat"
    and ok :: "'a \<Rightarrow> bool"
    and put :: "'q \<Rightarrow> 'a \<Rightarrow> 'q res"
    and take_one :: "'q \<Rightarrow> ('a \<times> 'q) res"
  assumes put: "inv q \<Longrightarrow> 0 < space q \<Longrightarrow> ok x \<Longrightarrow>
      \<exists>q'. put q x = Inr q' \<and> inv q' \<and> bag q' = add_mset x (bag q) \<and> space q' = space q - 1"
    and take_one: "inv q \<Longrightarrow> bag q \<noteq> {#} \<Longrightarrow>
      \<exists>x q'. take_one q = Inr (x, q') \<and> inv q' \<and> bag q = add_mset x (bag q') \<and>
        space q' = space q + 1"
begin

lemma put_all:
  "inv q \<Longrightarrow> length xs \<le> space q \<Longrightarrow> list_all ok xs \<Longrightarrow>
   \<exists>q'. rfold put q xs = Inr q' \<and> inv q' \<and> bag q' = bag q + mset xs \<and>
     space q' = space q - length xs"
proof (induction xs arbitrary: q)
  case (Cons x xs)
  then obtain q1 where q1: "put q x = Inr q1" "inv q1" "bag q1 = add_mset x (bag q)"
      "space q1 = space q - 1"
    using put [of q x] by auto
  then show ?case using Cons.IH [of q1] Cons.prems by auto
qed simp

lemma take_all:
  "inv q \<Longrightarrow> n \<le> size (bag q) \<Longrightarrow>
   \<exists>xs q'. riter take_one n q = Inr (xs, q') \<and> inv q' \<and> length xs = n \<and>
     bag q = mset xs + bag q'"
proof (induction n arbitrary: q)
  case (Suc n)
  then have "bag q \<noteq> {#}" by auto
  then obtain x q1 where q1: "take_one q = Inr (x, q1)" "inv q1" "bag q = add_mset x (bag q1)"
    using take_one Suc.prems(1) by blast
  then obtain xs q2 where "riter take_one n q1 = Inr (xs, q2)" "inv q2" "length xs = n"
      "bag q1 = mset xs + bag q2"
    using Suc.IH [of q1] Suc.prems(2) by auto
  then show ?case using q1 by auto
qed simp

lemma put_then_take_all:
  assumes "inv q" "bag q = {#}" "length xs \<le> space q" "list_all ok xs"
  shows "\<exists>q1 ys q2. rfold put q xs = Inr q1 \<and> riter take_one (length xs) q1 = Inr (ys, q2) \<and>
    mset ys = mset xs \<and> bag q2 = {#}"
proof -
  obtain q1 where q1: "rfold put q xs = Inr q1" "inv q1" "bag q1 = mset xs"
    using put_all [OF assms(1,3,4)] assms(2) by auto
  obtain ys q2 where q2: "riter take_one (length xs) q1 = Inr (ys, q2)" "length ys = length xs"
      "mset xs = mset ys + bag q2"
    using take_all [OF q1(2), of "length xs"] q1(3) by auto
  have "size (mset xs) = size (mset ys) + size (bag q2)" using q2(3) by (metis size_union)
  then have "bag q2 = {#}" using q2(2) by simp
  then show ?thesis using q1 q2 by auto
qed

end

subsection \<open>Interface: a bounded FIFO\<close>

text \<open>
  What the senders and the scheduler rely on of a ring: items come out in the order they went
  in, at most \<open>limit\<close> are stored, an item offered to a full queue is refused and nothing
  changes, an empty queue yields nothing. \<open>fifo_run\<close> is the specification: the same
  sequence of operations on a list.
\<close>

datatype 'a fifo_op = Put 'a | Get

datatype 'a fifo_out = Stored | Refused | Got 'a | Empty

fun fifo_spec :: "nat \<Rightarrow> 'a list \<Rightarrow> 'a fifo_op \<Rightarrow> 'a list \<times> 'a fifo_out" where
  "fifo_spec lim xs (Put x) = (if length xs < lim then (xs @ [x], Stored) else (xs, Refused))"
| "fifo_spec lim [] Get = ([], Empty)"
| "fifo_spec lim (x # xs) Get = (xs, Got x)"

fun fifo_run :: "nat \<Rightarrow> 'a list \<Rightarrow> 'a fifo_op list \<Rightarrow> 'a list \<times> 'a fifo_out list" where
  "fifo_run lim xs [] = (xs, [])"
| "fifo_run lim xs (a # ops) =
     (let (ys, r) = fifo_spec lim xs a; (zs, rs) = fifo_run lim ys ops in (zs, r # rs))"

text \<open>The same sequence on an implementation with checked \<open>put\<close> and \<open>get\<close>.\<close>

fun impl_op ::
  "('q \<Rightarrow> 'a \<Rightarrow> ('q \<times> bool) res) \<Rightarrow> ('q \<Rightarrow> ('q \<times> 'a option) res) \<Rightarrow> 'q \<Rightarrow> 'a fifo_op \<Rightarrow>
   ('q \<times> 'a fifo_out) res" where
  "impl_op put get q (Put x) = rbind (put q x) (\<lambda>(q', b). Inr (q', if b then Stored else Refused))"
| "impl_op put get q Get =
     rbind (get q) (\<lambda>(q', r). Inr (q', case r of None \<Rightarrow> Empty | Some x \<Rightarrow> Got x))"

fun impl_run ::
  "('q \<Rightarrow> 'a \<Rightarrow> ('q \<times> bool) res) \<Rightarrow> ('q \<Rightarrow> ('q \<times> 'a option) res) \<Rightarrow> 'q \<Rightarrow> 'a fifo_op list \<Rightarrow>
   ('q \<times> 'a fifo_out list) res" where
  "impl_run put get q [] = Inr (q, [])"
| "impl_run put get q (a # ops) =
     rbind (impl_op put get q a) (\<lambda>(q', r).
     rbind (impl_run put get q' ops) (\<lambda>(q'', rs). Inr (q'', r # rs)))"

locale bounded_fifo =
  fixes inv :: "'q \<Rightarrow> bool"
    and items :: "'q \<Rightarrow> 'a list"
    and limit :: "'q \<Rightarrow> nat"
    and put :: "'q \<Rightarrow> 'a \<Rightarrow> ('q \<times> bool) res"
    and get :: "'q \<Rightarrow> ('q \<times> 'a option) res"
  assumes put_room: "inv q \<Longrightarrow> length (items q) < limit q \<Longrightarrow>
      \<exists>q'. put q x = Inr (q', True) \<and> inv q' \<and> items q' = items q @ [x] \<and> limit q' = limit q"
    and put_full: "inv q \<Longrightarrow> limit q \<le> length (items q) \<Longrightarrow> put q x = Inr (q, False)"
    and get_first: "inv q \<Longrightarrow> items q = x # xs \<Longrightarrow>
      \<exists>q'. get q = Inr (q', Some x) \<and> inv q' \<and> items q' = xs \<and> limit q' = limit q"
    and get_empty: "inv q \<Longrightarrow> items q = [] \<Longrightarrow> get q = Inr (q, None)"
begin

lemma op_refines:
  assumes "inv q"
  shows "\<exists>q'. impl_op put get q a = Inr (q', snd (fifo_spec (limit q) (items q) a)) \<and> inv q' \<and>
    items q' = fst (fifo_spec (limit q) (items q) a) \<and> limit q' = limit q"
proof (cases a)
  case (Put x)
  then show ?thesis
    using put_room [OF assms, of x] put_full [OF assms, of x]
    by (cases "length (items q) < limit q") (auto simp: assms)
next
  case Get
  then show ?thesis
    using get_first [OF assms] get_empty [OF assms] assms by (cases "items q") fastforce+
qed

lemma run_refines:
  "inv q \<Longrightarrow> \<exists>q'. impl_run put get q ops = Inr (q', snd (fifo_run (limit q) (items q) ops)) \<and>
     inv q' \<and> items q' = fst (fifo_run (limit q) (items q) ops) \<and> limit q' = limit q"
proof (induction ops arbitrary: q)
  case (Cons a ops)
  obtain q1 where q1: "impl_op put get q a = Inr (q1, snd (fifo_spec (limit q) (items q) a))"
      "inv q1" "items q1 = fst (fifo_spec (limit q) (items q) a)" "limit q1 = limit q"
    using op_refines [OF Cons.prems] by blast
  show ?case using Cons.IH [OF q1(2)] q1 by (auto simp: Let_def split: prod.splits)
qed simp

lemma put_all_fifo:
  "inv q \<Longrightarrow> length (items q) + length xs \<le> limit q \<Longrightarrow>
   \<exists>q'. rfold (\<lambda>q x. rbind (put q x) (\<lambda>(q', b). Inr q')) q xs = Inr q' \<and> inv q' \<and>
     items q' = items q @ xs \<and> limit q' = limit q"
proof (induction xs arbitrary: q)
  case (Cons x xs)
  then obtain q1 where "put q x = Inr (q1, True)" "inv q1" "items q1 = items q @ [x]"
      "limit q1 = limit q"
    using put_room [of q x] by auto
  then show ?case using Cons.IH [of q1] Cons.prems by auto
qed simp

end

subsection \<open>Block stores\<close>

text \<open>Requests made one after the other, and releases.\<close>

fun alloc_all :: "('s \<Rightarrow> 'q \<Rightarrow> ('s \<times> 'h) option) \<Rightarrow> 's \<Rightarrow> 'q list \<Rightarrow> ('s \<times> 'h list) option" where
  "alloc_all f s [] = Some (s, [])"
| "alloc_all f s (q # qs) =
     (case f s q of None \<Rightarrow> None
      | Some (s1, h) \<Rightarrow> (case alloc_all f s1 qs of None \<Rightarrow> None | Some (s2, hs) \<Rightarrow> Some (s2, h # hs)))"

fun release_all :: "('s \<Rightarrow> 'h \<Rightarrow> 's option) \<Rightarrow> 's \<Rightarrow> 'h list \<Rightarrow> 's option" where
  "release_all f s [] = Some s"
| "release_all f s (h # hs) = (case f s h of None \<Rightarrow> None | Some s' \<Rightarrow> release_all f s' hs)"

lemma release_all_append:
  "release_all f s (xs @ ys) = (case release_all f s xs of None \<Rightarrow> None | Some s' \<Rightarrow> release_all f s' ys)"
  by (induction f s xs rule: release_all.induct) (auto split: option.splits)

lemma alloc_all_cons:
  assumes "alloc_all f s (q # qs) = Some (s', hs)"
  obtains s1 h hs' where "f s q = Some (s1, h)" "alloc_all f s1 qs = Some (s', hs')" "hs = h # hs'"
  using assms by (auto split: option.splits prod.splits)

text \<open>
  The contract of an allocator. \<open>blocks\<close> are the live blocks (first unit, number of units),
  \<open>place\<close> the handle of a unit, \<open>need\<close> the number of units a request takes. \<open>alloc\<close> adds one
  new block, \<open>release\<close> removes one, releasing what was just allocated restores the store.
\<close>

locale block_store =
  fixes ok :: "'s \<Rightarrow> bool"
    and blocks :: "'s \<Rightarrow> (nat \<times> nat) set"
    and place :: "'s \<Rightarrow> nat \<Rightarrow> 'h"
    and need :: "'s \<Rightarrow> 'q \<Rightarrow> nat"
    and alloc :: "'s \<Rightarrow> 'q \<Rightarrow> ('s \<times> 'h) option"
    and release :: "'s \<Rightarrow> 'h \<Rightarrow> 's option"
  assumes apart: "ok s \<Longrightarrow> (i, n) \<in> blocks s \<Longrightarrow> (j, m) \<in> blocks s \<Longrightarrow> (i, n) \<noteq> (j, m) \<Longrightarrow>
      i + n \<le> j \<or> j + m \<le> i"
    and alloc_adds: "ok s \<Longrightarrow> alloc s q = Some (s', h) \<Longrightarrow>
      \<exists>i. h = place s i \<and> ok s' \<and> (i, need s q) \<notin> blocks s \<and> blocks s' = insert (i, need s q) (blocks s)"
    and alloc_keeps: "ok s \<Longrightarrow> alloc s q = Some (s', h) \<Longrightarrow> place s' = place s \<and> need s' = need s"
    and release_alloc: "ok s \<Longrightarrow> alloc s q = Some (s', h) \<Longrightarrow> release s' h = Some s"
    and release_removes: "ok s \<Longrightarrow> (i, n) \<in> blocks s \<Longrightarrow>
      \<exists>s'. release s (place s i) = Some s' \<and> ok s' \<and> blocks s' = blocks s - {(i, n)}"
begin

text \<open>A sequence of requests: as many handles, each the place of a new block of its size.\<close>

lemma alloc_all_blocks:
  assumes "ok s" "alloc_all alloc s qs = Some (s', hs)"
  shows "ok s' \<and> place s' = place s \<and> need s' = need s \<and> length hs = length qs \<and>
    blocks s \<subseteq> blocks s' \<and>
    (\<forall>k < length qs. \<exists>i. hs ! k = place s i \<and> (i, need s (qs ! k)) \<in> blocks s' - blocks s)"
  using assms
proof (induction qs arbitrary: s hs)
  case Nil
  then show ?case by simp
next
  case (Cons q qs)
  obtain s1 h hs' where a: "alloc s q = Some (s1, h)" "alloc_all alloc s1 qs = Some (s', hs')" "hs = h # hs'"
    using alloc_all_cons [OF Cons.prems(2)] .
  obtain i where i: "h = place s i" "ok s1" "(i, need s q) \<notin> blocks s"
      "blocks s1 = insert (i, need s q) (blocks s)"
    using alloc_adds [OF Cons.prems(1) a(1)] by blast
  note keep = alloc_keeps [OF Cons.prems(1) a(1)] and IH = Cons.IH [OF i(2) a(2)]
  have "\<exists>i. hs ! k = place s i \<and> (i, need s ((q # qs) ! k)) \<in> blocks s' - blocks s"
    if "k < length (q # qs)" for k
  proof (cases k)
    case 0
    then show ?thesis using i a(3) IH by auto
  next
    case (Suc k')
    then show ?thesis using that i(4) a(3) keep IH by auto
  qed
  then show ?case using IH keep i(4) a(3) by auto
qed

lemma release_alloc_all:
  assumes "ok s" "alloc_all alloc s qs = Some (s', hs)"
  shows "release_all release s' (rev hs) = Some s"
  using assms
proof (induction qs arbitrary: s hs)
  case Nil
  then show ?case by simp
next
  case (Cons q qs)
  obtain s1 h hs' where a: "alloc s q = Some (s1, h)" "alloc_all alloc s1 qs = Some (s', hs')" "hs = h # hs'"
    using alloc_all_cons [OF Cons.prems(2)] .
  have "ok s1" using alloc_adds [OF Cons.prems(1) a(1)] by blast
  from Cons.IH [OF this a(2)] show ?case
    using a(3) release_alloc [OF Cons.prems(1) a(1)] by (simp add: release_all_append)
qed

end

subsection \<open>Interface: invariants under a condition on the run\<close>

text \<open>
  A condition \<open>good\<close> that, once broken, stays broken (a counter of bad events is zero), and an
  invariant that the steps keep while it holds.
\<close>

locale guarded_invariant =
  fixes step :: "'s \<Rightarrow> 's \<Rightarrow> bool"
    and inv :: "'s \<Rightarrow> bool"
    and good :: "'s \<Rightarrow> bool"
  assumes good_before: "step s s' \<Longrightarrow> good s' \<Longrightarrow> good s"
    and inv_step: "inv s \<Longrightarrow> step s s' \<Longrightarrow> good s' \<Longrightarrow> inv s'"
begin

lemma good_start: "step\<^sup>*\<^sup>* s s' \<Longrightarrow> good s' \<Longrightarrow> good s"
  by (induction rule: rtranclp_induct) (auto intro: good_before)

lemma reachable_inv: "step\<^sup>*\<^sup>* s s' \<Longrightarrow> inv s \<Longrightarrow> good s' \<Longrightarrow> inv s'"
  by (induction rule: rtranclp_induct) (blast dest: good_before inv_step)+

end

subsection \<open>Interface: refinement of observed traces\<close>

text \<open>
  A step that carries a label is seen from outside, one without is internal. A run leads from a state
  to another and leaves the labels of its steps, in order.
\<close>

inductive run_trace :: "('s \<Rightarrow> 'l option \<Rightarrow> 's \<Rightarrow> bool) \<Rightarrow> 's \<Rightarrow> 'l list \<Rightarrow> 's \<Rightarrow> bool"
  for step s where
  run_start: "run_trace step s [] s"
| run_hidden: "run_trace step s tr s' \<Longrightarrow> step s' None s'' \<Longrightarrow> run_trace step s tr s''"
| run_visible: "run_trace step s tr s' \<Longrightarrow> step s' (Some l) s'' \<Longrightarrow> run_trace step s (tr @ [l]) s''"

lemma run_trace_append:
  assumes "run_trace step s' tr' s''" "run_trace step s tr s'"
  shows "run_trace step s (tr @ tr') s''"
  using assms(1)
proof (induction rule: run_trace.induct)
  case run_start
  then show ?case using assms(2) by simp
next
  case (run_hidden tr' s1 s2)
  then show ?case by (blast intro: run_trace.run_hidden)
next
  case (run_visible tr' s1 l s2)
  then show ?case using run_trace.run_visible [of step s "tr @ tr'" s1 l s2] by simp
qed

lemma run_trace_single: "step s l s' \<Longrightarrow> run_trace step s (case l of None \<Rightarrow> [] | Some x \<Rightarrow> [x]) s'"
  using run_trace.run_hidden [OF run_start, of step s s'] run_trace.run_visible [OF run_start, of step s _ s']
  by (cases l) auto

lemma run_trace_star: "run_trace step s tr s' \<Longrightarrow> (\<lambda>x y. \<exists>l. step x l y)\<^sup>*\<^sup>* s s'"
  by (induction rule: run_trace.induct) (auto intro: rtranclp.rtrancl_into_rtrancl)

lemma run_trace_mono: "run_trace f s tr s' \<Longrightarrow> (\<And>x l y. f x l y \<Longrightarrow> g x l y) \<Longrightarrow> run_trace g s tr s'"
  by (induction rule: run_trace.induct) (auto intro: run_trace.intros)

text \<open>
  What a refinement needs: such an invariant, and that every concrete step is one step of the
  specification with the same label, or an internal one that the specification does not see. Then
  every trace of the implementation is a trace of the specification.
\<close>

locale trace_refinement = guarded_invariant "\<lambda>s s'. \<exists>l. step s l s'" inv good
  for step :: "'s \<Rightarrow> 'l option \<Rightarrow> 's \<Rightarrow> bool" and inv :: "'s \<Rightarrow> bool" and good :: "'s \<Rightarrow> bool" +
  fixes spec :: "'a \<Rightarrow> 'l option \<Rightarrow> 'a \<Rightarrow> bool"
    and abs :: "'s \<Rightarrow> 'a"
  assumes spec_step: "inv s \<Longrightarrow> step s l s' \<Longrightarrow> good s' \<Longrightarrow> l = None \<and> abs s' = abs s \<or> spec (abs s) l (abs s')"
begin

lemma label_step: "step s l s' \<Longrightarrow> good s' \<Longrightarrow> good s" "inv s \<Longrightarrow> step s l s' \<Longrightarrow> good s' \<Longrightarrow> inv s'"
  using good_before inv_step by blast+

lemma run_inv: "run_trace step s tr s' \<Longrightarrow> inv s \<Longrightarrow> good s' \<Longrightarrow> inv s'"
  by (induction rule: run_trace.induct) (simp, (metis label_step)+)

lemma run_refines: "run_trace step s tr s' \<Longrightarrow> inv s \<Longrightarrow> good s' \<Longrightarrow> run_trace spec (abs s) tr (abs s')"
proof (induction rule: run_trace.induct)
  case run_start
  then show ?case by (simp add: run_trace.run_start)
next
  case (run_hidden tr s1 s2)
  then have "good s1" using label_step(1) by blast
  then have "run_trace spec (abs s) tr (abs s1)" "inv s1" using run_hidden run_inv by blast+
  then show ?case using spec_step [of s1 None s2] run_hidden by (metis run_trace.run_hidden)
next
  case (run_visible tr s1 l s2)
  then have "good s1" using label_step(1) by blast
  then have "run_trace spec (abs s) tr (abs s1)" "inv s1" using run_visible run_inv by blast+
  then show ?case using spec_step [of s1 "Some l" s2] run_visible by (auto intro: run_trace.run_visible)
qed

end

end
