(* ===== verification/KT_Ringbuf.thy ===== *)
theory KT_Ringbuf
  imports KT_Interfaces
begin

unbundle bit_operations_syntax

section \<open>The shared ring buffer (\<open>src/src/kt_ringbuf.c\<close>)\<close>

text \<open>
  The index ring between application processes and the scheduler. All counters are 32-bit
  words that wrap; a slot is a counter ANDed with \<open>mask\<close>. \<open>ring\<close> is the memory that
  follows the header (\<open>rb + 1\<close>) up to the end of the reserved pages, so that an index
  past \<open>rb_size\<close> but inside the reservation reads or writes the neighbouring memory, as
  it does in C, and one past the reservation is the fault \<open>OutOfBounds\<close>.

  The operations here run alone: no other process moves the counters during a call, and
  \<open>atomic_compare_exchange_weak\<close> fails a given number of times for no reason. The
  interleaved executions are in \<open>KT_Ringbuf_Conc\<close>.

  Shown here: one-element operations implement a bounded FIFO for every power-of-two size
  and every counter value, wrap-around included; bursts do so as long as they do not cross
  the end of the array; a burst that crosses it reads and writes past the array.
\<close>

subsection \<open>Data\<close>

record kt_headtail =
  head :: u32
  tail :: u32

record kt_ringbuf =
  rb_name :: string
  ring :: "u64 list"
  rb_size :: u32
  rb_esize :: u32
  rb_mask :: u32
  rb_capacity :: u32
  prod :: kt_headtail
  cons :: kt_headtail

datatype kt_ringbuf_behavior = KT_RB_BEHAVIOR_FIXED | KT_RB_BEHAVIOR_VARIABLE

text \<open>\<open>sizeof(struct kt_ringbuf)\<close>: 72 bytes of fields, rounded up to the 64-byte alignment.\<close>

definition sizeof_kt_ringbuf :: nat where
  "sizeof_kt_ringbuf = 128"

subsection \<open>Creation and observers\<close>

text \<open>The byte count asked of the allocator, truncated to \<open>u32\<close> as the local variable is.\<close>

definition ringbuf_qsize :: "u32 \<Rightarrow> u32 \<Rightarrow> u32" where
  "ringbuf_qsize cnt esize = of_nat sizeof_kt_ringbuf + cnt * esize"

text \<open>
  The header written into the block at \<open>rb\<close>; \<open>block\<close> is the memory after the header.
  \<open>strncpy\<close> keeps at most 31 characters of the name.
\<close>

definition ringbuf_header :: "string \<Rightarrow> u32 \<Rightarrow> u32 \<Rightarrow> u64 list \<Rightarrow> kt_ringbuf" where
  "ringbuf_header name cnt esize block =
     \<lparr>rb_name = take 31 name, ring = block, rb_size = cnt, rb_esize = esize,
      rb_mask = cnt - 1, rb_capacity = cnt - 1,
      prod = \<lparr>head = 0, tail = 0\<rparr>, cons = \<lparr>head = 0, tail = 0\<rparr>\<rparr>"

text \<open>
  \<open>alloc\<close> is \<open>al->alloc\<close> on the allocator state \<open>al\<close>: the new state with the address of
  the block, or with \<open>None\<close> for \<open>NULL\<close>.
\<close>

definition kt_ringbuf_create ::
  "('al \<Rightarrow> u32 \<Rightarrow> ('al \<times> u64 option) res) \<Rightarrow> 'al \<Rightarrow> string \<Rightarrow> u32 \<Rightarrow> u32 \<Rightarrow> u64 list \<Rightarrow>
   ('al \<times> (u64 \<times> kt_ringbuf) option) res" where
  "kt_ringbuf_create alloc al name cnt esize block =
     rbind (alloc al (ringbuf_qsize cnt esize)) (\<lambda>(al', p).
     case p of
       None \<Rightarrow> Inr (al', None)
     | Some addr \<Rightarrow> Inr (al', Some (addr, ringbuf_header name cnt esize block)))"

definition kt_ringbuf_get_capacity :: "kt_ringbuf \<Rightarrow> u32" where
  "kt_ringbuf_get_capacity rb = rb_capacity rb"

definition kt_ringbuf_count :: "kt_ringbuf \<Rightarrow> u32" where
  "kt_ringbuf_count rb =
     (let prod_tail = tail (prod rb); cons_tail = tail (cons rb);
          cnt = (prod_tail - cons_tail) AND rb_mask rb
      in if rb_capacity rb < cnt then rb_capacity rb else cnt)"

subsection \<open>Reserving a range of counters\<close>

text \<open>
  The body of the reservation loop up to the compare-and-swap: how many elements fit given
  the head that was read and the opposite tail.
\<close>

definition prod_attempt ::
  "u32 \<Rightarrow> u32 \<Rightarrow> kt_ringbuf_behavior \<Rightarrow> u32 \<Rightarrow> u32 \<Rightarrow> u32 \<times> u32" where
  "prod_attempt capacity mx behavior old_head cons_tail =
     (let free_entries = capacity - (old_head - cons_tail);
          n = (if free_entries < mx
               then (if behavior = KT_RB_BEHAVIOR_FIXED then 0 else free_entries) else mx)
      in (n, free_entries))"

definition cons_attempt ::
  "u32 \<Rightarrow> kt_ringbuf_behavior \<Rightarrow> u32 \<Rightarrow> u32 \<Rightarrow> u32 \<times> u32" where
  "cons_attempt mx behavior old_head prod_tail =
     (let entries = prod_tail - old_head;
          n = (if entries < mx
               then (if behavior = KT_RB_BEHAVIOR_FIXED then 0 else entries) else mx)
      in (n, entries))"

text \<open>
  The reservation loops. \<open>sp\<close> counts the spurious failures of the weak compare-and-swap;
  each one reloads the head and repeats the body. The result is the number of elements, the
  old and the new head and the free (or available) entries that were computed.
\<close>

fun move_prod_head ::
  "nat \<Rightarrow> kt_ringbuf \<Rightarrow> u32 \<Rightarrow> kt_ringbuf_behavior \<Rightarrow> u32 \<Rightarrow> kt_ringbuf \<times> u32 \<times> u32 \<times> u32 \<times> u32" where
  "move_prod_head sp rb mx behavior old_head =
     (let (n, free_entries) = prod_attempt (rb_capacity rb) mx behavior old_head (tail (cons rb))
      in if n = 0 then (rb, 0, old_head, old_head, free_entries)
         else (case sp of
             0 \<Rightarrow> (rb\<lparr>prod := (prod rb)\<lparr>head := old_head + n\<rparr>\<rparr>, n, old_head, old_head + n, free_entries)
           | Suc sp' \<Rightarrow> move_prod_head sp' rb mx behavior (head (prod rb))))"

fun move_cons_head ::
  "nat \<Rightarrow> kt_ringbuf \<Rightarrow> u32 \<Rightarrow> kt_ringbuf_behavior \<Rightarrow> u32 \<Rightarrow> kt_ringbuf \<times> u32 \<times> u32 \<times> u32 \<times> u32" where
  "move_cons_head sp rb mx behavior old_head =
     (let (n, entries) = cons_attempt mx behavior old_head (tail (prod rb))
      in if n = 0 then (rb, 0, old_head, old_head, entries)
         else (case sp of
             0 \<Rightarrow> (rb\<lparr>cons := (cons rb)\<lparr>head := old_head + n\<rparr>\<rparr>, n, old_head, old_head + n, entries)
           | Suc sp' \<Rightarrow> move_cons_head sp' rb mx behavior (head (cons rb))))"

declare move_prod_head.simps [simp del] move_cons_head.simps [simp del]

subsection \<open>Copying elements\<close>

text \<open>
  \<open>dst[d] = src[s]\<close> on two arrays. Loop counters are naturals: both arrays are shorter than
  \<open>2 ^ 32\<close>, and an index past either end faults before a 32-bit counter could wrap.
\<close>

definition copy_one :: "u64 list \<Rightarrow> nat \<Rightarrow> u64 list \<Rightarrow> nat \<Rightarrow> u64 list res" where
  "copy_one dst d src s = rbind (arr_get src s) (\<lambda>x. arr_set dst d x)"

text \<open>The loop unrolled four times, for \<open>i\<close> below \<open>lim = n & ~0x3\<close>.\<close>

function copy_quads :: "nat \<Rightarrow> u64 list \<Rightarrow> nat \<Rightarrow> u64 list \<Rightarrow> nat \<Rightarrow> nat \<Rightarrow> (u64 list \<times> nat \<times> nat) res" where
  "copy_quads lim dst d src s k =
     (if k < lim then
        (case rbind (copy_one dst d src s) (\<lambda>d1.
              rbind (copy_one d1 (d + 1) src (s + 1)) (\<lambda>d2.
              rbind (copy_one d2 (d + 2) src (s + 2)) (\<lambda>d3.
              copy_one d3 (d + 3) src (s + 3)))) of
           Inl e \<Rightarrow> Inl e
         | Inr dst' \<Rightarrow> copy_quads lim dst' (d + 4) src (s + 4) (k + 4))
      else Inr (dst, d, s))"
  by pat_completeness auto
termination
  by (relation "measure (\<lambda>(lim, dst, d, src, s, k). lim - k)") auto

declare copy_quads.simps [simp del]

text \<open>The \<open>switch (n & 0x3)\<close> with its fall-through cases.\<close>

definition copy_rest :: "u32 \<Rightarrow> u64 list \<Rightarrow> nat \<Rightarrow> u64 list \<Rightarrow> nat \<Rightarrow> u64 list res" where
  "copy_rest r dst d src s =
     (if r = 3 then
        rbind (copy_one dst d src s) (\<lambda>d1.
        rbind (copy_one d1 (d + 1) src (s + 1)) (\<lambda>d2.
        copy_one d2 (d + 2) src (s + 2)))
      else if r = 2 then
        rbind (copy_one dst d src s) (\<lambda>d1. copy_one d1 (d + 1) src (s + 1))
      else if r = 1 then copy_one dst d src s
      else Inr dst)"

text \<open>The plain loop \<open>for (...; i < n; i++, idx++)\<close>; it also returns the final \<open>i\<close>.\<close>

function copy_loop :: "nat \<Rightarrow> u64 list \<Rightarrow> nat \<Rightarrow> u64 list \<Rightarrow> nat \<Rightarrow> nat \<Rightarrow> (u64 list \<times> nat) res" where
  "copy_loop n dst d src s i =
     (if i < n then
        (case copy_one dst d src s of
           Inl e \<Rightarrow> Inl e
         | Inr dst' \<Rightarrow> copy_loop n dst' (d + 1) src (s + 1) (i + 1))
      else Inr (dst, i))"
  by pat_completeness auto
termination
  by (relation "measure (\<lambda>(n, dst, d, src, s, i). n - i)") auto

declare copy_loop.simps [simp del]

text \<open>
  Storing \<open>n\<close> elements. In the second branch the first loop is bounded by \<open>i < n\<close>, not by the
  end of the array, so it copies everything from \<open>idx\<close> on and ends with \<open>i = n\<close>; the loop
  from slot 0 then finds nothing left to do.
\<close>

definition ringbuf_enqueue_elems ::
  "kt_ringbuf \<Rightarrow> u32 \<Rightarrow> u64 list \<Rightarrow> u32 \<Rightarrow> u32 \<Rightarrow> kt_ringbuf res" where
  "ringbuf_enqueue_elems rb prod_head obj_table esize n =
     (if esize = 8 then
        let idx = prod_head AND rb_mask rb in
        if idx + n \<le> rb_size rb then
          rbind (copy_quads (unat (n AND (NOT 3))) (ring rb) (unat idx) obj_table 0 0) (\<lambda>(r, d, s).
          rbind (copy_rest (n AND 3) r d obj_table s) (\<lambda>r'.
          Inr (rb\<lparr>ring := r'\<rparr>)))
        else
          rbind (copy_loop (unat n) (ring rb) (unat idx) obj_table 0 0) (\<lambda>(r, i).
          rbind (copy_loop (unat n) r 0 obj_table i i) (\<lambda>(r', i').
          Inr (rb\<lparr>ring := r'\<rparr>)))
      else Inl AssertFail)"

definition ringbuf_dequeue_elems ::
  "kt_ringbuf \<Rightarrow> u32 \<Rightarrow> u64 list \<Rightarrow> u32 \<Rightarrow> u32 \<Rightarrow> u64 list res" where
  "ringbuf_dequeue_elems rb cons_head obj_table esize n =
     (if esize = 8 then
        let idx = cons_head AND (rb_size rb - 1) in
        if idx + n \<le> rb_size rb then
          rbind (copy_quads (unat (n AND (NOT 3))) obj_table 0 (ring rb) (unat idx) 0) (\<lambda>(r, d, s).
          copy_rest (n AND 3) r d (ring rb) s)
        else
          rbind (copy_loop (unat n) obj_table 0 (ring rb) (unat idx) 0) (\<lambda>(r, i).
          rbind (copy_loop (unat n) r i (ring rb) 0 i) (\<lambda>(r', i').
          Inr r'))
      else Inl AssertFail)"

subsection \<open>Enqueue and dequeue\<close>

text \<open>
  The spin on the tail ends at once when the tail is at the reserved head; running alone it
  never ends otherwise. The last component is what a non-null \<open>free_space\<close> (\<open>available\<close>)
  receives.
\<close>

definition ringbuf_do_enqueue_elems ::
  "nat \<Rightarrow> kt_ringbuf \<Rightarrow> u64 list \<Rightarrow> u32 \<Rightarrow> u32 \<Rightarrow> kt_ringbuf_behavior \<Rightarrow> (kt_ringbuf \<times> u32 \<times> u32) res" where
  "ringbuf_do_enqueue_elems sp rb obj_table esize mx behavior =
     (let (rb1, n, prod_head, prod_next, free_entries) =
            move_prod_head sp rb mx behavior (head (prod rb))
      in if n = 0 then Inr (rb1, 0, free_entries)
         else
           rbind (ringbuf_enqueue_elems rb1 prod_head obj_table esize n) (\<lambda>rb2.
           if tail (prod rb2) \<noteq> prod_head then Inl Diverges
           else Inr (rb2\<lparr>prod := (prod rb2)\<lparr>tail := prod_next\<rparr>\<rparr>, n, free_entries - n)))"

definition ringbuf_do_dequeue_elems ::
  "nat \<Rightarrow> kt_ringbuf \<Rightarrow> u64 list \<Rightarrow> u32 \<Rightarrow> u32 \<Rightarrow> kt_ringbuf_behavior \<Rightarrow>
   (kt_ringbuf \<times> u64 list \<times> u32 \<times> u32) res" where
  "ringbuf_do_dequeue_elems sp rb obj_table esize mx behavior =
     (let (rb1, n, cons_head, cons_next, entries) =
            move_cons_head sp rb mx behavior (head (cons rb))
      in if n = 0 then Inr (rb1, obj_table, 0, entries)
         else
           rbind (ringbuf_dequeue_elems rb1 cons_head obj_table esize n) (\<lambda>tbl.
           if tail (cons rb1) \<noteq> cons_head then Inl Diverges
           else Inr (rb1\<lparr>cons := (cons rb1)\<lparr>tail := cons_next\<rparr>\<rparr>, tbl, n, entries - n)))"

definition kt_ringbuf_enqueue_burst ::
  "nat \<Rightarrow> kt_ringbuf \<Rightarrow> u64 list \<Rightarrow> u32 \<Rightarrow> u32 \<Rightarrow> (kt_ringbuf \<times> u32 \<times> u32) res" where
  "kt_ringbuf_enqueue_burst sp rb obj_table esize n =
     ringbuf_do_enqueue_elems sp rb obj_table esize n KT_RB_BEHAVIOR_VARIABLE"

definition kt_ringbuf_dequeue_burst ::
  "nat \<Rightarrow> kt_ringbuf \<Rightarrow> u64 list \<Rightarrow> u32 \<Rightarrow> u32 \<Rightarrow> (kt_ringbuf \<times> u64 list \<times> u32 \<times> u32) res" where
  "kt_ringbuf_dequeue_burst sp rb obj_table esize n =
     ringbuf_do_dequeue_elems sp rb obj_table esize n KT_RB_BEHAVIOR_VARIABLE"

subsection \<open>The copying loops are block copies\<close>

lemma copy_one_in [simp]:
  "d < length dst \<Longrightarrow> s < length src \<Longrightarrow> copy_one dst d src s = Inr (dst[d := src ! s])"
  by (simp add: copy_one_def)

lemma copy_loop_blit:
  assumes "i \<le> n" "d + (n - i) \<le> length dst" "s + (n - i) \<le> length src"
  shows "copy_loop n dst d src s i = Inr (blit (n - i) dst d src s, n)"
  using assms
proof (induction n dst d src s i rule: copy_loop.induct)
  case (1 n dst d src s i)
  show ?case
  proof (cases "i < n")
    case True
    then have "n - i = Suc (n - Suc i)" by simp
    then show ?thesis using True 1 by (simp add: copy_loop.simps [of n dst])
  next
    case False
    then show ?thesis using 1 by (simp add: copy_loop.simps [of n dst])
  qed
qed

lemma copy_quads_blit:
  assumes "k \<le> lim" "4 dvd lim - k" "d + (lim - k) \<le> length dst" "s + (lim - k) \<le> length src"
  shows "copy_quads lim dst d src s k =
    Inr (blit (lim - k) dst d src s, d + (lim - k), s + (lim - k))"
  using assms
proof (induction lim dst d src s k rule: copy_quads.induct)
  case (1 lim dst d src s k)
  show ?case
  proof (cases "k < lim")
    case True
    then have "4 \<le> lim - k" using 1(3) by (simp add: dvd_imp_le)
    then obtain m where m: "lim - k = 4 + m" by (metis le_Suc_ex)
    then have m': "lim - (k + 4) = m" "k + 4 \<le> lim" "4 dvd m" using 1(3) by simp_all
    let ?dst = "dst[d := src ! s, d + 1 := src ! (s + 1), d + 2 := src ! (s + 2), d + 3 := src ! (s + 3)]"
    have one: "rbind (copy_one dst d src s) (\<lambda>d1. rbind (copy_one d1 (d + 1) src (s + 1)) (\<lambda>d2.
        rbind (copy_one d2 (d + 2) src (s + 2)) (\<lambda>d3. copy_one d3 (d + 3) src (s + 3)))) = Inr ?dst"
      using 1(4,5) m by simp
    have "copy_quads lim ?dst (d + 4) src (s + 4) (k + 4) =
        Inr (blit m ?dst (d + 4) src (s + 4), d + (lim - k), s + (lim - k))"
      using 1(1) [OF True one] 1(4,5) m m' by simp
    moreover have "blit (lim - k) dst d src s = blit m ?dst (d + 4) src (s + 4)"
      by (simp add: m numeral_eq_Suc)
    ultimately show ?thesis using True one by (simp add: copy_quads.simps [of lim dst])
  next
    case False
    then show ?thesis using 1 by (simp add: copy_quads.simps [of lim dst])
  qed
qed

lemma copy_rest_blit:
  assumes "unat r < 4" "d + unat r \<le> length dst" "s + unat r \<le> length src"
  shows "copy_rest r dst d src s = Inr (blit (unat r) dst d src s)"
  using assms(1)
  by (cases r rule: word32_less_4_cases) (use assms(2,3) in \<open>simp_all add: copy_rest_def blit_few\<close>)

lemma copy_burst_blit:
  assumes "d + unat n \<le> length dst" "s + unat n \<le> length src"
  shows "rbind (copy_quads (unat (n AND (NOT 3 :: u32))) dst d src s 0) (\<lambda>(r, d', s').
    copy_rest (n AND 3) r d' src s') = Inr (blit (unat n) dst d src s)"
proof -
  let ?m = "unat n - unat n mod 4"
  have split: "unat n = ?m + unat n mod 4" by simp
  have "copy_quads (unat (n AND NOT 3)) dst d src s 0 = Inr (blit ?m dst d src s, d + ?m, s + ?m)"
    using copy_quads_blit [of 0 ?m d dst s src] assms by (simp add: word32_and_not_3 dvd_minus_mod)
  moreover have "copy_rest (n AND 3) (blit ?m dst d src s) (d + ?m) src (s + ?m) =
      Inr (blit (unat n mod 4) (blit ?m dst d src s) (d + ?m) src (s + ?m))"
    using copy_rest_blit [of "n AND 3" "d + ?m" "blit ?m dst d src s" "s + ?m" src] assms split
    by (simp add: word32_and_3)
  ultimately show ?thesis using blit_add [of ?m "unat n mod 4" dst d src s] split by simp
qed

subsection \<open>Invariant and abstraction to a list\<close>

text \<open>
  \<open>rb_wf\<close>: the geometry (a power-of-two size whose array lies in the reserved memory) and,
  between calls, head and tail of each side agree and at most \<open>capacity\<close> elements are stored.
  \<open>rb_items\<close> reads the stored elements in order of their counters.
\<close>

definition rb_geo :: "kt_ringbuf \<Rightarrow> bool" where
  "rb_geo rb \<longleftrightarrow> is_pow2 (rb_size rb) \<and> rb_mask rb = rb_size rb - 1 \<and>
     rb_capacity rb = rb_size rb - 1 \<and> unat (rb_size rb) \<le> length (ring rb)"

definition rb_len :: "kt_ringbuf \<Rightarrow> nat" where
  "rb_len rb = unat (tail (prod rb) - tail (cons rb))"

definition rb_wf :: "kt_ringbuf \<Rightarrow> bool" where
  "rb_wf rb \<longleftrightarrow> rb_geo rb \<and> head (prod rb) = tail (prod rb) \<and> head (cons rb) = tail (cons rb) \<and>
     rb_len rb \<le> unat (rb_capacity rb)"

definition rb_slot :: "kt_ringbuf \<Rightarrow> u32 \<Rightarrow> nat" where
  "rb_slot rb c = unat (c AND rb_mask rb)"

definition rb_items :: "kt_ringbuf \<Rightarrow> u64 list" where
  "rb_items rb = map (\<lambda>j. ring rb ! rb_slot rb (tail (cons rb) + of_nat j)) [0..<rb_len rb]"

definition rb_room :: "kt_ringbuf \<Rightarrow> nat" where
  "rb_room rb = unat (rb_capacity rb) - rb_len rb"

lemma length_rb_items [simp]: "length (rb_items rb) = rb_len rb"
  by (simp add: rb_items_def)

lemma rb_slot_mod:
  "rb_geo rb \<Longrightarrow> rb_slot rb (c + of_nat j) = (unat c + j) mod unat (rb_size rb)"
  by (simp add: rb_slot_def rb_geo_def pow2_and_mask mod_pow2_of_sum)

lemma rb_slot_less: "rb_geo rb \<Longrightarrow> rb_slot rb c < unat (rb_size rb)"
  using rb_slot_mod [of rb c 0] by (simp add: rb_geo_def pow2_pos)

lemma rb_geo_capacity: "rb_geo rb \<Longrightarrow> unat (rb_capacity rb) = unat (rb_size rb) - 1"
  by (simp add: rb_geo_def pow2_unat_minus_1)

text \<open>
  Slots of counters less than a ring's size apart are distinct, and the slot of the producer
  tail is the one after the last stored element.
\<close>

lemma mod_offset_neq:
  fixes a i j m :: nat
  assumes "i < j" "j < i + m"
  shows "(a + i) mod m \<noteq> (a + j) mod m"
proof
  assume "(a + i) mod m = (a + j) mod m"
  then have "m dvd (a + j) - (a + i)"
    using assms(1) mod_eq_dvd_iff_nat [of "a + i" "a + j" m] by simp
  then have "m \<le> j - i" using assms by (simp add: dvd_imp_le)
  then show False using assms by simp
qed

lemma prod_tail_eq: "tail (prod rb) = tail (cons rb) + of_nat (rb_len rb)"
  by (simp add: rb_len_def)

lemma prod_slot:
  "rb_geo rb \<Longrightarrow> rb_slot rb (tail (prod rb)) = (unat (tail (cons rb)) + rb_len rb) mod unat (rb_size rb)"
  by (subst prod_tail_eq) (rule rb_slot_mod)

lemma rb_slot_no_wrap:
  assumes "rb_geo rb" "rb_slot rb c + n \<le> unat (rb_size rb)" "i < n"
  shows "(unat c + i) mod unat (rb_size rb) = rb_slot rb c + i"
proof -
  have "(unat c + i) mod unat (rb_size rb) = (rb_slot rb c + i) mod unat (rb_size rb)"
    using rb_slot_mod [OF assms(1), of c 0] by (simp add: mod_simps)
  then show ?thesis using assms(2,3) by simp
qed

subsection \<open>Reservations\<close>

lemma prod_attempt_variable:
  assumes "unat (old_head - cons_tail) \<le> unat capacity"
  shows "prod_attempt capacity mx KT_RB_BEHAVIOR_VARIABLE old_head cons_tail =
    (min mx (capacity - (old_head - cons_tail)), capacity - (old_head - cons_tail))"
    and "unat (capacity - (old_head - cons_tail)) = unat capacity - unat (old_head - cons_tail)"
proof -
  show "unat (capacity - (old_head - cons_tail)) = unat capacity - unat (old_head - cons_tail)"
    using assms by (simp add: unat_sub word_le_nat_alt)
qed (auto simp: prod_attempt_def Let_def min_def)

lemma cons_attempt_variable:
  "cons_attempt mx KT_RB_BEHAVIOR_VARIABLE old_head prod_tail =
    (min mx (prod_tail - old_head), prod_tail - old_head)"
  by (auto simp: cons_attempt_def Let_def min_def)

text \<open>Spurious failures of the compare-and-swap do not change the outcome of a lone call.\<close>

lemma move_prod_head_spurious:
  "move_prod_head sp rb mx b (head (prod rb)) = move_prod_head 0 rb mx b (head (prod rb))"
proof (induction sp)
  case (Suc sp)
  then show ?case
    by (auto simp: move_prod_head.simps [of "Suc sp"] move_prod_head.simps [of 0] Let_def
        split: prod.splits)
qed simp

lemma move_cons_head_spurious:
  "move_cons_head sp rb mx b (head (cons rb)) = move_cons_head 0 rb mx b (head (cons rb))"
proof (induction sp)
  case (Suc sp)
  then show ?case
    by (auto simp: move_cons_head.simps [of "Suc sp"] move_cons_head.simps [of 0] Let_def
        split: prod.splits)
qed simp

lemma unat_min: "unat (min a b) = min (unat a) (unat b)"
  by (simp add: min_def word_le_nat_alt)

lemma sum_le_size:
  assumes "rb_geo rb" "unat n \<le> unat (rb_capacity rb)"
  shows "(c AND rb_mask rb) + n \<le> rb_size rb \<longleftrightarrow> rb_slot rb c + unat n \<le> unat (rb_size rb)"
proof -
  have "rb_slot rb c + unat n < 2 ^ 32"
    using rb_slot_less [OF assms(1), of c] assms rb_geo_capacity [OF assms(1)]
      pow2_bound [of "rb_size rb"] by (simp add: rb_geo_def)
  then have "unat ((c AND rb_mask rb) + n) = rb_slot rb c + unat n"
    by (simp add: rb_slot_def unat_word_ariths)
  then show ?thesis by (simp add: word_le_nat_alt)
qed

subsection \<open>What a burst does, crossing the end of the array or not\<close>

lemma headtail_eqI: "head h = x \<Longrightarrow> tail h = x \<Longrightarrow> h = \<lparr>head = x, tail = x\<rparr>"
  by simp

lemma enqueue_elems_blit:
  assumes "rb_geo rb" "unat n \<le> unat (rb_capacity rb)" "unat n \<le> length src"
    and "rb_slot rb c + unat n \<le> length (ring rb)"
  shows "ringbuf_enqueue_elems rb c src 8 n =
    Inr (rb\<lparr>ring := blit (unat n) (ring rb) (rb_slot rb c) src 0\<rparr>)"
proof (cases "rb_slot rb c + unat n \<le> unat (rb_size rb)")
  case True
  then have "(c AND rb_mask rb) + n \<le> rb_size rb" using sum_le_size [OF assms(1,2)] by simp
  moreover have "rbind (copy_quads (unat (n AND (NOT 3))) (ring rb) (rb_slot rb c) src 0 0)
      (\<lambda>(r, d, s). copy_rest (n AND 3) r d src s) =
    Inr (blit (unat n) (ring rb) (rb_slot rb c) src 0)"
    using copy_burst_blit [of "rb_slot rb c" n "ring rb" 0 src] assms(3,4) by simp
  ultimately show ?thesis
    by (auto simp: ringbuf_enqueue_elems_def Let_def rb_slot_def rbind_eq_Inr)
next
  case False
  then have "\<not> (c AND rb_mask rb) + n \<le> rb_size rb" using sum_le_size [OF assms(1,2)] by simp
  moreover have "copy_loop (unat n) (ring rb) (rb_slot rb c) src 0 0 =
      Inr (blit (unat n) (ring rb) (rb_slot rb c) src 0, unat n)"
    using copy_loop_blit [of 0 "unat n" "rb_slot rb c" "ring rb" 0 src] assms(3,4) by simp
  ultimately show ?thesis
    by (simp add: ringbuf_enqueue_elems_def Let_def rb_slot_def copy_loop.simps [of _ "blit _ _ _ _ _"])
qed

lemma dequeue_elems_blit:
  assumes "rb_geo rb" "unat n \<le> unat (rb_capacity rb)" "unat n \<le> length tbl"
    and "rb_slot rb c + unat n \<le> length (ring rb)"
  shows "ringbuf_dequeue_elems rb c tbl 8 n = Inr (blit (unat n) tbl 0 (ring rb) (rb_slot rb c))"
proof -
  have mask: "rb_size rb - 1 = rb_mask rb" using assms(1) by (simp add: rb_geo_def)
  show ?thesis
  proof (cases "rb_slot rb c + unat n \<le> unat (rb_size rb)")
    case True
    then have "(c AND rb_mask rb) + n \<le> rb_size rb" using sum_le_size [OF assms(1,2)] by simp
    then show ?thesis
      using copy_burst_blit [of 0 n tbl "rb_slot rb c" "ring rb"] assms(3,4) mask
      by (simp add: ringbuf_dequeue_elems_def Let_def rb_slot_def)
  next
    case False
    then have "\<not> (c AND rb_mask rb) + n \<le> rb_size rb" using sum_le_size [OF assms(1,2)] by simp
    moreover have "copy_loop (unat n) tbl 0 (ring rb) (rb_slot rb c) 0 =
        Inr (blit (unat n) tbl 0 (ring rb) (rb_slot rb c), unat n)"
      using copy_loop_blit [of 0 "unat n" 0 tbl "rb_slot rb c" "ring rb"] assms(3,4) by simp
    ultimately show ?thesis
      using mask
      by (simp add: ringbuf_dequeue_elems_def Let_def rb_slot_def copy_loop.simps [of _ "blit _ _ _ _ _"])
  qed
qed

lemma enqueue_burst_eq:
  assumes wf: "rb_wf rb" and m: "m = min (unat n) (rb_room rb)"
    and src: "m \<le> length src" and fit: "rb_slot rb (tail (prod rb)) + m \<le> length (ring rb)"
  defines "t \<equiv> tail (prod rb) + of_nat m"
  shows "kt_ringbuf_enqueue_burst sp rb src 8 n =
    Inr (rb\<lparr>ring := blit m (ring rb) (rb_slot rb (tail (prod rb))) src 0,
            prod := \<lparr>head = t, tail = t\<rparr>\<rparr>, of_nat m, of_nat (rb_room rb - m))"
proof -
  let ?c = "tail (prod rb)"
  have geo: "rb_geo rb" and h: "head (prod rb) = ?c" using wf by (auto simp: rb_wf_def)
  have le: "unat (?c - tail (cons rb)) \<le> unat (rb_capacity rb)"
    using wf by (simp add: rb_wf_def rb_len_def)
  note att = prod_attempt_variable [OF le]
  let ?f = "rb_capacity rb - (?c - tail (cons rb))"
  let ?n = "min n ?f"
  have f: "unat ?f = rb_room rb" using att(2) by (simp add: rb_room_def rb_len_def)
  have nm: "unat ?n = m" using f m by (simp add: unat_min)
  then have nw: "?n = of_nat m" by (rule of_unat_eq)
  have rest: "?f - ?n = of_nat (rb_room rb - m)"
    using f nm by (intro of_unat_eq) (simp add: unat_sub word_le_nat_alt unat_min m)
  have mv: "move_prod_head sp rb n KT_RB_BEHAVIOR_VARIABLE (head (prod rb)) =
    (if ?n = 0 then (rb, 0, ?c, ?c, ?f)
     else (rb\<lparr>prod := (prod rb)\<lparr>head := ?c + ?n\<rparr>\<rparr>, ?n, ?c, ?c + ?n, ?f))"
    by (subst move_prod_head_spurious) (simp add: move_prod_head.simps [of 0] att(1) h Let_def)
  show ?thesis
  proof (cases "?n = 0")
    case True
    then have "m = 0" using nm by simp
    then show ?thesis
      using mv True headtail_eqI [OF h refl] of_unat_eq [OF f]
      by (simp add: kt_ringbuf_enqueue_burst_def ringbuf_do_enqueue_elems_def t_def)
  next
    case False
    let ?rb = "rb\<lparr>prod := (prod rb)\<lparr>head := ?c + ?n\<rparr>\<rparr>"
    have "rb_geo ?rb" using geo by (simp add: rb_geo_def)
    moreover have "unat ?n \<le> unat (rb_capacity ?rb)"
      using nm m by (simp add: rb_room_def)
    ultimately have "ringbuf_enqueue_elems ?rb ?c src 8 ?n =
        Inr (?rb\<lparr>ring := blit m (ring rb) (rb_slot rb ?c) src 0\<rparr>)"
      using enqueue_elems_blit [of ?rb ?n src ?c] src fit nm by (simp add: rb_slot_def)
    then show ?thesis
      using mv False rest nw
      by (simp add: kt_ringbuf_enqueue_burst_def ringbuf_do_enqueue_elems_def t_def)
  qed
qed

lemma dequeue_burst_eq:
  assumes wf: "rb_wf rb" and m: "m = min (unat n) (rb_len rb)"
    and tbl: "m \<le> length tbl" and fit: "rb_slot rb (tail (cons rb)) + m \<le> length (ring rb)"
  defines "t \<equiv> tail (cons rb) + of_nat m"
  shows "kt_ringbuf_dequeue_burst sp rb tbl 8 n =
    Inr (rb\<lparr>cons := \<lparr>head = t, tail = t\<rparr>\<rparr>, blit m tbl 0 (ring rb) (rb_slot rb (tail (cons rb))),
      of_nat m, of_nat (rb_len rb - m))"
proof -
  let ?c = "tail (cons rb)"
  let ?f = "tail (prod rb) - ?c"
  let ?n = "min n ?f"
  have geo: "rb_geo rb" and h: "head (cons rb) = ?c" and len: "unat ?f = rb_len rb"
    using wf by (auto simp: rb_wf_def rb_len_def)
  have nm: "unat ?n = m" using len m by (simp add: unat_min)
  then have nw: "?n = of_nat m" by (rule of_unat_eq)
  have rest: "?f - ?n = of_nat (rb_len rb - m)"
    using len nm by (intro of_unat_eq) (simp add: unat_sub word_le_nat_alt unat_min m)
  have mv: "move_cons_head sp rb n KT_RB_BEHAVIOR_VARIABLE (head (cons rb)) =
    (if ?n = 0 then (rb, 0, ?c, ?c, ?f)
     else (rb\<lparr>cons := (cons rb)\<lparr>head := ?c + ?n\<rparr>\<rparr>, ?n, ?c, ?c + ?n, ?f))"
    by (subst move_cons_head_spurious)
      (simp add: move_cons_head.simps [of 0] cons_attempt_variable h Let_def)
  show ?thesis
  proof (cases "?n = 0")
    case True
    then have "m = 0" using nm by simp
    then show ?thesis
      using mv True headtail_eqI [OF h refl] of_unat_eq [OF len]
      by (simp add: kt_ringbuf_dequeue_burst_def ringbuf_do_dequeue_elems_def t_def)
  next
    case False
    let ?rb = "rb\<lparr>cons := (cons rb)\<lparr>head := ?c + ?n\<rparr>\<rparr>"
    have "rb_geo ?rb" using geo by (simp add: rb_geo_def)
    moreover have "unat ?n \<le> unat (rb_capacity ?rb)"
      using nm m wf by (auto simp: rb_wf_def)
    ultimately have "ringbuf_dequeue_elems ?rb ?c tbl 8 ?n =
        Inr (blit m tbl 0 (ring rb) (rb_slot rb ?c))"
      using dequeue_elems_blit [of ?rb ?n tbl ?c] tbl fit nm by (simp add: rb_slot_def)
    then show ?thesis
      using mv False rest nw
      by (simp add: kt_ringbuf_dequeue_burst_def ringbuf_do_dequeue_elems_def t_def)
  qed
qed

subsection \<open>Bursts that stay inside the array implement a FIFO\<close>

lemma rb_len_after_put:
  assumes "rb_wf rb" "m \<le> rb_room rb" "tail (prod rb') = tail (prod rb) + of_nat m"
    "cons rb' = cons rb"
  shows "rb_len rb' = rb_len rb + m"
proof -
  have b: "rb_len rb + m < 2 ^ 32"
    using assms(1,2) u32_bound [of "rb_capacity rb"] unfolding rb_wf_def rb_room_def by linarith
  have "tail (prod rb') - tail (cons rb') = of_nat (rb_len rb + m)"
    using assms(3,4) by (simp add: rb_len_def)
  from unat_of_nat_u32 [OF this b] show ?thesis by (simp add: rb_len_def [of rb'])
qed

lemma rb_len_after_get:
  assumes "rb_wf rb" "m \<le> rb_len rb" "tail (cons rb') = tail (cons rb) + of_nat m"
    "prod rb' = prod rb"
  shows "rb_len rb' = rb_len rb - m"
proof -
  have b: "rb_len rb - m < 2 ^ 32"
    using u32_bound [of "tail (prod rb) - tail (cons rb)"] unfolding rb_len_def by linarith
  have "tail (prod rb') - tail (cons rb') = of_nat (rb_len rb) - of_nat m"
    using assms(3,4) by (simp add: rb_len_def)
  also have "\<dots> = of_nat (rb_len rb - m)" using assms(2) by (simp add: of_nat_diff)
  finally have eq: "tail (prod rb') - tail (cons rb') = of_nat (rb_len rb - m)" .
  from unat_of_nat_u32 [OF eq b] show ?thesis by (simp add: rb_len_def [of rb'])
qed

text \<open>Where a reservation of \<open>m\<close> cells lies: behind the stored elements and apart from all of them.\<close>

lemma reserved_cells:
  assumes wf: "rb_wf rb" and m: "m \<le> rb_room rb" and inside: "rb_slot rb (tail (prod rb)) + m \<le> unat (rb_size rb)"
  defines "S \<equiv> unat (rb_size rb)" and "c \<equiv> unat (tail (cons rb))" and "p \<equiv> rb_slot rb (tail (prod rb))"
  shows "i < m \<Longrightarrow> (c + (rb_len rb + i)) mod S = p + i"
    and "j < rb_len rb \<Longrightarrow> \<not> (p \<le> (c + j) mod S \<and> (c + j) mod S < p + m)"
    and "(c + j) mod S < length (ring rb)" and "S \<le> length (ring rb)"
proof -
  have geo: "rb_geo rb" using wf by (simp add: rb_wf_def)
  show sz: "S \<le> length (ring rb)" using geo by (auto simp: rb_geo_def S_def)
  have lim: "rb_len rb + m < S"
    using geo wf m rb_geo_capacity [OF geo] pow2_pos [of "rb_size rb"]
    by (auto simp: rb_geo_def rb_wf_def rb_room_def S_def)
  have p: "p = (c + rb_len rb) mod S" using prod_slot [OF geo] by (simp add: p_def c_def S_def)
  show new: "(c + (rb_len rb + i)) mod S = p + i" if "i < m" for i
    using inside that p unfolding S_def [symmetric] p_def [symmetric]
    by (metis add.assoc mod_add_left_eq mod_less nat_add_left_cancel_less order_less_le_trans)
  show "\<not> (p \<le> (c + j) mod S \<and> (c + j) mod S < p + m)" if j: "j < rb_len rb" for j
  proof
    assume a: "p \<le> (c + j) mod S \<and> (c + j) mod S < p + m"
    define i where "i = (c + j) mod S - p"
    have "i < m" "(c + j) mod S = (c + (rb_len rb + i)) mod S"
      using a new [of i] by (auto simp: i_def)
    then show False using mod_offset_neq [of j "rb_len rb + i" S c] lim j by simp
  qed
  show "(c + j) mod S < length (ring rb)"
    using rb_slot_mod [OF geo, of "tail (cons rb)" j] rb_slot_less [OF geo] sz
    unfolding c_def S_def by (metis order_less_le_trans)
qed

lemma rb_items_put:
  assumes wf: "rb_wf rb" and m: "m \<le> rb_room rb" and src: "m \<le> length src"
    and inside: "rb_slot rb (tail (prod rb)) + m \<le> unat (rb_size rb)"
  defines "t \<equiv> tail (prod rb) + of_nat m"
  defines "rb' \<equiv> rb\<lparr>ring := blit m (ring rb) (rb_slot rb (tail (prod rb))) src 0,
                     prod := \<lparr>head = t, tail = t\<rparr>\<rparr>"
  shows "rb_wf rb'" and "rb_items rb' = rb_items rb @ take m src"
proof -
  have geo: "rb_geo rb" and geo': "rb_geo rb'"
    using wf by (auto simp: rb_wf_def rb_geo_def rb'_def)
  have len: "rb_len rb' = rb_len rb + m"
    using rb_len_after_put [OF wf m, of rb'] by (simp add: rb'_def t_def)
  show "rb_wf rb'"
    using wf geo' len m by (auto simp: rb_wf_def rb'_def rb_room_def)
  note cells = reserved_cells [OF wf m inside]
  let ?S = "unat (rb_size rb)" and ?c = "unat (tail (cons rb))" and ?p = "rb_slot rb (tail (prod rb))"
  have slot: "rb_slot rb' (tail (cons rb') + of_nat j) = (?c + j) mod ?S" for j
    using rb_slot_mod [OF geo, of "tail (cons rb)" j] by (simp add: rb'_def rb_slot_def)
  show "rb_items rb' = rb_items rb @ take m src"
  proof (rule nth_equalityI)
    fix j assume "j < length (rb_items rb')"
    then have j: "j < rb_len rb + m" using len by simp
    have item: "rb_items rb' ! j = blit m (ring rb) ?p src 0 ! ((?c + j) mod ?S)"
      using j len slot [of j] by (simp add: rb_items_def) (simp add: rb'_def)
    show "rb_items rb' ! j = (rb_items rb @ take m src) ! j"
    proof (cases "j < rb_len rb")
      case True
      then show ?thesis
        using item cells(2) [OF True] inside cells(3) [of j] cells(4) rb_slot_mod [OF geo, of "tail (cons rb)" j]
        by (simp add: nth_append nth_blit rb_items_def)
    next
      case False
      define i where "i = j - rb_len rb"
      have i: "j = rb_len rb + i" "i < m" using False j by (auto simp: i_def)
      then show ?thesis
        using item cells(1) [OF i(2)] cells(4) inside src by (simp add: nth_append nth_blit)
    qed
  qed (use len src in simp)
qed

lemma rb_items_get:
  assumes wf: "rb_wf rb" and m: "m \<le> rb_len rb"
  defines "t \<equiv> tail (cons rb) + of_nat m"
  defines "rb' \<equiv> rb\<lparr>cons := \<lparr>head = t, tail = t\<rparr>\<rparr>"
  shows "rb_wf rb'" and "rb_items rb' = drop m (rb_items rb)"
proof -
  have len: "rb_len rb' = rb_len rb - m"
    using rb_len_after_get [OF wf m, of rb'] by (simp add: rb'_def t_def)
  then show "rb_wf rb'" using wf by (auto simp: rb_wf_def rb_geo_def rb'_def)
  show "rb_items rb' = drop m (rb_items rb)"
  proof (rule nth_equalityI)
    fix j assume "j < length (rb_items rb')"
    then have "j < rb_len rb - m" using len by simp
    then show "rb_items rb' ! j = drop m (rb_items rb) ! j"
      using len by (simp add: rb_items_def) (simp add: rb'_def t_def rb_slot_def add.assoc)
  qed (use len in simp)
qed

lemma rb_items_read:
  assumes wf: "rb_wf rb" and m: "m \<le> rb_len rb"
    and inside: "rb_slot rb (tail (cons rb)) + m \<le> unat (rb_size rb)"
  shows "take m (drop (rb_slot rb (tail (cons rb))) (ring rb)) = take m (rb_items rb)"
proof (rule nth_equalityI)
  have geo: "rb_geo rb" using wf by (simp add: rb_wf_def)
  then have sz: "unat (rb_size rb) \<le> length (ring rb)" by (simp add: rb_geo_def)
  then show "length (take m (drop (rb_slot rb (tail (cons rb))) (ring rb))) =
      length (take m (rb_items rb))" using m inside by simp
  fix j assume "j < length (take m (drop (rb_slot rb (tail (cons rb))) (ring rb)))"
  then have j: "j < m" by simp
  then show "take m (drop (rb_slot rb (tail (cons rb))) (ring rb)) ! j = take m (rb_items rb) ! j"
    using rb_slot_no_wrap [OF geo inside j] rb_slot_mod [OF geo, of "tail (cons rb)" j] m inside sz
    by (simp add: rb_items_def)
qed

subsection \<open>One element at a time\<close>

text \<open>
  The calls every client of a ring makes except the scheduler's burst: one index in, one
  index out. The table that receives an index is uninitialised stack memory (\<open>junk\<close>).
\<close>

definition rb_put :: "nat \<Rightarrow> kt_ringbuf \<Rightarrow> u64 \<Rightarrow> (kt_ringbuf \<times> bool) res" where
  "rb_put sp rb x =
     rbind (kt_ringbuf_enqueue_burst sp rb [x] 8 1) (\<lambda>(rb', n, fs). Inr (rb', n = 1))"

definition rb_get :: "nat \<Rightarrow> u64 \<Rightarrow> kt_ringbuf \<Rightarrow> (kt_ringbuf \<times> u64 option) res" where
  "rb_get sp junk rb =
     rbind (kt_ringbuf_dequeue_burst sp rb [junk] 8 1) (\<lambda>(rb', tbl, n, av).
     Inr (rb', if n = 0 then None else Some (tbl ! 0)))"

lemma rb_put_room:
  assumes "rb_wf rb" "rb_len rb < unat (rb_capacity rb)"
  shows "\<exists>rb'. rb_put sp rb x = Inr (rb', True) \<and> rb_wf rb' \<and> rb_items rb' = rb_items rb @ [x] \<and>
    rb_capacity rb' = rb_capacity rb"
proof -
  have geo: "rb_geo rb" and room: "1 \<le> rb_room rb"
    using assms by (auto simp: rb_wf_def rb_room_def)
  then have m: "1 = min (unat (1 :: u32)) (rb_room rb)" by simp
  have inside: "rb_slot rb (tail (prod rb)) + 1 \<le> unat (rb_size rb)"
    using rb_slot_less [OF geo] by (simp add: Suc_le_eq)
  moreover have "unat (rb_size rb) \<le> length (ring rb)" using geo by (simp add: rb_geo_def)
  ultimately show ?thesis
    using enqueue_burst_eq [OF assms(1) m, of "[x]" sp] rb_items_put [OF assms(1) room, of "[x]"]
    by (simp add: rb_put_def)
qed

lemma rb_put_full:
  assumes "rb_wf rb" "unat (rb_capacity rb) \<le> rb_len rb"
  shows "rb_put sp rb x = Inr (rb, False)"
proof -
  have geo: "rb_geo rb" and m: "0 = min (unat (1 :: u32)) (rb_room rb)"
    using assms by (auto simp: rb_wf_def rb_room_def)
  have "rb_slot rb (tail (prod rb)) + 0 \<le> length (ring rb)"
    using rb_slot_less [OF geo, of "tail (prod rb)"] geo by (simp add: rb_geo_def)
  then show ?thesis
    using enqueue_burst_eq [OF assms(1) m, of "[x]" sp] headtail_eqI [of "prod rb"] assms(1)
    by (simp add: rb_put_def rb_wf_def)
qed

lemma dequeue_one:
  assumes "rb_wf rb" "rb_items rb = x # xs"
  shows "\<exists>rb' av. kt_ringbuf_dequeue_burst sp rb [junk] 8 1 = Inr (rb', [x], 1, av) \<and>
    rb_wf rb' \<and> rb_items rb' = xs \<and> rb_capacity rb' = rb_capacity rb"
proof -
  have geo: "rb_geo rb" and len: "1 \<le> rb_len rb"
    using assms length_rb_items [of rb] by (auto simp: rb_wf_def)
  then have m: "1 = min (unat (1 :: u32)) (rb_len rb)" by simp
  have inside: "rb_slot rb (tail (cons rb)) + 1 \<le> unat (rb_size rb)"
    using rb_slot_less [OF geo] by (simp add: Suc_le_eq)
  have sz: "unat (rb_size rb) \<le> length (ring rb)" using geo by (simp add: rb_geo_def)
  have "blit 1 [junk] 0 (ring rb) (rb_slot rb (tail (cons rb))) = [x]"
    using rb_items_read [OF assms(1) len inside] inside sz assms(2)
    by (subst blit_from_0) auto
  then show ?thesis
    using dequeue_burst_eq [OF assms(1) m, of "[junk]" sp] rb_items_get [OF assms(1) len] inside sz
      assms(2) by simp
qed

lemma rb_get_first:
  assumes "rb_wf rb" "rb_items rb = x # xs"
  shows "\<exists>rb'. rb_get sp junk rb = Inr (rb', Some x) \<and> rb_wf rb' \<and> rb_items rb' = xs \<and>
    rb_capacity rb' = rb_capacity rb"
  using dequeue_one [OF assms, of sp junk] by (auto simp: rb_get_def)

lemma rb_get_empty:
  assumes "rb_wf rb" "rb_items rb = []"
  shows "rb_get sp junk rb = Inr (rb, None)"
proof -
  have geo: "rb_geo rb" and m: "0 = min (unat (1 :: u32)) (rb_len rb)"
    using assms length_rb_items [of rb] by (auto simp: rb_wf_def)
  have "rb_slot rb (tail (cons rb)) + 0 \<le> length (ring rb)"
    using rb_slot_less [OF geo, of "tail (cons rb)"] geo by (simp add: rb_geo_def)
  then show ?thesis
    using dequeue_burst_eq [OF assms(1) m, of "[junk]" sp] headtail_eqI [of "cons rb"] assms(1)
    by (simp add: rb_get_def rb_wf_def)
qed

interpretation rb: bounded_fifo rb_wf rb_items "\<lambda>rb. unat (rb_capacity rb)" "rb_put sp" "rb_get sp junk"
  for sp junk
proof (unfold_locales, goal_cases)
  case (1 q x)
  then show ?case using rb_put_room [of q sp x] by auto
next
  case (2 q x)
  then show ?case by (simp add: rb_put_full)
next
  case (3 q x xs)
  then show ?case using rb_get_first [of q x xs sp junk] by auto
next
  case (4 q)
  then show ?case by (simp add: rb_get_empty)
qed

text \<open>The same calls without the wrappers, as the clients make them.\<close>

lemma enqueue_one:
  assumes "rb_wf rb" "rb_len rb < unat (rb_capacity rb)"
  shows "\<exists>rb' fs. kt_ringbuf_enqueue_burst sp rb [x] 8 1 = Inr (rb', 1, fs) \<and> rb_wf rb' \<and>
    rb_items rb' = rb_items rb @ [x] \<and> rb_capacity rb' = rb_capacity rb"
  using rb_put_room [OF assms, of sp x] by (auto simp: rb_put_def rbind_eq_Inr)

lemma dequeue_none:
  assumes "rb_wf rb" "rb_items rb = []"
  shows "\<exists>tbl av. kt_ringbuf_dequeue_burst sp rb [junk] 8 1 = Inr (rb, tbl, 0, av)"
  using rb_get_empty [OF assms, of sp junk] by (auto simp: rb_get_def rbind_eq_Inr split: if_splits)

subsection \<open>Fresh rings\<close>

lemma fresh_ring:
  assumes "is_pow2 cnt" "unat cnt \<le> length block"
  shows "rb_wf (ringbuf_header name cnt esize block)"
    and "rb_items (ringbuf_header name cnt esize block) = []"
  using assms by (simp_all add: rb_wf_def rb_geo_def rb_len_def rb_items_def ringbuf_header_def)

lemma is_pow2_128 [simp]: "is_pow2 128"
  unfolding is_pow2_def by (intro exI [of _ 7]) simp

lemma is_pow2_4 [simp]: "is_pow2 4"
  unfolding is_pow2_def by (intro exI [of _ 2]) simp

subsection \<open>Properties\<close>

text \<open>
  C9. The ring is a bounded FIFO. Starting from a fresh ring of any power-of-two size, every
  sequence of one-element enqueues and dequeues gives exactly the results of the same
  sequence on a list bounded by \<open>size - 1\<close>: same order, a refusal exactly when full, nothing
  exactly when empty, no fault, however often the counters and the slots wrap and however
  often the weak compare-and-swap fails spuriously.
\<close>

theorem ring_refines_fifo:
  assumes "is_pow2 cnt" "unat cnt \<le> length block"
  shows "\<exists>rb. impl_run (rb_put sp) (rb_get sp junk) (ringbuf_header name cnt esize block) ops =
      Inr (rb, snd (fifo_run (unat cnt - 1) [] ops)) \<and> rb_wf rb \<and>
    rb_items rb = fst (fifo_run (unat cnt - 1) [] ops)"
  using rb.run_refines [OF fresh_ring(1) [OF assms, of name esize], of sp junk ops]
    fresh_ring(2) [OF assms, of name esize] pow2_unat_minus_1 [OF assms(1)]
  by (auto simp: ringbuf_header_def)

theorem ring_refines_fifo_witness:
  "\<exists>rb. impl_run (rb_put 0) (rb_get 0 0) (ringbuf_header ''RB_tx'' 4 1 (replicate 8 0))
      [Put 5, Put 6, Get, Put 7, Put 8, Put 9, Get] =
    Inr (rb, [Stored, Stored, Got 5, Stored, Stored, Refused, Got 6]) \<and> rb_wf rb \<and>
    rb_items rb = [7, 8]"
  using ring_refines_fifo [of 4 "replicate 8 0" 0 0 "''RB_tx''" 1
      "[Put 5, Put 6, Get, Put 7, Put 8, Put 9, Get]"]
  by simp

text \<open>
  A burst enqueue that does not cross the end of the array stores a prefix of the given
  elements behind the stored ones: as many as were asked for, or as many as fit. The count
  returned and the free space reported are exact. This holds for all counter values, also
  when the 32-bit counters wrap during the call.
\<close>

theorem enqueue_burst_inside:
  assumes "rb_wf rb" and "m = min (unat n) (rb_room rb)" and "m \<le> length src"
    and "rb_slot rb (tail (prod rb)) + m \<le> unat (rb_size rb)"
  shows "\<exists>rb'. kt_ringbuf_enqueue_burst sp rb src 8 n = Inr (rb', of_nat m, of_nat (rb_room rb - m)) \<and>
    rb_wf rb' \<and> rb_items rb' = rb_items rb @ take m src"
proof -
  have "m \<le> rb_room rb" "rb_slot rb (tail (prod rb)) + m \<le> length (ring rb)"
    using assms by (auto simp: rb_wf_def rb_geo_def)
  then show ?thesis
    using enqueue_burst_eq [OF assms(1-3), of sp] rb_items_put [OF assms(1) _ assms(3,4)] by auto
qed

abbreviation wrapped_ring :: kt_ringbuf where
  "wrapped_ring \<equiv> \<lparr>rb_name = ''r'', ring = [0, 0, 10, 11, 90, 91], rb_size = 4, rb_esize = 1,
     rb_mask = 3, rb_capacity = 3, prod = \<lparr>head = 0, tail = 0\<rparr>,
     cons = \<lparr>head = - 2, tail = - 2\<rparr>\<rparr>"

theorem enqueue_burst_inside_witness:
  "\<exists>rb'. kt_ringbuf_enqueue_burst 0 wrapped_ring [12, 13] 8 2 = Inr (rb', 1, 0) \<and> rb_wf rb' \<and>
    rb_items rb' = [10, 11, 12]"
proof -
  have "rb_wf wrapped_ring" "rb_room wrapped_ring = 1" "rb_slot wrapped_ring 0 = 0"
    "rb_items wrapped_ring = [10, 11]"
    by (simp_all add: rb_wf_def rb_geo_def rb_len_def rb_room_def rb_slot_def rb_items_def upt_rec)
  then show ?thesis using enqueue_burst_inside [of wrapped_ring 1 2 "[12, 13]" 0] by simp
qed

text \<open>
  C27. A burst dequeue that does not cross the end of the array returns a prefix of the stored
  elements in order, as many as asked for or as are stored, leaves the rest of the caller's
  table as it was, and removes exactly these elements.
\<close>

theorem dequeue_burst_inside:
  assumes "rb_wf rb" and "m = min (unat n) (rb_len rb)" and "m \<le> length tbl"
    and "rb_slot rb (tail (cons rb)) + m \<le> unat (rb_size rb)"
  shows "\<exists>rb'. kt_ringbuf_dequeue_burst sp rb tbl 8 n =
      Inr (rb', take m (rb_items rb) @ drop m tbl, of_nat m, of_nat (rb_len rb - m)) \<and>
    rb_wf rb' \<and> rb_items rb' = drop m (rb_items rb)"
proof -
  have m: "m \<le> rb_len rb" and fit: "rb_slot rb (tail (cons rb)) + m \<le> length (ring rb)"
    using assms by (auto simp: rb_wf_def rb_geo_def)
  have "blit m tbl 0 (ring rb) (rb_slot rb (tail (cons rb))) = take m (rb_items rb) @ drop m tbl"
    using blit_from_0 [OF assms(3) fit] rb_items_read [OF assms(1) m assms(4)] by simp
  then show ?thesis
    using dequeue_burst_eq [OF assms(1-3) fit, of sp] rb_items_get [OF assms(1) m] by auto
qed

theorem dequeue_burst_inside_witness:
  "\<exists>rb'. kt_ringbuf_dequeue_burst 0 wrapped_ring [0, 0, 0] 8 3 = Inr (rb', [10, 11, 0], 2, 0) \<and>
    rb_wf rb' \<and> rb_items rb' = []"
proof -
  have "rb_wf wrapped_ring" "rb_len wrapped_ring = 2" "rb_slot wrapped_ring (- 2) = 2"
    "rb_items wrapped_ring = [10, 11]"
    by (simp_all add: rb_wf_def rb_geo_def rb_len_def rb_slot_def rb_items_def upt_rec)
  then show ?thesis using dequeue_burst_inside [of wrapped_ring 2 3 "[0, 0, 0]" 0] by simp
qed

text \<open>
  A burst dequeue that crosses the end of the array does not wrap: it returns the
  \<open>m\<close> consecutive words from the first slot on, so from position \<open>size - slot\<close> on the
  caller receives the memory behind the array instead of the stored elements, which are
  removed all the same. (The first loop of the second branch runs to \<open>n\<close> instead of to the
  end of the array.)
\<close>

theorem dequeue_burst_crossing:
  assumes "rb_wf rb" and "m = min (unat n) (rb_len rb)" and "m \<le> length tbl"
    and "unat (rb_size rb) < rb_slot rb (tail (cons rb)) + m"
    and "rb_slot rb (tail (cons rb)) + m \<le> length (ring rb)"
  shows "\<exists>rb'. kt_ringbuf_dequeue_burst sp rb tbl 8 n =
      Inr (rb', take m (drop (rb_slot rb (tail (cons rb))) (ring rb)) @ drop m tbl, of_nat m,
           of_nat (rb_len rb - m)) \<and>
    rb_items rb' = drop m (rb_items rb)"
proof -
  have m: "m \<le> rb_len rb" using assms(2) by simp
  show ?thesis
    using dequeue_burst_eq [OF assms(1-3,5), of sp] rb_items_get [OF assms(1) m]
      blit_from_0 [OF assms(3,5)] by auto
qed

abbreviation crossing_ring :: kt_ringbuf where
  "crossing_ring \<equiv> \<lparr>rb_name = ''r'', ring = [12, 0, 10, 11, 90, 91], rb_size = 4, rb_esize = 1,
     rb_mask = 3, rb_capacity = 3, prod = \<lparr>head = 5, tail = 5\<rparr>, cons = \<lparr>head = 2, tail = 2\<rparr>\<rparr>"

theorem dequeue_burst_crossing_witness:
  "rb_items crossing_ring = [10, 11, 12] \<and>
   (\<exists>rb'. kt_ringbuf_dequeue_burst 0 crossing_ring [0, 0, 0, 0] 8 8 =
      Inr (rb', [10, 11, 90, 0], 3, 0) \<and> rb_items rb' = [])"
proof -
  have "rb_wf crossing_ring" "rb_len crossing_ring = 3" "rb_slot crossing_ring 2 = 2"
    and "rb_items crossing_ring = [10, 11, 12]"
    by (simp_all add: rb_wf_def rb_geo_def rb_len_def rb_slot_def rb_items_def upt_rec)
  then show ?thesis using dequeue_burst_crossing [of crossing_ring 3 8 "[0, 0, 0, 0]" 0] by simp
qed

text \<open>
  C32. The unrolled copy (four elements per iteration, then a \<open>switch\<close> with fall-through for
  the last \<open>n mod 4\<close>) is a plain block copy for every \<open>n\<close>: exactly the destination cells
  \<open>d\<close> to \<open>d + n - 1\<close> receive the source cells from \<open>s\<close> on, every other cell is unchanged,
  and no access leaves either array.
\<close>

theorem unrolled_copy_is_block_copy:
  assumes "d + unat n \<le> length dst" "s + unat n \<le> length src"
  shows "\<exists>res. rbind (copy_quads (unat (n AND (NOT 3 :: u32))) dst d src s 0) (\<lambda>(r, d', s').
      copy_rest (n AND 3) r d' src s') = Inr res \<and> length res = length dst \<and>
    (\<forall>j < length dst. res ! j = (if d \<le> j \<and> j < d + unat n then src ! (s + (j - d)) else dst ! j))"
  using copy_burst_blit [OF assms] nth_blit [OF assms(1), of _ src s] by auto

theorem unrolled_copy_is_block_copy_witness:
  "\<exists>res. rbind (copy_quads (unat (6 AND (NOT 3 :: u32))) (replicate 8 0) 1 [1, 2, 3, 4, 5, 6] 0 0)
      (\<lambda>(r, d', s'). copy_rest (6 AND 3) r d' [1, 2, 3, 4, 5, 6] s') = Inr res \<and>
    res ! 0 = 0 \<and> res ! 1 = 1 \<and> res ! 6 = 6 \<and> res ! 7 = 0"
proof -
  let ?P = "\<lambda>res j. res ! j =
    (if 1 \<le> j \<and> j < 1 + unat (6 :: u32) then [1, 2, 3, 4, 5, 6] ! (0 + (j - 1)) else replicate 8 0 ! j)"
  obtain res :: "u64 list" where res: "rbind (copy_quads (unat (6 AND (NOT 3 :: u32))) (replicate 8 0) 1
      [1, 2, 3, 4, 5, 6] 0 0) (\<lambda>(r, d', s'). copy_rest (6 AND 3) r d' [1, 2, 3, 4, 5, 6] s') = Inr res"
    "\<forall>j < length (replicate 8 (0::u64)). ?P res j"
    using unrolled_copy_is_block_copy [of 1 6 "replicate 8 0" 0 "[1, 2, 3, 4, 5, 6]"] by auto
  have "?P res 0" "?P res 1" "?P res 6" "?P res 7" using res(2) by simp_all
  then show ?thesis using res(1) by simp
qed

text \<open>
  \<open>kt_ringbuf_count\<close> is the number of stored elements.
\<close>

theorem ringbuf_count_exact:
  assumes "rb_wf rb"
  shows "unat (kt_ringbuf_count rb) = length (rb_items rb)"
proof -
  have geo: "rb_geo rb" and le: "rb_len rb \<le> unat (rb_capacity rb)"
    using assms by (auto simp: rb_wf_def)
  have "unat ((tail (prod rb) - tail (cons rb)) AND rb_mask rb) = rb_len rb mod unat (rb_size rb)"
    using geo by (simp add: rb_geo_def pow2_and_mask rb_len_def)
  also have "\<dots> = rb_len rb"
    using le rb_geo_capacity [OF geo] pow2_pos [of "rb_size rb"] geo by (simp add: rb_geo_def)
  finally show ?thesis using le by (simp add: kt_ringbuf_count_def Let_def word_less_nat_alt)
qed

theorem ringbuf_count_exact_witness: "unat (kt_ringbuf_count crossing_ring) = 3"
proof -
  have "rb_wf crossing_ring" "length (rb_items crossing_ring) = 3"
    by (simp_all add: rb_wf_def rb_geo_def rb_len_def)
  then show ?thesis using ringbuf_count_exact [of crossing_ring] by simp
qed

text \<open>
  The size must be a power of two, which \<open>kt_ringbuf_create\<close> does not check. With 100
  elements (\<open>ktsnd_socket.c\<close>) the mask is 99, so slots 0 and 4 coincide: after enqueueing 0,
  1, 2, 3, 4 the first dequeue returns 4 and the element 0 is gone.
\<close>

theorem ring_size_100_loses_elements:
  "\<exists>rb1 rb2. rfold (\<lambda>rb x. rbind (rb_put 0 rb x) (\<lambda>(rb', b). Inr rb'))
       (ringbuf_header ''RB_free'' 100 1 (replicate 496 0)) [0, 1, 2, 3, 4] = Inr rb1 \<and>
     rb_get 0 0 rb1 = Inr (rb2, Some 4)"
  by (simp add: rb_put_def rb_get_def kt_ringbuf_enqueue_burst_def kt_ringbuf_dequeue_burst_def
      ringbuf_do_enqueue_elems_def ringbuf_do_dequeue_elems_def move_prod_head.simps
      move_cons_head.simps prod_attempt_def cons_attempt_def ringbuf_header_def Let_def
      ringbuf_enqueue_elems_def ringbuf_dequeue_elems_def copy_quads.simps copy_rest_def)

text \<open>
  Element sizes other than 8 are refused by the assertion in the copy routines: a
  nonempty transfer with \<open>esize\<close> other than 8 stops the process and never returns.
\<close>

theorem other_element_sizes_abort:
  assumes "rb_wf rb" "esize \<noteq> 8" "0 < n" "0 < rb_room rb"
  shows "kt_ringbuf_enqueue_burst sp rb src esize n = Inl AssertFail"
proof -
  have le: "unat (tail (prod rb) - tail (cons rb)) \<le> unat (rb_capacity rb)"
    and h: "head (prod rb) = tail (prod rb)"
    using assms(1) by (auto simp: rb_wf_def rb_len_def)
  have "unat (min n (rb_capacity rb - (tail (prod rb) - tail (cons rb)))) \<noteq> 0"
    using assms(3,4) prod_attempt_variable(2) [OF le]
    by (simp add: unat_min rb_room_def rb_len_def word_less_nat_alt min_def)
  then have "min n (rb_capacity rb - (tail (prod rb) - tail (cons rb))) \<noteq> 0"
    by (metis unat_0)
  then show ?thesis
    using move_prod_head_spurious [of sp rb n KT_RB_BEHAVIOR_VARIABLE] assms(2)
    by (simp add: kt_ringbuf_enqueue_burst_def ringbuf_do_enqueue_elems_def h Let_def
        move_prod_head.simps [of 0] prod_attempt_variable(1) [OF le] ringbuf_enqueue_elems_def)
qed

theorem other_element_sizes_abort_witness:
  "kt_ringbuf_enqueue_burst 0 (ringbuf_header ''RB_tx'' 4 1 (replicate 8 0)) [1] 4 1 = Inl AssertFail"
proof -
  let ?rb = "ringbuf_header ''RB_tx'' 4 1 (replicate 8 0)"
  have "rb_wf ?rb" by (rule fresh_ring(1)) simp_all
  moreover have "0 < rb_room ?rb" by (simp add: rb_room_def rb_len_def ringbuf_header_def)
  ultimately show ?thesis using other_element_sizes_abort [of ?rb 4 1 0 "[1]"] by simp
qed

end
