(* ===== verification/KT_Ringbuf_Conc.thy ===== *)
theory KT_Ringbuf_Conc
  imports KT_Ringbuf
begin

unbundle bit_operations_syntax

section \<open>The ring buffer under concurrent producers and consumers\<close>

text \<open>
  Any number of threads enqueue and dequeue on one ring, interleaved step by step: the loads, the
  compare-and-swap, the copy of one element and the store of the tail are separate steps, in a
  sequentially consistent order. Counters are unbounded here and each test the code makes is
  made on their 32-bit images, so wrap-around is that of the code.

  \<open>sent\<close> records the reserved elements in the order of their reservation and \<open>dq_log\<close> what the
  completed dequeues returned, in the order of completion. Two more ghost counters record what breaks
  the ring: \<open>cr_crossed\<close> the reservations that cross the end of the array (both copy loops then run
  on behind it, as \<open>KT_Ringbuf\<close> shows), and \<open>cr_stale\<close> the decisions made on a head that was loaded
  about \<open>2 ^ 32\<close> elements ago (the compare-and-swap cannot tell such a head from the current one).
  The theorems name these counters in their hypotheses; no step is left out.

  Shown here: what was returned is always exactly a prefix of what was reserved; no two threads
  hold the same cell; a call waits for every earlier reservation, and completes when the threads
  with earlier reservations run. That the calls are atomic follows in \<open>KT_Ringbuf_Lin\<close>.
\<close>

subsection \<open>State\<close>

text \<open>
  Where a thread is in \<open>__kt_ringbuf_do_enqueue_elems\<close>: called; the head is loaded; the count is
  computed from the consumer tail that was read; the elements are reserved from counter \<open>old\<close> on and
  \<open>j\<close> of them are written; the tail is stored and the count will be returned. Likewise for a dequeue.
  \<open>Crashed\<close> is a thread that accessed memory behind the block of the ring.
\<close>

datatype pc =
    Ready
  | PCall "u64 list"
  | PLoaded "u64 list" nat
  | PTried "u64 list" nat nat u32
  | PWrite "u64 list" nat nat
  | PRet nat
  | CCall u32
  | CLoaded u32 nat
  | CTried u32 nat nat u32
  | CRead nat nat "u64 list"
  | CRet "u64 list"
  | Crashed

text \<open>What a caller sees of a thread: its calls with their arguments and what they return.\<close>

datatype obs =
    CallEnq nat "u64 list"
  | RetEnq nat nat
  | CallDeq nat u32
  | RetDeq nat "u64 list"

record cring =
  cr_size :: u32
  cr_ring :: "u64 list"
  ph :: nat
  pt :: nat
  ch :: nat
  ct :: nat
  sent :: "u64 list"
  dq_log :: "u64 list list"
  cr_crossed :: nat
  cr_stale :: nat
  pcs :: "nat \<Rightarrow> pc"

abbreviation w32 :: "nat \<Rightarrow> u32" where "w32 n \<equiv> of_nat n"

abbreviation cap :: "cring \<Rightarrow> nat" where "cap s \<equiv> unat (cr_size s) - 1"

definition cslot :: "u32 \<Rightarrow> nat \<Rightarrow> nat" where
  "cslot sz i = unat (w32 i AND (sz - 1))"

definition set_pc :: "nat \<Rightarrow> pc \<Rightarrow> cring \<Rightarrow> cring" where
  "set_pc t p s = s\<lparr>pcs := (pcs s)(t := p)\<rparr>"

text \<open>The ghost counters: a head loaded too long ago, a reservation behind the end of the array.\<close>

definition stale :: "cring \<Rightarrow> nat \<Rightarrow> bool" where
  "stale s old \<longleftrightarrow> old + 2 ^ 32 \<le> ct s + cap s"

definition note_stale :: "nat \<Rightarrow> cring \<Rightarrow> cring" where
  "note_stale old s = s\<lparr>cr_stale := cr_stale s + (if stale s old then 1 else 0)\<rparr>"

definition note_crossing :: "nat \<Rightarrow> nat \<Rightarrow> cring \<Rightarrow> cring" where
  "note_crossing old n s =
     s\<lparr>cr_crossed := cr_crossed s + (if unat (cr_size s) < cslot (cr_size s) old + n then 1 else 0)\<rparr>"

subsection \<open>Steps\<close>

definition try_enqueue :: "cring \<Rightarrow> u64 list \<Rightarrow> nat \<Rightarrow> pc" where
  "try_enqueue s xs old =
     (let n = fst (prod_attempt (cr_size s - 1) (w32 (length xs)) KT_RB_BEHAVIOR_VARIABLE (w32 old) (w32 (ct s)))
      in if n = 0 then PRet 0 else PTried xs old (ct s) n)"

definition try_dequeue :: "cring \<Rightarrow> u32 \<Rightarrow> nat \<Rightarrow> pc" where
  "try_dequeue s mx old =
     (let n = fst (cons_attempt mx KT_RB_BEHAVIOR_VARIABLE (w32 old) (w32 (pt s)))
      in if n = 0 then CRet [] else CTried mx old (pt s) n)"

text \<open>
  The copy of element \<open>j\<close>: both branches of the copy, for a range inside the array and for one that
  crosses its end, access the cells from \<open>cslot old\<close> on one after the other (the second loop of the
  crossing branch starts with \<open>i = n\<close> and does nothing).
\<close>

definition write_elem :: "nat \<Rightarrow> u64 list \<Rightarrow> nat \<Rightarrow> nat \<Rightarrow> cring \<Rightarrow> cring" where
  "write_elem t xs old j s =
     (let i = cslot (cr_size s) old + j in
      if i < length (cr_ring s) then set_pc t (PWrite xs old (Suc j)) (s\<lparr>cr_ring := (cr_ring s)[i := xs ! j]\<rparr>)
      else set_pc t Crashed s)"

definition read_elem :: "nat \<Rightarrow> nat \<Rightarrow> nat \<Rightarrow> u64 list \<Rightarrow> cring \<Rightarrow> cring" where
  "read_elem t old n out s =
     (let i = cslot (cr_size s) old + length out in
      if i < length (cr_ring s) then set_pc t (CRead old n (out @ [cr_ring s ! i])) s
      else set_pc t Crashed s)"

text \<open>\<open>conc_step t s l s'\<close>: thread \<open>t\<close> takes one step; \<open>l\<close> is what its caller sees of it, if anything.\<close>

inductive conc_step :: "nat \<Rightarrow> cring \<Rightarrow> obs option \<Rightarrow> cring \<Rightarrow> bool" where
  p_call: "pcs s t = Ready \<Longrightarrow> length xs < 2 ^ 32 \<Longrightarrow>
    conc_step t s (Some (CallEnq t xs)) (set_pc t (PCall xs) s)"
| p_load: "pcs s t = PCall xs \<Longrightarrow> conc_step t s None (set_pc t (PLoaded xs (ph s)) s)"
| p_try: "pcs s t = PLoaded xs old \<Longrightarrow> conc_step t s None (set_pc t (try_enqueue s xs old) (note_stale old s))"
| p_cas: "pcs s t = PTried xs old c n \<Longrightarrow> w32 (ph s) = w32 old \<Longrightarrow>
    conc_step t s None (set_pc t (PWrite (take (unat n) xs) old 0)
      ((note_crossing old (unat n) (note_stale old s))\<lparr>ph := ph s + unat n, sent := sent s @ take (unat n) xs\<rparr>))"
| p_fail: "pcs s t = PTried xs old c n \<Longrightarrow> conc_step t s None (set_pc t (PLoaded xs (ph s)) s)"
| p_write: "pcs s t = PWrite xs old j \<Longrightarrow> j < length xs \<Longrightarrow> conc_step t s None (write_elem t xs old j s)"
| p_done: "pcs s t = PWrite xs old (length xs) \<Longrightarrow> w32 (pt s) = w32 old \<Longrightarrow>
    conc_step t s None (set_pc t (PRet (length xs)) (s\<lparr>pt := pt s + length xs\<rparr>))"
| p_ret: "pcs s t = PRet n \<Longrightarrow> conc_step t s (Some (RetEnq t n)) (set_pc t Ready s)"
| c_call: "pcs s t = Ready \<Longrightarrow> conc_step t s (Some (CallDeq t mx)) (set_pc t (CCall mx) s)"
| c_load: "pcs s t = CCall mx \<Longrightarrow> conc_step t s None (set_pc t (CLoaded mx (ch s)) s)"
| c_try: "pcs s t = CLoaded mx old \<Longrightarrow> conc_step t s None (set_pc t (try_dequeue s mx old) (note_stale old s))"
| c_cas: "pcs s t = CTried mx old p n \<Longrightarrow> w32 (ch s) = w32 old \<Longrightarrow>
    conc_step t s None (set_pc t (CRead old (unat n) [])
      ((note_crossing old (unat n) (note_stale old s))\<lparr>ch := ch s + unat n\<rparr>))"
| c_fail: "pcs s t = CTried mx old p n \<Longrightarrow> conc_step t s None (set_pc t (CLoaded mx (ch s)) s)"
| c_read: "pcs s t = CRead old n out \<Longrightarrow> length out < n \<Longrightarrow> conc_step t s None (read_elem t old n out s)"
| c_done: "pcs s t = CRead old n out \<Longrightarrow> length out = n \<Longrightarrow> w32 (ct s) = w32 old \<Longrightarrow>
    conc_step t s None (set_pc t (CRet out) (s\<lparr>ct := ct s + n, dq_log := dq_log s @ [out]\<rparr>))"
| c_ret: "pcs s t = CRet out \<Longrightarrow> conc_step t s (Some (RetDeq t out)) (set_pc t Ready s)"

text \<open>A step of any thread; the runs are the observed traces of the interface theory.\<close>

definition ring_step :: "cring \<Rightarrow> obs option \<Rightarrow> cring \<Rightarrow> bool" where
  "ring_step s l s' \<longleftrightarrow> (\<exists>t. conc_step t s l s')"

text \<open>A fresh ring: nothing stored, no thread inside a call.\<close>

definition conc_init :: "u32 \<Rightarrow> u64 list \<Rightarrow> cring" where
  "conc_init sz block = \<lparr>cr_size = sz, cr_ring = block, ph = 0, pt = 0, ch = 0, ct = 0, sent = [],
     dq_log = [], cr_crossed = 0, cr_stale = 0, pcs = (\<lambda>_. Ready)\<rparr>"

subsection \<open>Arithmetic of counters\<close>

lemma w32_eq:
  assumes "w32 a = w32 b" "a \<le> b" "b < a + 2 ^ 32"
  shows "a = b"
proof -
  have "unat (w32 a) = unat (w32 b)" using assms(1) by simp
  then have "a mod 2 ^ 32 = b mod 2 ^ 32" unfolding unat_of_nat take_bit_eq_mod by simp
  then have "2 ^ 32 dvd b - a" using assms(2) mod_eq_dvd_iff_nat [of a b "2 ^ 32"] by simp
  then show ?thesis using assms(2,3) by (auto dest!: dvd_imp_le)
qed

lemma w32_diff:
  assumes "a \<le> b" "b - a < 2 ^ 32"
  shows "unat (w32 b - w32 a) = b - a"
proof -
  have "w32 b - w32 a = w32 (b - a)" using assms(1) by (simp add: of_nat_diff)
  then show ?thesis using assms(2) by (rule unat_of_nat_u32)
qed

lemma cslot_mod: "is_pow2 sz \<Longrightarrow> cslot sz i = i mod unat sz"
  using mod_pow2_of_sum [of sz 0 i] by (simp add: cslot_def pow2_and_mask)

lemma cslot_offset:
  assumes "is_pow2 sz" "cslot sz old + n \<le> unat sz" "k < n"
  shows "cslot sz old + k = (old + k) mod unat sz"
proof -
  have "(old + k) mod unat sz = (old mod unat sz + k) mod unat sz" by (simp add: mod_simps)
  then show ?thesis using assms by (simp add: cslot_mod)
qed

lemma slots_differ:
  fixes i j m :: nat
  assumes "i \<noteq> j" "i < j + m" "j < i + m"
  shows "i mod m \<noteq> j mod m"
proof (cases "i < j")
  case True
  then show ?thesis using mod_offset_neq [of i j m 0] assms(3) by simp
next
  case False
  then show ?thesis using mod_offset_neq [of j i m 0] assms(1,2) by simp
qed

subsection \<open>Invariant\<close>

definition counters_ok :: "cring \<Rightarrow> bool" where
  "counters_ok s \<longleftrightarrow> is_pow2 (cr_size s) \<and> unat (cr_size s) \<le> length (cr_ring s) \<and>
     ct s \<le> ch s \<and> ch s \<le> pt s \<and> pt s \<le> ph s \<and> ph s \<le> ct s + cap s \<and> length (sent s) = ph s"

text \<open>The cells between the consumer tail and the producer tail hold what was sent.\<close>

definition cells_ok :: "cring \<Rightarrow> bool" where
  "cells_ok s \<longleftrightarrow> (\<forall>i. ct s \<le> i \<longrightarrow> i < pt s \<longrightarrow> cr_ring s ! (i mod unat (cr_size s)) = sent s ! i)"

fun thread_ok :: "cring \<Rightarrow> pc \<Rightarrow> bool" where
  "thread_ok s Ready \<longleftrightarrow> True"
| "thread_ok s (PCall xs) \<longleftrightarrow> length xs < 2 ^ 32"
| "thread_ok s (PLoaded xs old) \<longleftrightarrow> old \<le> ph s \<and> old \<le> ct s + cap s \<and> length xs < 2 ^ 32"
| "thread_ok s (PTried xs old c n) \<longleftrightarrow> c \<le> ct s \<and> old \<le> ph s \<and> old \<le> c + cap s \<and> length xs < 2 ^ 32 \<and>
     n \<noteq> 0 \<and> n = fst (prod_attempt (cr_size s - 1) (w32 (length xs)) KT_RB_BEHAVIOR_VARIABLE (w32 old) (w32 c))"
| "thread_ok s (PWrite xs old j) \<longleftrightarrow> xs \<noteq> [] \<and> j \<le> length xs \<and> pt s \<le> old \<and> old + length xs \<le> ph s \<and>
     cslot (cr_size s) old + length xs \<le> unat (cr_size s) \<and>
     take (length xs) (drop old (sent s)) = xs \<and>
     (\<forall>k < j. cr_ring s ! ((old + k) mod unat (cr_size s)) = xs ! k)"
| "thread_ok s (PRet n) \<longleftrightarrow> True"
| "thread_ok s (CCall mx) \<longleftrightarrow> True"
| "thread_ok s (CLoaded mx old) \<longleftrightarrow> old \<le> ch s"
| "thread_ok s (CTried mx old p n) \<longleftrightarrow> old \<le> ch s \<and> old \<le> p \<and> p \<le> pt s \<and> n \<noteq> 0 \<and>
     n = fst (cons_attempt mx KT_RB_BEHAVIOR_VARIABLE (w32 old) (w32 p))"
| "thread_ok s (CRead old n out) \<longleftrightarrow> 0 < n \<and> length out \<le> n \<and> ct s \<le> old \<and> old + n \<le> ch s \<and>
     cslot (cr_size s) old + n \<le> unat (cr_size s) \<and> out = take (length out) (drop old (sent s))"
| "thread_ok s (CRet out) \<longleftrightarrow> True"
| "thread_ok s Crashed \<longleftrightarrow> False"

text \<open>Ranges of counters a thread owns; no two producers, and no two consumers, share a counter.\<close>

fun prange :: "pc \<Rightarrow> nat set" where
  "prange (PWrite xs old j) = {old ..< old + length xs}"
| "prange p = {}"

fun crange :: "pc \<Rightarrow> nat set" where
  "crange (CRead old n out) = {old ..< old + n}"
| "crange p = {}"

definition owners_ok :: "cring \<Rightarrow> bool" where
  "owners_ok s \<longleftrightarrow> (\<forall>t u. t \<noteq> u \<longrightarrow> prange (pcs s t) \<inter> prange (pcs s u) = {} \<and>
     crange (pcs s t) \<inter> crange (pcs s u) = {})"

definition conc_inv :: "cring \<Rightarrow> bool" where
  "conc_inv s \<longleftrightarrow> counters_ok s \<and> cells_ok s \<and> (\<forall>t. thread_ok s (pcs s t)) \<and> owners_ok s \<and>
     concat (dq_log s) = take (ct s) (sent s)"

lemma set_pc_simps [simp]:
  "cr_size (set_pc t p s) = cr_size s" "cr_ring (set_pc t p s) = cr_ring s" "ph (set_pc t p s) = ph s"
  "pt (set_pc t p s) = pt s" "ch (set_pc t p s) = ch s" "ct (set_pc t p s) = ct s"
  "sent (set_pc t p s) = sent s" "dq_log (set_pc t p s) = dq_log s" "pcs (set_pc t p s) = (pcs s)(t := p)"
  "cr_crossed (set_pc t p s) = cr_crossed s" "cr_stale (set_pc t p s) = cr_stale s"
  by (simp_all add: set_pc_def)

text \<open>The ghost counters do not matter to the invariant.\<close>

definition ghosts :: "nat \<Rightarrow> nat \<Rightarrow> cring \<Rightarrow> cring" where
  "ghosts a b s = s\<lparr>cr_crossed := a, cr_stale := b\<rparr>"

lemma ghosts_simps [simp]:
  "cr_size (ghosts a b s) = cr_size s" "cr_ring (ghosts a b s) = cr_ring s" "ph (ghosts a b s) = ph s"
  "pt (ghosts a b s) = pt s" "ch (ghosts a b s) = ch s" "ct (ghosts a b s) = ct s"
  "sent (ghosts a b s) = sent s" "dq_log (ghosts a b s) = dq_log s" "pcs (ghosts a b s) = pcs s"
  "cr_crossed (ghosts a b s) = a" "cr_stale (ghosts a b s) = b"
  by (simp_all add: ghosts_def)

lemma note_ghosts:
  "note_stale old s = ghosts (cr_crossed s) (cr_stale s + (if stale s old then 1 else 0)) s"
  "note_crossing old n s = ghosts (cr_crossed s + (if unat (cr_size s) < cslot (cr_size s) old + n then 1 else 0)) (cr_stale s) s"
  "ghosts a b (ghosts c d s) = ghosts a b s" "set_pc t p (ghosts a b s) = ghosts a b (set_pc t p s)"
  "(ghosts a b s)\<lparr>ph := i, sent := xs\<rparr> = ghosts a b (s\<lparr>ph := i, sent := xs\<rparr>)"
  "(ghosts a b s)\<lparr>ch := i\<rparr> = ghosts a b (s\<lparr>ch := i\<rparr>)"
  by (simp_all add: note_stale_def note_crossing_def ghosts_def set_pc_def)

lemma thread_ok_ghosts [simp]: "thread_ok (ghosts a b s) q = thread_ok s q"
  by (cases q) simp_all

lemma conc_inv_ghosts [simp]: "conc_inv (ghosts a b s) = conc_inv s"
  by (simp add: conc_inv_def counters_ok_def cells_ok_def owners_ok_def)

lemma thread_ok_set_pc [simp]: "thread_ok (set_pc t p s) q = thread_ok s q"
  by (cases q) simp_all

lemma conc_invI:
  assumes inv: "conc_inv s" and pcs: "pcs s' = pcs s"
    and "counters_ok s'" "cells_ok s'" "concat (dq_log s') = take (ct s') (sent s')"
    and others: "\<And>u. u \<noteq> t \<Longrightarrow> thread_ok s' (pcs s u)" and own: "thread_ok s' p"
    and p: "\<And>u. u \<noteq> t \<Longrightarrow> prange p \<inter> prange (pcs s u) = {}"
    and c: "\<And>u. u \<noteq> t \<Longrightarrow> crange p \<inter> crange (pcs s u) = {}"
  shows "conc_inv (set_pc t p s')"
proof -
  have "owners_ok s" using inv by (simp add: conc_inv_def)
  have "owners_ok (set_pc t p s')"
    unfolding owners_ok_def set_pc_simps pcs
  proof (intro allI impI)
    fix a b :: nat assume "a \<noteq> b"
    then show "prange (((pcs s)(t := p)) a) \<inter> prange (((pcs s)(t := p)) b) = {} \<and>
        crange (((pcs s)(t := p)) a) \<inter> crange (((pcs s)(t := p)) b) = {}"
      using \<open>owners_ok s\<close> p [of a] p [of b] c [of a] c [of b]
      by (cases "a = t"; cases "b = t") (simp_all add: owners_ok_def Int_commute)
  qed
  moreover have "counters_ok (set_pc t p s')" "cells_ok (set_pc t p s')"
    using assms(3,4) by (simp_all add: counters_ok_def cells_ok_def)
  ultimately show ?thesis using assms(5) others own pcs by (simp add: conc_inv_def)
qed

text \<open>Steps that change nothing but the thread's own program counter.\<close>

lemma local_step:
  assumes "conc_inv s" "thread_ok s p" "prange p \<subseteq> prange (pcs s t)" "crange p \<subseteq> crange (pcs s t)"
  shows "conc_inv (set_pc t p s)"
proof (rule conc_invI [OF assms(1) refl])
  fix u assume "u \<noteq> t"
  then have "prange (pcs s t) \<inter> prange (pcs s u) = {}" "crange (pcs s t) \<inter> crange (pcs s u) = {}"
    using assms(1) by (auto simp: conc_inv_def owners_ok_def)
  then show "prange p \<inter> prange (pcs s u) = {}" "crange p \<inter> crange (pcs s u) = {}"
    using assms(3,4) by auto
qed (use assms(1,2) in \<open>auto simp: conc_inv_def\<close>)

subsection \<open>Every step keeps the invariant\<close>

lemma p_cas_bound:
  assumes "counters_ok s" "thread_ok s (PTried xs old c n)" "w32 (ph s) = w32 old" "ph s < old + 2 ^ 32"
  shows "ph s = old" "0 < unat n" "unat n \<le> length xs" "ph s + unat n \<le> ct s + cap s"
proof -
  let ?cap = "cr_size s - 1"
  have "old \<le> ph s" using assms(2) by simp
  from w32_eq [OF assms(3) [symmetric] this assms(4)] show eq: "ph s = old" ..
  have k: "is_pow2 (cr_size s)" using assms(1) by (simp add: counters_ok_def)
  have cp: "unat ?cap = cap s" by (rule pow2_unat_minus_1 [OF k])
  have d: "c \<le> old" "old - c \<le> cap s" "old - c < 2 ^ 32"
    using assms(1,2) eq cp u32_bound [of ?cap] by (auto simp: counters_ok_def)
  have w: "unat (w32 old - w32 c) = old - c" by (rule w32_diff [OF d(1,3)])
  have le: "unat (w32 old - w32 c) \<le> unat ?cap" using w d(2) cp by simp
  have n: "n = min (w32 (length xs)) (?cap - (w32 old - w32 c))"
    using assms(2) unfolding thread_ok.simps prod_attempt_variable(1) [OF le] fst_conv by blast
  have u: "unat (?cap - (w32 old - w32 c)) = cap s - (old - c)"
    unfolding prod_attempt_variable(2) [OF le] w cp ..
  have l: "unat (w32 (length xs)) = length xs" using assms(2) by (intro unat_of_nat_u32) auto
  have nn: "unat n = min (length xs) (cap s - (old - c))" unfolding n unat_min l u ..
  have "n \<noteq> 0" using assms(2) unfolding thread_ok.simps by blast
  then show "0 < unat n" by (simp add: unat_gt_0)
  show "unat n \<le> length xs" using nn by simp
  show "ph s + unat n \<le> ct s + cap s" using nn d assms(2) eq by auto
qed

lemma c_cas_bound:
  assumes "counters_ok s" "thread_ok s (CTried mx old p n)" "w32 (ch s) = w32 old" "ch s < old + 2 ^ 32"
  shows "ch s = old" "0 < unat n" "ch s + unat n \<le> pt s"
proof -
  have "old \<le> ch s" using assms(2) by simp
  from w32_eq [OF assms(3) [symmetric] this assms(4)] show eq: "ch s = old" ..
  have "p - old \<le> cap s" using assms(1,2) eq by (auto simp: counters_ok_def)
  moreover have "cap s < 2 ^ 32" using u32_bound [of "cr_size s"] by linarith
  ultimately have w: "unat (w32 p - w32 old) = p - old" using assms(2) by (intro w32_diff) auto
  have "unat n \<le> p - old" using assms(2) w unat_min [of mx "w32 p - w32 old"] by (simp add: cons_attempt_variable)
  then show "ch s + unat n \<le> pt s" using assms(2) eq by auto
  have "n \<noteq> 0" using assms(2) unfolding thread_ok.simps by blast
  then show "0 < unat n" by (simp add: unat_gt_0)
qed

lemma conc_invD:
  assumes "conc_inv s"
  shows "counters_ok s" "cells_ok s" "thread_ok s (pcs s t)" "owners_ok s"
    "concat (dq_log s) = take (ct s) (sent s)"
  using assms by (auto simp: conc_inv_def)

lemma disjoint_later: "{a ..< a + n} \<inter> {b ..< b + m} = {} \<Longrightarrow> a \<le> b \<Longrightarrow> 0 < m \<Longrightarrow> a + n \<le> (b :: nat)"
  by (metis IntI atLeastLessThan_iff empty_iff less_add_same_cancel1 not_le order_refl)

lemma nth_slice:
  "take (length xs) (drop m ys) = xs \<Longrightarrow> k < length xs \<Longrightarrow> m + length xs \<le> length ys \<Longrightarrow> ys ! (m + k) = xs ! k"
  by (metis add_leE nth_drop nth_take)

lemma p_cas_inv:
  assumes inv: "conc_inv s" and pc: "pcs s t = PTried xs old c n" and cas: "w32 (ph s) = w32 old" "ph s < old + 2 ^ 32"
    and nc: "cslot (cr_size s) old + unat n \<le> unat (cr_size s)"
  shows "conc_inv (set_pc t (PWrite (take (unat n) xs) old 0)
      (s\<lparr>ph := ph s + unat n, sent := sent s @ take (unat n) xs\<rparr>))" (is "conc_inv (set_pc t ?p ?s)")
proof (rule conc_invI [OF inv])
  note i = conc_invD [OF inv]
  have ok: "thread_ok s (PTried xs old c n)" unfolding pc [symmetric] by (rule i(3))
  note b = p_cas_bound [OF i(1) ok cas]
  have len: "length (sent s) = ph s" "pt s \<le> ph s" "ct s \<le> ph s" using i(1) by (auto simp: counters_ok_def)
  show "counters_ok ?s" using i(1) b by (auto simp: counters_ok_def)
  show "cells_ok ?s" using i(2) len by (auto simp: cells_ok_def nth_append)
  show "concat (dq_log ?s) = take (ct ?s) (sent ?s)" using i(5) len by simp
  have "take (unat n) xs \<noteq> []" "length (take (unat n) xs) = unat n" using b(2,3) by auto
  then show "thread_ok ?s ?p" using nc len b(1) by simp
  fix u
  have u: "thread_ok s (pcs s u)" using i(3) .
  then show "thread_ok ?s (pcs s u)"
    using len i(1) by (cases "pcs s u") (auto simp: counters_ok_def)
  show "prange ?p \<inter> prange (pcs s u) = {}" using u b by (cases "pcs s u") auto
qed auto

text \<open>The tail a thread has waited for is the start of its own range.\<close>

lemma p_done_at:
  assumes "conc_inv s" "thread_ok s (PWrite xs old j)" "w32 (pt s) = w32 old"
  shows "pt s = old"
proof -
  have "pt s \<le> ph s" "ct s \<le> pt s" "ph s \<le> ct s + cap s" using conc_invD(1) [OF assms(1)] by (auto simp: counters_ok_def)
  moreover have "old \<le> ph s" "pt s \<le> old" using assms(2) by auto
  ultimately have "pt s \<le> old" "old < pt s + 2 ^ 32" using u32_bound [of "cr_size s"] by linarith+
  then show ?thesis using w32_eq [OF assms(3)] by blast
qed

lemma c_done_at:
  assumes "conc_inv s" "thread_ok s (CRead old n out)" "w32 (ct s) = w32 old"
  shows "ct s = old"
proof -
  have "ch s \<le> ph s" "ph s \<le> ct s + cap s" using conc_invD(1) [OF assms(1)] by (auto simp: counters_ok_def)
  moreover have "old \<le> ch s" "ct s \<le> old" using assms(2) by auto
  ultimately have "ct s \<le> old" "old < ct s + 2 ^ 32" using u32_bound [of "cr_size s"] by linarith+
  then show ?thesis using w32_eq [OF assms(3)] by blast
qed

lemma p_done_inv:
  assumes inv: "conc_inv s" and pc: "pcs s t = PWrite xs old (length xs)" and eq: "w32 (pt s) = w32 old"
  shows "conc_inv (set_pc t (PRet m) (s\<lparr>pt := pt s + length xs\<rparr>))" (is "conc_inv (set_pc t _ ?s)")
proof (rule conc_invI [OF inv])
  note i = conc_invD [OF inv]
  have ok: "thread_ok s (PWrite xs old (length xs))" unfolding pc [symmetric] by (rule i(3))
  note old = p_done_at [OF inv ok eq]
  show "counters_ok ?s" using i(1) ok old by (auto simp: counters_ok_def)
  have "sent s ! (old + k) = xs ! k" if "k < length xs" for k
    by (rule nth_slice [OF _ that]) (use ok i(1) in \<open>auto simp: counters_ok_def\<close>)
  then show "cells_ok ?s"
    using i(2) ok old unfolding cells_ok_def by (auto simp: not_less) (metis add_diff_inverse_nat
        nat_add_left_cancel_less not_less)
  show "concat (dq_log ?s) = take (ct ?s) (sent ?s)" using i(5) by simp
  fix u assume "u \<noteq> t"
  then have d: "prange (pcs s t) \<inter> prange (pcs s u) = {}" using i(4) by (simp add: owners_ok_def)
  have u: "thread_ok s (pcs s u)" using i(3) .
  show "thread_ok ?s (pcs s u)"
  proof (cases "pcs s u")
    case (PWrite ys o' j)
    then have "{old ..< old + length xs} \<inter> {o' ..< o' + length ys} = {}" using d pc by simp
    from disjoint_later [OF this] have "old + length xs \<le> o'" using u PWrite old by simp
    then show ?thesis using u PWrite old by simp
  qed (use u in auto)
qed auto

lemma p_write_inv:
  assumes inv: "conc_inv s" and pc: "pcs s t = PWrite xs old j" and j: "j < length xs"
  shows "conc_inv (set_pc t (PWrite xs old (Suc j))
      (s\<lparr>cr_ring := (cr_ring s)[cslot (cr_size s) old + j := xs ! j]\<rparr>))" (is "conc_inv (set_pc t ?p ?s)")
proof (rule conc_invI [OF inv])
  note i = conc_invD [OF inv]
  let ?m = "unat (cr_size s)"
  have ok: "thread_ok s (PWrite xs old j)" unfolding pc [symmetric] by (rule i(3))
  have cnt: "ct s \<le> ch s" "ch s \<le> pt s" "pt s \<le> ph s" "ph s \<le> ct s + cap s" "?m \<le> length (cr_ring s)"
      "is_pow2 (cr_size s)"
    using i(1) by (auto simp: counters_ok_def)
  have in_range: "pt s \<le> old + j" "old + j < ph s" using ok j by auto
  have m0: "0 < ?m" using cnt in_range by linarith
  have slot: "cslot (cr_size s) old + j = (old + j) mod ?m"
    using cslot_offset [OF cnt(6) _ j] ok by simp
  have lt: "(old + j) mod ?m < length (cr_ring s)" using m0 cnt(5) by (meson mod_less_divisor order_less_le_trans)
  have keep: "cr_ring ?s ! (k mod ?m) = cr_ring s ! (k mod ?m)" if "ct s \<le> k" "k < ph s" "k \<noteq> old + j" for k
  proof -
    have "k mod ?m \<noteq> (old + j) mod ?m" by (rule slots_differ [OF that(3)]) (use that in_range cnt in linarith)+
    then show ?thesis using slot by simp
  qed
  show "counters_ok ?s" using i(1) by (simp add: counters_ok_def)
  show "cells_ok ?s" using i(2) keep cnt in_range unfolding cells_ok_def by simp
  show "concat (dq_log ?s) = take (ct ?s) (sent ?s)" using i(5) by simp
  have "cr_ring ?s ! ((old + k) mod ?m) = xs ! k" if "k < Suc j" for k
    using that keep [of "old + k"] ok j cnt slot lt by (cases "k = j") auto
  then show "thread_ok ?s ?p" using ok j by simp
  fix u assume "u \<noteq> t"
  then have d: "prange (pcs s t) \<inter> prange (pcs s u) = {}" using i(4) by (simp add: owners_ok_def)
  then show "prange ?p \<inter> prange (pcs s u) = {}" using pc by simp
  have u: "thread_ok s (pcs s u)" using i(3) .
  show "thread_ok ?s (pcs s u)"
  proof (cases "pcs s u")
    case (PWrite ys o' l)
    have "cr_ring ?s ! ((o' + k) mod ?m) = ys ! k" if "k < l" for k
    proof -
      have "o' + k \<in> {o' ..< o' + length ys}" using that u PWrite by simp
      then have "o' + k \<noteq> old + j" using d PWrite pc j by auto
      then show ?thesis using keep [of "o' + k"] that u PWrite cnt by simp
    qed
    then show ?thesis using u PWrite by simp
  qed (use u in auto)
qed auto

lemma c_cas_inv:
  assumes inv: "conc_inv s" and pc: "pcs s t = CTried mx old p n" and cas: "w32 (ch s) = w32 old" "ch s < old + 2 ^ 32"
    and nc: "cslot (cr_size s) old + unat n \<le> unat (cr_size s)"
  shows "conc_inv (set_pc t (CRead old (unat n) []) (s\<lparr>ch := ch s + unat n\<rparr>))" (is "conc_inv (set_pc t ?p ?s)")
proof (rule conc_invI [OF inv])
  note i = conc_invD [OF inv]
  have ok: "thread_ok s (CTried mx old p n)" unfolding pc [symmetric] by (rule i(3))
  note b = c_cas_bound [OF i(1) ok cas]
  show "counters_ok ?s" using i(1) b by (auto simp: counters_ok_def)
  show "cells_ok ?s" using i(2) by (simp add: cells_ok_def)
  show "concat (dq_log ?s) = take (ct ?s) (sent ?s)" using i(5) by simp
  have "ct s \<le> ch s" using i(1) by (simp add: counters_ok_def)
  then show "thread_ok ?s ?p" using nc b(1,2) by simp
  fix u
  have u: "thread_ok s (pcs s u)" using i(3) .
  then show "thread_ok ?s (pcs s u)" by (cases "pcs s u") auto
  show "crange ?p \<inter> crange (pcs s u) = {}" using u b by (cases "pcs s u") auto
qed auto

lemma c_read_ok:
  assumes inv: "conc_inv s" and pc: "pcs s t = CRead old n out" and l: "length out < n"
  shows "thread_ok s (CRead old n (out @ [cr_ring s ! (cslot (cr_size s) old + length out)]))"
proof -
  note i = conc_invD [OF inv]
  let ?l = "length out"
  have ok: "thread_ok s (CRead old n out)" unfolding pc [symmetric] by (rule i(3))
  have cnt: "ch s \<le> pt s" "pt s \<le> length (sent s)" "is_pow2 (cr_size s)" using i(1) by (auto simp: counters_ok_def)
  have "cslot (cr_size s) old + ?l = (old + ?l) mod unat (cr_size s)"
    using cslot_offset [OF cnt(3) _ l] ok by simp
  moreover have "cr_ring s ! ((old + ?l) mod unat (cr_size s)) = sent s ! (old + ?l)"
    using i(2) ok l cnt unfolding cells_ok_def by simp
  moreover have "take (Suc ?l) (drop old (sent s)) = take ?l (drop old (sent s)) @ [sent s ! (old + ?l)]"
    using ok l cnt by (subst take_Suc_conv_app_nth) auto
  moreover have "take ?l (drop old (sent s)) = out" using ok by simp
  ultimately show ?thesis using ok l by simp
qed

lemma c_done_inv:
  assumes inv: "conc_inv s" and pc: "pcs s t = CRead old n out" and n: "length out = n" and eq: "w32 (ct s) = w32 old"
  shows "conc_inv (set_pc t (CRet r) (s\<lparr>ct := ct s + n, dq_log := dq_log s @ [out]\<rparr>))" (is "conc_inv (set_pc t _ ?s)")
proof (rule conc_invI [OF inv])
  note i = conc_invD [OF inv]
  have ok: "thread_ok s (CRead old n out)" unfolding pc [symmetric] by (rule i(3))
  note old = c_done_at [OF inv ok eq]
  show "counters_ok ?s" using i(1) ok old by (auto simp: counters_ok_def)
  show "cells_ok ?s" using i(2) by (simp add: cells_ok_def)
  show "concat (dq_log ?s) = take (ct ?s) (sent ?s)" using i(5) ok old n by (simp add: take_add)
  fix u assume "u \<noteq> t"
  then have d: "crange (pcs s t) \<inter> crange (pcs s u) = {}" using i(4) by (simp add: owners_ok_def)
  have u: "thread_ok s (pcs s u)" using i(3) .
  show "thread_ok ?s (pcs s u)"
  proof (cases "pcs s u")
    case (CRead o' m out')
    then have "{old ..< old + n} \<inter> {o' ..< o' + m} = {}" using d pc by simp
    from disjoint_later [OF this] have "old + n \<le> o'" using u CRead old by simp
    then show ?thesis using u CRead old by simp
  qed (use u in auto)
qed auto

text \<open>With no decision on a stale head and no reservation behind the end, the side conditions hold.\<close>

lemma fresh_head:
  assumes "counters_ok s" "\<not> stale s old"
  shows "ph s < old + 2 ^ 32" "ch s < old + 2 ^ 32" "ct s + cap s < old + 2 ^ 32"
  using assms by (auto simp: stale_def counters_ok_def)

lemma write_elem_inside:
  assumes "counters_ok s" "thread_ok s (PWrite xs old j)" "j < length xs"
  shows "write_elem t xs old j s = set_pc t (PWrite xs old (Suc j))
      (s\<lparr>cr_ring := (cr_ring s)[cslot (cr_size s) old + j := xs ! j]\<rparr>)"
  using assms by (simp add: write_elem_def Let_def counters_ok_def)

lemma read_elem_inside:
  assumes "counters_ok s" "thread_ok s (CRead old n out)" "length out < n"
  shows "read_elem t old n out s = set_pc t (CRead old n (out @ [cr_ring s ! (cslot (cr_size s) old + length out)])) s"
  using assms by (simp add: read_elem_def Let_def counters_ok_def)

lemma conc_step_inv:
  assumes "conc_step t s l s'" "conc_inv s" "cr_crossed s' = 0" "cr_stale s' = 0"
  shows "conc_inv s'"
proof -
  note i = conc_invD [OF assms(2)]
  from assms(1) show ?thesis
  proof cases
    case (p_call xs)
    show ?thesis unfolding p_call(2) by (rule local_step [OF assms(2)]) (use p_call in auto)
  next
    case (p_load xs)
    have "thread_ok s (PCall xs)" using i(3) [of t] p_load by simp
    then show ?thesis unfolding p_load(2)
      by (intro local_step [OF assms(2)]) (use i(1) in \<open>auto simp: counters_ok_def\<close>)
  next
    case (p_try xs old)
    have "thread_ok s (PLoaded xs old)" using i(3) [of t] p_try by simp
    then show ?thesis unfolding p_try(2) note_ghosts conc_inv_ghosts
      by (intro local_step [OF assms(2)]) (auto simp: try_enqueue_def Let_def)
  next
    case (p_cas xs old c n)
    then have "\<not> stale s old" "cslot (cr_size s) old + unat n \<le> unat (cr_size s)"
      using assms(3,4) by (auto simp: note_ghosts split: if_splits)
    then show ?thesis unfolding p_cas(2) note_ghosts conc_inv_ghosts
      using p_cas_inv [OF assms(2) p_cas(3,4)] fresh_head [OF i(1)] by blast
  next
    case (p_fail xs old c n)
    have "thread_ok s (PTried xs old c n)" unfolding p_fail(3) [symmetric] by (rule i(3))
    then show ?thesis unfolding p_fail(2)
      by (intro local_step [OF assms(2)]) (use i(1) in \<open>auto simp: counters_ok_def\<close>)
  next
    case (p_write xs old j)
    have "thread_ok s (PWrite xs old j)" unfolding p_write(3) [symmetric] by (rule i(3))
    from write_elem_inside [OF i(1) this p_write(4)] show ?thesis unfolding p_write(2)
      using p_write_inv [OF assms(2) p_write(3,4)] by simp
  next
    case (p_done xs old)
    show ?thesis unfolding p_done(2) by (rule p_done_inv [OF assms(2) p_done(3,4)])
  next
    case (p_ret n)
    show ?thesis unfolding p_ret(2) by (rule local_step [OF assms(2)]) auto
  next
    case (c_call mx)
    show ?thesis unfolding c_call(2) by (rule local_step [OF assms(2)]) auto
  next
    case (c_load mx)
    show ?thesis unfolding c_load(2) by (rule local_step [OF assms(2)]) auto
  next
    case (c_try mx old)
    have "thread_ok s (CLoaded mx old)" using i(3) [of t] c_try by simp
    then show ?thesis unfolding c_try(2) note_ghosts conc_inv_ghosts
      by (intro local_step [OF assms(2)]) (use i(1) in \<open>auto simp: try_dequeue_def Let_def counters_ok_def\<close>)
  next
    case (c_cas mx old p n)
    then have "\<not> stale s old" "cslot (cr_size s) old + unat n \<le> unat (cr_size s)"
      using assms(3,4) by (auto simp: note_ghosts split: if_splits)
    then show ?thesis unfolding c_cas(2) note_ghosts conc_inv_ghosts
      using c_cas_inv [OF assms(2) c_cas(3,4)] fresh_head [OF i(1)] by blast
  next
    case (c_fail mx old p n)
    show ?thesis unfolding c_fail(2) by (rule local_step [OF assms(2)]) auto
  next
    case (c_read old n out)
    have "thread_ok s (CRead old n out)" unfolding c_read(3) [symmetric] by (rule i(3))
    from read_elem_inside [OF i(1) this c_read(4)] show ?thesis unfolding c_read(2)
      using local_step [OF assms(2) c_read_ok [OF assms(2) c_read(3,4)], of t] c_read(3) by simp
  next
    case (c_done old n out)
    show ?thesis unfolding c_done(2) by (rule c_done_inv [OF assms(2) c_done(3-5)])
  next
    case (c_ret out)
    show ?thesis unfolding c_ret(2) by (rule local_step [OF assms(2)]) auto
  qed
qed

lemma conc_init_inv: "is_pow2 sz \<Longrightarrow> unat sz \<le> length block \<Longrightarrow> conc_inv (conc_init sz block)"
  by (simp add: conc_init_def conc_inv_def counters_ok_def cells_ok_def owners_ok_def)

lemma conc_step_keeps:
  assumes "conc_step t s l s'"
  shows "cr_size s' = cr_size s" "cr_crossed s \<le> cr_crossed s'" "cr_stale s \<le> cr_stale s'"
    "u \<noteq> t \<Longrightarrow> pcs s' u = pcs s u"
  using assms by (cases; auto simp: note_ghosts write_elem_def read_elem_def Let_def)+

subsection \<open>Open reservations\<close>

text \<open>Every counter between a tail and its head belongs to a thread that has reserved it.\<close>

definition tiles_ok :: "cring \<Rightarrow> bool" where
  "tiles_ok s \<longleftrightarrow> (\<forall>i. pt s \<le> i \<longrightarrow> i < ph s \<longrightarrow> (\<exists>t. i \<in> prange (pcs s t))) \<and>
     (\<forall>i. ct s \<le> i \<longrightarrow> i < ch s \<longrightarrow> (\<exists>t. i \<in> crange (pcs s t)))"

lemma tiles_set_pc:
  assumes "tiles_ok s" "pt s \<le> pt s'" "ct s \<le> ct s'" "pcs s' = pcs s"
    and "\<And>i. pt s' \<le> i \<Longrightarrow> i < ph s' \<Longrightarrow> ph s \<le> i \<or> i \<in> prange (pcs s t) \<Longrightarrow> i \<in> prange p"
    and "\<And>i. ct s' \<le> i \<Longrightarrow> i < ch s' \<Longrightarrow> ch s \<le> i \<or> i \<in> crange (pcs s t) \<Longrightarrow> i \<in> crange p"
  shows "tiles_ok (set_pc t p s')"
  unfolding tiles_ok_def set_pc_simps
proof (intro conjI allI impI)
  fix i assume i: "pt s' \<le> i" "i < ph s'"
  show "\<exists>u. i \<in> prange (((pcs s')(t := p)) u)"
  proof (cases "ph s \<le> i \<or> i \<in> prange (pcs s t)")
    case True
    then show ?thesis using assms(5) [OF i] by (metis fun_upd_same)
  next
    case False
    then have "pt s \<le> i" "i < ph s" using assms(2) i by linarith+
    then obtain u where "i \<in> prange (pcs s u)" using assms(1) unfolding tiles_ok_def by blast
    moreover have "u \<noteq> t" using calculation False by blast
    ultimately show ?thesis using assms(4) by (metis fun_upd_other)
  qed
next
  fix i assume i: "ct s' \<le> i" "i < ch s'"
  show "\<exists>u. i \<in> crange (((pcs s')(t := p)) u)"
  proof (cases "ch s \<le> i \<or> i \<in> crange (pcs s t)")
    case True
    then show ?thesis using assms(6) [OF i] by (metis fun_upd_same)
  next
    case False
    then have "ct s \<le> i" "i < ch s" using assms(3) i by linarith+
    then obtain u where "i \<in> crange (pcs s u)" using assms(1) unfolding tiles_ok_def by blast
    moreover have "u \<noteq> t" using calculation False by blast
    ultimately show ?thesis using assms(4) by (metis fun_upd_other)
  qed
qed

lemma tiles_local:
  assumes "tiles_ok s" "prange (pcs s t) = prange p" "crange (pcs s t) = crange p"
  shows "tiles_ok (set_pc t p s)"
proof -
  have "prange (((pcs s)(t := p)) u) = prange (pcs s u)" "crange (((pcs s)(t := p)) u) = crange (pcs s u)" for u
    using assms(2,3) by simp_all
  then show ?thesis using assms(1) unfolding tiles_ok_def set_pc_simps by simp
qed

lemma tiles_ghosts [simp]: "tiles_ok (ghosts a b s) = tiles_ok s"
  by (simp add: tiles_ok_def)

lemma conc_step_tiles:
  assumes "conc_step t s l s'" "conc_inv s" "tiles_ok s" "cr_crossed s' = 0" "cr_stale s' = 0"
  shows "tiles_ok s'"
proof -
  note i = conc_invD [OF assms(2)]
  from assms(1) show ?thesis
  proof cases
    case (p_cas xs old c n)
    have ok: "thread_ok s (PTried xs old c n)" unfolding p_cas(3) [symmetric] by (rule i(3))
    have "\<not> stale s old" using p_cas assms(5) by (auto simp: note_ghosts split: if_splits)
    note b = p_cas_bound [OF i(1) ok p_cas(4) fresh_head(1) [OF i(1) this]]
    show ?thesis unfolding p_cas(2) note_ghosts tiles_ghosts
      by (rule tiles_set_pc [OF assms(3)]) (use b p_cas(3) in \<open>auto simp: min_def\<close>)
  next
    case (c_cas mx old p n)
    have ok: "thread_ok s (CTried mx old p n)" unfolding c_cas(3) [symmetric] by (rule i(3))
    have "\<not> stale s old" using c_cas assms(5) by (auto simp: note_ghosts split: if_splits)
    note b = c_cas_bound [OF i(1) ok c_cas(4) fresh_head(2) [OF i(1) this]]
    show ?thesis unfolding c_cas(2) note_ghosts tiles_ghosts
      by (rule tiles_set_pc [OF assms(3)]) (use b c_cas(3) in auto)
  next
    case (p_write xs old j)
    have "thread_ok s (PWrite xs old j)" unfolding p_write(3) [symmetric] by (rule i(3))
    from write_elem_inside [OF i(1) this p_write(4)] show ?thesis unfolding p_write(2)
      by (simp only:) (rule tiles_set_pc [OF assms(3)], use p_write(3) i(1) in \<open>auto simp: counters_ok_def\<close>)
  next
    case (p_done xs old)
    have ok: "thread_ok s (PWrite xs old (length xs))" unfolding p_done(3) [symmetric] by (rule i(3))
    show ?thesis unfolding p_done(2)
      by (rule tiles_set_pc [OF assms(3)])
         (use p_done(3) p_done_at [OF assms(2) ok p_done(4)] i(1) in \<open>auto simp: counters_ok_def\<close>)
  next
    case (c_read old n out)
    have "thread_ok s (CRead old n out)" unfolding c_read(3) [symmetric] by (rule i(3))
    from read_elem_inside [OF i(1) this c_read(4)] show ?thesis unfolding c_read(2)
      using c_read(3) by (simp add: tiles_local [OF assms(3)])
  next
    case (c_done old n out)
    have ok: "thread_ok s (CRead old n out)" unfolding c_done(3) [symmetric] by (rule i(3))
    show ?thesis unfolding c_done(2)
      by (rule tiles_set_pc [OF assms(3)])
         (use c_done(3) c_done_at [OF assms(2) ok c_done(5)] i(1) in \<open>auto simp: counters_ok_def\<close>)
  qed (simp_all add: note_ghosts try_enqueue_def try_dequeue_def Let_def tiles_local [OF assms(3)])
qed

interpretation ring: guarded_invariant "\<lambda>s s'. \<exists>l. ring_step s l s'"
  "\<lambda>s. conc_inv s \<and> tiles_ok s \<and> cr_size s = sz" "\<lambda>s. cr_crossed s = 0 \<and> cr_stale s = 0" for sz
proof unfold_locales
  fix s s' assume "\<exists>l. ring_step s l s'" and good: "cr_crossed s' = 0 \<and> cr_stale s' = 0"
  then obtain t l where step: "conc_step t s l s'" by (auto simp: ring_step_def)
  show "cr_crossed s = 0 \<and> cr_stale s = 0" using conc_step_keeps [OF step] good by simp
  assume "conc_inv s \<and> tiles_ok s \<and> cr_size s = sz"
  then show "conc_inv s' \<and> tiles_ok s' \<and> cr_size s' = sz"
    using conc_step_inv [OF step] conc_step_tiles [OF step] conc_step_keeps(1) [OF step] good by simp
qed

lemma fresh_ring_inv:
  "is_pow2 sz \<Longrightarrow> unat sz \<le> length block \<Longrightarrow>
   conc_inv (conc_init sz block) \<and> tiles_ok (conc_init sz block) \<and> cr_size (conc_init sz block) = sz"
  using conc_init_inv [of sz block] by (simp add: tiles_ok_def conc_init_def)

lemma ring_run_inv:
  assumes "is_pow2 sz" "unat sz \<le> length block" "run_trace ring_step (conc_init sz block) tr s"
    "cr_crossed s = 0" "cr_stale s = 0"
  shows "conc_inv s" "tiles_ok s" "cr_size s = sz"
  using ring.reachable_inv [OF run_trace_star [OF assms(3)] fresh_ring_inv [OF assms(1,2)]] assms(4,5) by simp_all

subsection \<open>Calls for one element\<close>

text \<open>
  Only the daemon's poll asks for more than one element; a ring on which every call is for at most
  one, as the ring of free buffers, never has a reservation across the end of its array.
\<close>

fun single_call :: "obs \<Rightarrow> bool" where
  "single_call (CallEnq t xs) \<longleftrightarrow> length xs \<le> 1"
| "single_call (CallDeq t mx) \<longleftrightarrow> mx \<le> 1"
| "single_call l \<longleftrightarrow> True"

fun single_pc :: "pc \<Rightarrow> bool" where
  "single_pc (PCall xs) \<longleftrightarrow> length xs \<le> 1"
| "single_pc (PLoaded xs old) \<longleftrightarrow> length xs \<le> 1"
| "single_pc (PTried xs old c n) \<longleftrightarrow> length xs \<le> 1 \<and> n \<le> 1"
| "single_pc (CCall mx) \<longleftrightarrow> mx \<le> 1"
| "single_pc (CLoaded mx old) \<longleftrightarrow> mx \<le> 1"
| "single_pc (CTried mx old p n) \<longleftrightarrow> mx \<le> 1 \<and> n \<le> 1"
| "single_pc p \<longleftrightarrow> True"

lemma attempt_le: "fst (prod_attempt cp n KT_RB_BEHAVIOR_VARIABLE h t) \<le> n" "fst (cons_attempt n KT_RB_BEHAVIOR_VARIABLE h t) \<le> n"
  by (auto simp: prod_attempt_def cons_attempt_def Let_def)

lemma single_tries:
  "length xs \<le> 1 \<Longrightarrow> single_pc (try_enqueue s xs old)" "mx \<le> 1 \<Longrightarrow> single_pc (try_dequeue s mx old)"
proof -
  assume a: "length xs \<le> 1"
  then have "w32 (length xs) \<le> 1" by (cases xs) auto
  then have "fst (prod_attempt (cr_size s - 1) (w32 (length xs)) KT_RB_BEHAVIOR_VARIABLE (w32 old) (w32 (ct s))) \<le> 1"
    using attempt_le(1) order_trans by blast
  then show "single_pc (try_enqueue s xs old)" using a by (simp add: try_enqueue_def Let_def)
next
  assume "mx \<le> 1"
  moreover then have "fst (cons_attempt mx KT_RB_BEHAVIOR_VARIABLE (w32 old) (w32 (pt s))) \<le> 1"
    using attempt_le(2) order_trans by blast
  ultimately show "single_pc (try_dequeue s mx old)" by (simp add: try_dequeue_def Let_def)
qed

lemma one_inside:
  assumes "is_pow2 sz" "n \<le> (1 :: u32)"
  shows "cslot sz old + unat n \<le> unat sz"
proof -
  have "unat n \<le> 1" using assms(2) by (simp add: word_le_nat_alt)
  moreover have "cslot sz old < unat sz" using assms(1) pow2_pos [OF assms(1)] by (simp add: cslot_mod)
  ultimately show ?thesis by linarith
qed

lemma single_calls_step:
  assumes "conc_step t s l s'" "is_pow2 (cr_size s)" "\<forall>u. single_pc (pcs s u)" "\<forall>x. l = Some x \<longrightarrow> single_call x"
  shows "cr_crossed s' = cr_crossed s \<and> single_pc (pcs s' t)"
proof -
  have t: "single_pc (pcs s t)" using assms(3) ..
  from assms(1) show ?thesis
  proof cases
    case (p_cas xs old c n)
    then have "n \<le> 1" using t by simp
    from one_inside [OF assms(2) this, of old] show ?thesis unfolding p_cas(2) by (simp add: note_ghosts)
  next
    case (c_cas mx old p n)
    then have "n \<le> 1" using t by simp
    from one_inside [OF assms(2) this, of old] show ?thesis unfolding c_cas(2) by (simp add: note_ghosts)
  qed (use t assms(4) in \<open>simp_all add: note_ghosts single_tries write_elem_def read_elem_def Let_def\<close>)
qed

lemma single_calls_never_cross:
  assumes "is_pow2 sz" "run_trace ring_step (conc_init sz block) tr s" "list_all single_call tr"
  shows "cr_crossed s = 0 \<and> cr_size s = sz \<and> (\<forall>u. single_pc (pcs s u))"
  using assms(2,3)
proof (induction rule: run_trace.induct)
  case run_start
  then show ?case by (simp add: conc_init_def)
next
  case (run_hidden tr s1 s2)
  then obtain t where t: "conc_step t s1 None s2" by (auto simp: ring_step_def)
  then show ?case using single_calls_step [OF t] conc_step_keeps [OF t] run_hidden assms(1) by (metis option.distinct(1))
next
  case (run_visible tr s1 l s2)
  then obtain t where t: "conc_step t s1 (Some l) s2" by (auto simp: ring_step_def)
  have "single_call l" "cr_crossed s1 = 0 \<and> cr_size s1 = sz \<and> (\<forall>u. single_pc (pcs s1 u))" using run_visible by simp_all
  then show ?case using single_calls_step [OF t] conc_step_keeps [OF t] assms(1) by (metis option.inject)
qed

subsection \<open>Running a schedule\<close>

text \<open>
  A schedule says which thread does what next: a call, a compare-and-swap that fails, or the next step
  of the thread. It is used to build concrete runs; a step that is not enabled has no result.
\<close>

datatype event = ECallEnq nat "u64 list" | ECallDeq nat u32 | EFail nat | EStep nat

fun next_step :: "nat \<Rightarrow> pc \<Rightarrow> cring \<Rightarrow> (obs option \<times> cring) option" where
  "next_step t (PCall xs) s = Some (None, set_pc t (PLoaded xs (ph s)) s)"
| "next_step t (PLoaded xs old) s = Some (None, set_pc t (try_enqueue s xs old) (note_stale old s))"
| "next_step t (PTried xs old c n) s =
     (if w32 (ph s) = w32 old
      then Some (None, set_pc t (PWrite (take (unat n) xs) old 0)
        ((note_crossing old (unat n) (note_stale old s))\<lparr>ph := ph s + unat n, sent := sent s @ take (unat n) xs\<rparr>))
      else None)"
| "next_step t (PWrite xs old j) s =
     (if j < length xs then Some (None, write_elem t xs old j s)
      else if j = length xs \<and> w32 (pt s) = w32 old
      then Some (None, set_pc t (PRet (length xs)) (s\<lparr>pt := pt s + length xs\<rparr>)) else None)"
| "next_step t (PRet n) s = Some (Some (RetEnq t n), set_pc t Ready s)"
| "next_step t (CCall mx) s = Some (None, set_pc t (CLoaded mx (ch s)) s)"
| "next_step t (CLoaded mx old) s = Some (None, set_pc t (try_dequeue s mx old) (note_stale old s))"
| "next_step t (CTried mx old p n) s =
     (if w32 (ch s) = w32 old
      then Some (None, set_pc t (CRead old (unat n) [])
        ((note_crossing old (unat n) (note_stale old s))\<lparr>ch := ch s + unat n\<rparr>))
      else None)"
| "next_step t (CRead old n out) s =
     (if length out < n then Some (None, read_elem t old n out s)
      else if length out = n \<and> w32 (ct s) = w32 old
      then Some (None, set_pc t (CRet out) (s\<lparr>ct := ct s + n, dq_log := dq_log s @ [out]\<rparr>)) else None)"
| "next_step t (CRet out) s = Some (Some (RetDeq t out), set_pc t Ready s)"
| "next_step t p s = None"

fun conc_exec :: "event \<Rightarrow> cring \<Rightarrow> (obs option \<times> cring) option" where
  "conc_exec (ECallEnq t xs) s =
     (if pcs s t = Ready \<and> length xs < 2 ^ 32 then Some (Some (CallEnq t xs), set_pc t (PCall xs) s) else None)"
| "conc_exec (ECallDeq t mx) s =
     (if pcs s t = Ready then Some (Some (CallDeq t mx), set_pc t (CCall mx) s) else None)"
| "conc_exec (EFail t) s =
     (case pcs s t of
        PTried xs old c n \<Rightarrow> Some (None, set_pc t (PLoaded xs (ph s)) s)
      | CTried mx old p n \<Rightarrow> Some (None, set_pc t (CLoaded mx (ch s)) s)
      | _ \<Rightarrow> None)"
| "conc_exec (EStep t) s = next_step t (pcs s t) s"

lemma next_step_sound: "next_step t (pcs s t) s = Some (l, s') \<Longrightarrow> conc_step t s l s'"
  by (cases "pcs s t") (auto split: if_splits intro: conc_step.intros)

lemma conc_exec_sound: "conc_exec e s = Some (l, s') \<Longrightarrow> ring_step s l s'"
  by (cases e) (auto simp: ring_step_def split: pc.splits if_splits intro: conc_step.intros p_call [simplified] next_step_sound)

fun conc_run :: "event list \<Rightarrow> cring \<Rightarrow> (obs list \<times> cring) option" where
  "conc_run [] s = Some ([], s)"
| "conc_run (e # es) s =
     (case conc_exec e s of None \<Rightarrow> None
      | Some (l, s1) \<Rightarrow> (case conc_run es s1 of None \<Rightarrow> None
          | Some (tr, s') \<Rightarrow> Some ((case l of None \<Rightarrow> tr | Some x \<Rightarrow> x # tr), s')))"

lemma conc_run_trace: "conc_run es s = Some (tr, s') \<Longrightarrow> run_trace ring_step s tr s'"
proof (induction es arbitrary: s tr)
  case Nil
  then show ?case by (simp add: run_start)
next
  case (Cons e es)
  then obtain l s1 tr1 where e: "conc_exec e s = Some (l, s1)" "conc_run es s1 = Some (tr1, s')"
      "tr = (case l of None \<Rightarrow> tr1 | Some x \<Rightarrow> x # tr1)"
    by (auto split: option.splits)
  from run_trace_append [OF Cons.IH [OF e(2)] run_trace_single [of ring_step, OF conc_exec_sound [OF e(1)]]]
  show ?case using e(3) by (cases l) simp_all
qed

text \<open>Two producers and a consumer, interleaved; the first producer loses a race and tries again.\<close>

definition example_schedule :: "event list" where
  "example_schedule =
     [ECallEnq 0 [7], ECallEnq 1 [8, 9], EStep 0, EStep 1, EStep 0, EStep 1, EStep 1, EFail 0, EStep 1, EStep 0,
      EStep 0, EStep 0, EStep 1, EStep 1, ECallDeq 2 8, EStep 2, EStep 0, EStep 1, EStep 2, EStep 2, EStep 2,
      EStep 2, EStep 2, EStep 2, EStep 2, EStep 0]"

definition example_trace :: "obs list" where
  "example_trace = [CallEnq 0 [7], CallEnq 1 [8, 9], CallDeq 2 8, RetEnq 1 2, RetDeq 2 [8, 9, 7], RetEnq 0 1]"

lemmas ring_eval = conc_init_def try_enqueue_def try_dequeue_def prod_attempt_def cons_attempt_def cslot_def
  write_elem_def read_elem_def note_stale_def note_crossing_def stale_def

lemma example_run:
  "\<exists>s. conc_run example_schedule (conc_init 4 [0, 0, 0, 0]) = Some (example_trace, s) \<and> dq_log s = [[8, 9, 7]] \<and>
     ct s = 3 \<and> sent s = [8, 9, 7] \<and> cr_crossed s = 0 \<and> cr_stale s = 0"
  by (simp add: example_schedule_def example_trace_def ring_eval)

subsection \<open>Guarantees\<close>

text \<open>The cells of the array a thread still reads or writes.\<close>

definition cells_of :: "cring \<Rightarrow> nat \<Rightarrow> nat set" where
  "cells_of s t = (\<lambda>i. i mod unat (cr_size s)) ` (prange (pcs s t) \<union> crange (pcs s t))"

lemma owned_range:
  assumes "conc_inv s" "i \<in> prange (pcs s t) \<union> crange (pcs s t)"
  shows "ct s \<le> i" "i < ph s"
  using conc_invD(1) [OF assms(1)] conc_invD(3) [OF assms(1), of t] assms(2)
  by (cases "pcs s t"; auto simp: counters_ok_def)+

lemma owned_apart:
  assumes inv: "conc_inv s" and "t \<noteq> u"
    and "i \<in> prange (pcs s t) \<union> crange (pcs s t)" "j \<in> prange (pcs s u) \<union> crange (pcs s u)"
  shows "i \<noteq> j"
proof -
  have "prange (pcs s t) \<inter> prange (pcs s u) = {}" "crange (pcs s t) \<inter> crange (pcs s u) = {}"
    using conc_invD(4) [OF inv] assms(2) by (auto simp: owners_ok_def)
  moreover have "pt s \<le> k" if "k \<in> prange (pcs s v)" for k v
    using conc_invD(3) [OF inv, of v] that by (cases "pcs s v") auto
  moreover have "k < pt s" if "k \<in> crange (pcs s v)" for k v
    using conc_invD(3) [OF inv, of v] conc_invD(1) [OF inv] that by (cases "pcs s v") (auto simp: counters_ok_def)
  ultimately show ?thesis using assms(3,4) by (metis IntI UnE empty_iff not_le)
qed

lemma cells_apart: "conc_inv s \<Longrightarrow> t \<noteq> u \<Longrightarrow> cells_of s t \<inter> cells_of s u = {}"
proof (rule equals0I)
  fix c assume inv: "conc_inv s" and "t \<noteq> u" and "c \<in> cells_of s t \<inter> cells_of s u"
  then obtain i j where ij: "i \<in> prange (pcs s t) \<union> crange (pcs s t)" "j \<in> prange (pcs s u) \<union> crange (pcs s u)"
      "i mod unat (cr_size s) = j mod unat (cr_size s)" by (auto simp: cells_of_def)
  have "ph s \<le> ct s + cap s" using conc_invD(1) [OF inv] by (simp add: counters_ok_def)
  then have "i < j + unat (cr_size s)" "j < i + unat (cr_size s)"
    using owned_range [OF inv ij(1)] owned_range [OF inv ij(2)] by linarith+
  then show False using slots_differ owned_apart [OF inv \<open>t \<noteq> u\<close> ij(1,2)] ij(3) by blast
qed

text \<open>C10. Any number of threads enqueue and dequeue bursts on a fresh ring of power-of-two size,
  their loads, compare-and-swaps, element copies and tail updates interleaved in any order. As long
  as no reservation has crossed the end of the array and no thread has decided on a head it loaded
  about \<open>2 ^ 32\<close> elements ago: the completed dequeues have returned, in the order of their
  completion, exactly the first elements that were reserved, each once and in order; the four
  counters are ordered and at most size - 1 elements are in the ring; no thread has accessed
  memory outside the block, and no two threads hold the same cell of the array.\<close>

theorem conc_ring_fifo:
  assumes "is_pow2 sz" "unat sz \<le> length block" "run_trace ring_step (conc_init sz block) tr s"
    and "cr_crossed s = 0" "cr_stale s = 0"
  shows "concat (dq_log s) = take (ct s) (sent s) \<and> length (sent s) = ph s \<and>
    ct s \<le> ch s \<and> ch s \<le> pt s \<and> pt s \<le> ph s \<and> ph s \<le> ct s + (unat sz - 1) \<and>
    (\<forall>t. pcs s t \<noteq> Crashed) \<and> (\<forall>t u. t \<noteq> u \<longrightarrow> cells_of s t \<inter> cells_of s u = {})"
proof -
  note i = ring_run_inv [OF assms]
  have "pcs s t \<noteq> Crashed" for t using conc_invD(3) [OF i(1), of t] by auto
  moreover have "cells_of s t \<inter> cells_of s u = {}" if "t \<noteq> u" for t u by (rule cells_apart [OF i(1) that])
  moreover have "concat (dq_log s) = take (ct s) (sent s)" by (rule conc_invD(5) [OF i(1)])
  ultimately show ?thesis using conc_invD(1) [OF i(1)] i(3) by (simp add: counters_ok_def)
qed

theorem conc_ring_fifo_witness:
  "\<exists>s. conc_run example_schedule (conc_init 4 [0, 0, 0, 0]) = Some (example_trace, s) \<and> dq_log s = [[8, 9, 7]] \<and>
     cr_crossed s = 0 \<and> concat (dq_log s) = take (ct s) (sent s) \<and> ph s \<le> ct s + 3"
proof -
  obtain s where s: "conc_run example_schedule (conc_init 4 [0, 0, 0, 0]) = Some (example_trace, s)"
      "dq_log s = [[8, 9, 7]]" "cr_crossed s = 0" "cr_stale s = 0"
    using example_run by blast
  from conc_ring_fifo [OF _ _ conc_run_trace [OF s(1)] s(3,4)]
  have "concat (dq_log s) = take (ct s) (sent s) \<and> ph s \<le> ct s + 3" by simp
  then show ?thesis using s by blast
qed

subsection \<open>Waiting for earlier reservations\<close>

text \<open>
  A thread that holds a reservation, the counter it starts at, and the threads whose reservation (of
  the same side) is not later. A thread spins on the tail until all earlier ones have published.
\<close>

fun holds_from :: "pc \<Rightarrow> (bool \<times> nat) option" where
  "holds_from (PWrite xs old j) = Some (True, old)"
| "holds_from (CRead old n out) = Some (False, old)"
| "holds_from p = None"

definition not_later :: "cring \<Rightarrow> bool \<Rightarrow> nat \<Rightarrow> nat set" where
  "not_later s side old = {u. \<exists>o'. holds_from (pcs s u) = Some (side, o') \<and> o' \<le> old}"

fun returns :: "nat \<Rightarrow> obs \<Rightarrow> bool" where
  "returns t (RetEnq u n) \<longleftrightarrow> u = t"
| "returns t (RetDeq u out) \<longleftrightarrow> u = t"
| "returns t l \<longleftrightarrow> False"

definition steps_of :: "nat set \<Rightarrow> cring \<Rightarrow> obs option \<Rightarrow> cring \<Rightarrow> bool" where
  "steps_of A s l s' \<longleftrightarrow> (\<exists>t \<in> A. conc_step t s l s')"

lemma steps_of_ring: "steps_of A s l s' \<Longrightarrow> ring_step s l s'"
  by (auto simp: steps_of_def ring_step_def)

text \<open>While another reservation of its side is earlier, a thread with a reservation keeps it.\<close>

lemma waits_step:
  assumes "conc_inv s" "conc_step t s l s'" "cr_crossed s' = 0" "cr_stale s' = 0"
    and "holds_from (pcs s t) = Some (side, old)" "holds_from (pcs s u) = Some (side, o')" "o' < old"
  shows "holds_from (pcs s' t) = Some (side, old) \<and> l = None"
proof -
  note i = conc_invD [OF assms(1)]
  have ok: "thread_ok s (pcs s t)" "thread_ok s (pcs s u)" using i(3) by blast+
  from assms(2) show ?thesis
  proof cases
    case (p_write xs old1 j)
    then have "thread_ok s (PWrite xs old1 j)" using ok(1) by metis
    from write_elem_inside [OF i(1) this p_write(4)] show ?thesis using p_write assms(5) by simp
  next
    case (p_done xs old1)
    then have "thread_ok s (PWrite xs old1 (length xs))" using ok(1) by metis
    from p_done_at [OF assms(1) this p_done(4)] have "pt s = old" using p_done(3) assms(5) by simp
    then show ?thesis using ok(2) assms(5-7) p_done(3) by (cases "pcs s u") auto
  next
    case (c_read old1 n out)
    then have "thread_ok s (CRead old1 n out)" using ok(1) by metis
    from read_elem_inside [OF i(1) this c_read(4)] show ?thesis using c_read assms(5) by simp
  next
    case (c_done old1 n out)
    then have "thread_ok s (CRead old1 n out)" using ok(1) by metis
    from c_done_at [OF assms(1) this c_done(5)] have "ct s = old" using c_done(3) assms(5) by simp
    then show ?thesis using ok(2) assms(5-7) c_done(3) by (cases "pcs s u") auto
  qed (use assms(5) in auto)
qed

lemma waits_run:
  assumes "run_trace (steps_of A) s tr s'" "u \<notin> A" "conc_inv s" "cr_crossed s' = 0" "cr_stale s' = 0"
    and "holds_from (pcs s t) = Some (side, old)" "holds_from (pcs s u) = Some (side, o')" "o' < old"
  shows "cr_crossed s = 0 \<and> cr_stale s = 0 \<and> conc_inv s' \<and> pcs s' u = pcs s u \<and>
    holds_from (pcs s' t) = Some (side, old) \<and> (\<forall>l \<in> set tr. \<not> returns t l)"
  using assms(1,4,5)
proof (induction rule: run_trace.induct)
  case run_start
  then show ?case using assms by simp
next
  case (run_hidden tr s1 s2)
  obtain v where v: "v \<in> A" "conc_step v s1 None s2" using run_hidden(2) by (auto simp: steps_of_def)
  note k = conc_step_keeps [OF v(2)]
  note IH = run_hidden.IH
  have z: "cr_crossed s1 = 0" "cr_stale s1 = 0" using k run_hidden.prems by simp_all
  note h = IH [OF z]
  have "conc_inv s2" using conc_step_inv [OF v(2)] h run_hidden.prems by blast
  moreover have "pcs s2 u = pcs s u" using k(4) [of u] v(1) assms(2) h by metis
  moreover have "holds_from (pcs s2 t) = Some (side, old)"
    using waits_step [of s1 v None s2 side old u o'] v(2) h run_hidden.prems assms(7,8) k(4) [of t] by metis
  ultimately show ?case using h by blast
next
  case (run_visible tr s1 l s2)
  obtain v where v: "v \<in> A" "conc_step v s1 (Some l) s2" using run_visible(2) by (auto simp: steps_of_def)
  note k = conc_step_keeps [OF v(2)]
  have z: "cr_crossed s1 = 0" "cr_stale s1 = 0" using k run_visible.prems by simp_all
  note h = run_visible.IH [OF z]
  have "conc_inv s2" using conc_step_inv [OF v(2)] h run_visible.prems by blast
  moreover have "pcs s2 u = pcs s u" using k(4) [of u] v(1) assms(2) h by metis
  moreover have nt: "v \<noteq> t" using waits_step [of s1 v "Some l" s2 side old u o'] v(2) h run_visible.prems assms(7,8) by auto
  moreover have "\<not> returns t l" using v(2) nt by (auto elim: conc_step.cases)
  ultimately show ?case using h k(4) [of t] by auto
qed

text \<open>
  C8. The wait at the end of a call is real: while a thread that reserved earlier on the same side
  stops between its compare-and-swap and its store of the tail, no interleaving of all other threads
  lets the later call return (as long as no reservation has crossed the end of the array and no
  stale head was used).
\<close>

theorem earlier_reservation_blocks:
  assumes "is_pow2 sz" "unat sz \<le> length block" "run_trace ring_step (conc_init sz block) tr s"
    and "holds_from (pcs s t) = Some (side, old)" "holds_from (pcs s u) = Some (side, o')" "o' < old"
    and "run_trace (steps_of (- {u})) s tr' s'" "cr_crossed s' = 0" "cr_stale s' = 0"
  shows "holds_from (pcs s' t) = Some (side, old) \<and> (\<forall>l \<in> set tr'. \<not> returns t l)"
proof -
  have "run_trace ring_step s tr' s'" using run_trace_mono [OF assms(7)] steps_of_ring by blast
  from ring.good_start [OF run_trace_star [OF this]] have "cr_crossed s = 0" "cr_stale s = 0" using assms(8,9) by simp_all
  from ring_run_inv(1) [OF assms(1-3) this] waits_run [OF assms(7) _ _ assms(8,9,4-6)] show ?thesis by simp
qed

text \<open>In the example thread 0 has written its element and waits for thread 1, which reserved before.\<close>

lemma example_waiting:
  "\<exists>s s'. conc_run (take 13 example_schedule) (conc_init 4 [0, 0, 0, 0]) = Some (take 2 example_trace, s) \<and>
     holds_from (pcs s 0) = Some (True, 2) \<and> holds_from (pcs s 1) = Some (True, 0) \<and>
     conc_exec (ECallDeq 2 8) s = Some (Some (CallDeq 2 8), s') \<and> conc_step 2 s (Some (CallDeq 2 8)) s' \<and>
     cr_crossed s = 0 \<and> cr_stale s = 0 \<and> cr_crossed s' = 0 \<and> cr_stale s' = 0"
  by (simp add: example_schedule_def example_trace_def ring_eval c_call)

theorem earlier_reservation_blocks_witness:
  "\<exists>s s'. conc_run (take 13 example_schedule) (conc_init 4 [0, 0, 0, 0]) = Some (take 2 example_trace, s) \<and>
     holds_from (pcs s 0) = Some (True, 2) \<and> holds_from (pcs s 1) = Some (True, 0) \<and>
     conc_exec (ECallDeq 2 8) s = Some (Some (CallDeq 2 8), s') \<and> holds_from (pcs s' 0) = Some (True, 2)"
proof -
  obtain s s' where s: "conc_run (take 13 example_schedule) (conc_init 4 [0, 0, 0, 0]) = Some (take 2 example_trace, s)"
      "holds_from (pcs s 0) = Some (True, 2)" "holds_from (pcs s 1) = Some (True, 0)"
      "conc_exec (ECallDeq 2 8) s = Some (Some (CallDeq 2 8), s')" "conc_step 2 s (Some (CallDeq 2 8)) s'"
      "cr_crossed s' = 0" "cr_stale s' = 0"
    using example_waiting by blast
  have "steps_of (- {1}) s (Some (CallDeq 2 8)) s'" unfolding steps_of_def using s(5) by (intro bexI [of _ 2]) simp_all
  from run_trace_single [of "steps_of (- {1})", OF this] have "run_trace (steps_of (- {1})) s [CallDeq 2 8] s'" by simp
  from earlier_reservation_blocks [OF _ _ conc_run_trace [OF s(1)] s(2,3) _ this s(6,7)] show ?thesis using s by auto
qed

text \<open>The holder of the oldest reservation of a side can run alone to its return.\<close>

definition sound :: "cring \<Rightarrow> bool" where
  "sound s \<longleftrightarrow> conc_inv s \<and> tiles_ok s \<and> cr_crossed s = 0 \<and> cr_stale s = 0"

lemma sound_step: "conc_step t s l s' \<Longrightarrow> sound s \<Longrightarrow> cr_crossed s' = 0 \<Longrightarrow> cr_stale s' = 0 \<Longrightarrow> sound s'"
  unfolding sound_def using conc_step_inv conc_step_tiles by blast

definition side_tail :: "bool \<Rightarrow> cring \<Rightarrow> nat" where
  "side_tail side s = (if side then pt s else ct s)"

lemma write_rest:
  assumes "sound s" "pcs s t = PWrite xs old j"
  shows "\<exists>s'. run_trace (conc_step t) s [] s' \<and> sound s' \<and> pcs s' = (pcs s)(t := PWrite xs old (length xs)) \<and>
    pt s' = pt s \<and> ct s' = ct s"
  using assms
proof (induction "length xs - j" arbitrary: s j)
  case 0
  have "thread_ok s (pcs s t)" using 0(2) conc_invD(3) by (simp add: sound_def)
  then have "j = length xs" using 0 by simp
  then show ?case using 0 run_start by (metis fun_upd_triv)
next
  case (Suc k)
  let ?s = "write_elem t xs old j s"
  have ok: "counters_ok s" "thread_ok s (PWrite xs old j)"
    using Suc(3,4) conc_invD(1) [of s] conc_invD(3) [of s t] by (simp_all add: sound_def)
  have j: "j < length xs" and k: "k = length xs - Suc j" using Suc(2) by simp_all
  have step: "conc_step t s None ?s" by (rule p_write [OF Suc(4) j])
  have eq: "pcs ?s = (pcs s)(t := PWrite xs old (Suc j))" "pt ?s = pt s" "ct ?s = ct s"
      "cr_crossed ?s = cr_crossed s" "cr_stale ?s = cr_stale s"
    unfolding write_elem_inside [OF ok j] by simp_all
  have "sound ?s" using sound_step [OF step Suc(3)] Suc(3) eq by (simp add: sound_def)
  then obtain s' where "run_trace (conc_step t) ?s [] s'" "sound s'"
      "pcs s' = (pcs ?s)(t := PWrite xs old (length xs))" "pt s' = pt ?s" "ct s' = ct ?s"
    using Suc(1) [of "Suc j" ?s] k eq(1) by auto
  then show ?case using run_trace_append [OF _ run_hidden [of "conc_step t", OF run_start step]] eq by fastforce
qed

lemma read_rest:
  assumes "sound s" "pcs s t = CRead old n out"
  shows "\<exists>s' out'. run_trace (conc_step t) s [] s' \<and> sound s' \<and> pcs s' = (pcs s)(t := CRead old n out') \<and>
    length out' = n \<and> pt s' = pt s \<and> ct s' = ct s"
  using assms
proof (induction "n - length out" arbitrary: s out)
  case 0
  have "thread_ok s (pcs s t)" using 0(2) conc_invD(3) by (simp add: sound_def)
  then have "length out = n" using 0 by simp
  then show ?case using 0 run_start by (metis fun_upd_triv)
next
  case (Suc k)
  let ?s = "read_elem t old n out s"
  have ok: "counters_ok s" "thread_ok s (CRead old n out)"
    using Suc(3,4) conc_invD(1) [of s] conc_invD(3) [of s t] by (simp_all add: sound_def)
  have j: "length out < n" and k: "k = n - Suc (length out)" using Suc(2) by simp_all
  have step: "conc_step t s None ?s" by (rule c_read [OF Suc(4) j])
  obtain v where eq: "pcs ?s = (pcs s)(t := CRead old n (out @ [v]))" "pt ?s = pt s" "ct ?s = ct s"
      "cr_crossed ?s = cr_crossed s" "cr_stale ?s = cr_stale s"
    unfolding read_elem_inside [OF ok j] by simp
  have "sound ?s" using sound_step [OF step Suc(3)] Suc(3) eq by (simp add: sound_def)
  then obtain s' out' where "run_trace (conc_step t) ?s [] s'" "sound s'"
      "pcs s' = (pcs ?s)(t := CRead old n out')" "length out' = n" "pt s' = pt ?s" "ct s' = ct ?s"
    using Suc(1) [of "out @ [v]" ?s] k eq(1) by auto
  then show ?case using run_trace_append [OF _ run_hidden [of "conc_step t", OF run_start step]] eq by fastforce
qed

lemma oldest_completes:
  assumes "sound s" "holds_from (pcs s t) = Some (side, side_tail side s)"
  shows "\<exists>l s'. run_trace (conc_step t) s [l] s' \<and> returns t l \<and> sound s' \<and> pcs s' = (pcs s)(t := Ready) \<and>
    side_tail side s < side_tail side s'"
proof (cases "pcs s t")
  case (PWrite xs old j)
  then have side: "side" "old = pt s" using assms(2) by (auto simp: side_tail_def split: if_splits)
  have "xs \<noteq> []" using PWrite assms(1) conc_invD(3) [of s t] by (simp add: sound_def)
  obtain s1 where s1: "run_trace (conc_step t) s [] s1" "sound s1" "pcs s1 = (pcs s)(t := PWrite xs old (length xs))"
      "pt s1 = pt s"
    using write_rest [OF assms(1) PWrite] by blast
  let ?s2 = "set_pc t (PRet (length xs)) (s1\<lparr>pt := pt s1 + length xs\<rparr>)"
  have a: "conc_step t s1 None ?s2" by (rule p_done) (use s1 side in simp_all)
  have b: "conc_step t ?s2 (Some (RetEnq t (length xs))) (set_pc t Ready ?s2)" by (rule p_ret) simp
  have "sound ?s2" using sound_step [OF a s1(2)] s1(2) by (simp add: sound_def)
  then have "sound (set_pc t Ready ?s2)" using sound_step [OF b] s1(2) by (simp add: sound_def)
  moreover have "run_trace (conc_step t) s [RetEnq t (length xs)] (set_pc t Ready ?s2)"
    using run_visible [OF run_hidden [OF s1(1) a] b] by simp
  ultimately show ?thesis using s1 side \<open>xs \<noteq> []\<close>
    by (intro exI [of _ "RetEnq t (length xs)"] exI [of _ "set_pc t Ready ?s2"]) (simp add: side_tail_def)
next
  case (CRead old n out)
  then have side: "\<not> side" "old = ct s" using assms(2) by (auto simp: side_tail_def split: if_splits)
  have "0 < n" using CRead assms(1) conc_invD(3) [of s t] by (simp add: sound_def)
  obtain s1 out' where s1: "run_trace (conc_step t) s [] s1" "sound s1" "pcs s1 = (pcs s)(t := CRead old n out')"
      "length out' = n" "ct s1 = ct s"
    using read_rest [OF assms(1) CRead] by blast
  let ?s2 = "set_pc t (CRet out') (s1\<lparr>ct := ct s1 + n, dq_log := dq_log s1 @ [out']\<rparr>)"
  have a: "conc_step t s1 None ?s2" by (rule c_done) (use s1 side in simp_all)
  have b: "conc_step t ?s2 (Some (RetDeq t out')) (set_pc t Ready ?s2)" by (rule c_ret) simp
  have "sound ?s2" using sound_step [OF a s1(2)] s1(2) by (simp add: sound_def)
  then have "sound (set_pc t Ready ?s2)" using sound_step [OF b] s1(2) by (simp add: sound_def)
  moreover have "run_trace (conc_step t) s [RetDeq t out'] (set_pc t Ready ?s2)"
    using run_visible [OF run_hidden [OF s1(1) a] b] by simp
  ultimately show ?thesis using s1 side \<open>0 < n\<close>
    by (intro exI [of _ "RetDeq t out'"] exI [of _ "set_pc t Ready ?s2"]) (simp add: side_tail_def)
qed (use assms(2) in auto)

lemma oldest_holder:
  assumes "sound s" "holds_from (pcs s t) = Some (side, old)"
  shows "side_tail side s \<le> old" "\<exists>u. holds_from (pcs s u) = Some (side, side_tail side s)"
proof -
  have ok: "thread_ok s (pcs s u)" for u using assms(1) conc_invD(3) by (simp add: sound_def)
  show "side_tail side s \<le> old" using ok [of t] assms(2) by (cases "pcs s t") (auto simp: side_tail_def)
  have "side_tail side s < (if side then ph s else ch s)"
    using ok [of t] assms(2) by (cases "pcs s t") (auto simp: side_tail_def neq_Nil_conv)
  then obtain u where u: "if side then pt s \<in> prange (pcs s u) else ct s \<in> crange (pcs s u)"
    using assms(1) by (cases side) (auto simp: sound_def tiles_ok_def side_tail_def)
  then have "holds_from (pcs s u) = Some (side, side_tail side s)"
    using ok [of u] by (cases "pcs s u"; cases side) (auto simp: side_tail_def)
  then show "\<exists>u. holds_from (pcs s u) = Some (side, side_tail side s)" ..
qed

lemma completes:
  assumes "sound s" "holds_from (pcs s t) = Some (side, old)" "not_later s side old \<subseteq> A"
  shows "\<exists>tr' s'. run_trace (steps_of A) s tr' s' \<and> pcs s' t = Ready \<and> (\<exists>l \<in> set tr'. returns t l)"
  using assms
proof (induction "old - side_tail side s" arbitrary: s rule: less_induct)
  case less
  obtain u where u: "holds_from (pcs s u) = Some (side, side_tail side s)"
    using oldest_holder(2) [OF less.prems(1,2)] by blast
  have le: "side_tail side s \<le> old" by (rule oldest_holder(1) [OF less.prems(1,2)])
  have "u \<in> A" using u le less.prems(3) by (auto simp: not_later_def)
  obtain l s1 where s1: "run_trace (conc_step u) s [l] s1" "returns u l" "sound s1" "pcs s1 = (pcs s)(u := Ready)"
      "side_tail side s < side_tail side s1"
    using oldest_completes [OF less.prems(1) u] by blast
  have run: "run_trace (steps_of A) s [l] s1"
    by (rule run_trace_mono [OF s1(1)]) (use \<open>u \<in> A\<close> in \<open>auto simp: steps_of_def\<close>)
  show ?case
  proof (cases "u = t")
    case True
    then show ?thesis using run s1(2,4) by (intro exI [of _ "[l]"] exI [of _ s1]) simp
  next
    case False
    then have t: "holds_from (pcs s1 t) = Some (side, old)" using s1(4) less.prems(2) by simp
    have "old - side_tail side s1 < old - side_tail side s" using oldest_holder(1) [OF s1(3) t] s1(5) by simp
    moreover have "not_later s1 side old \<subseteq> A" using less.prems(3) s1(4) by (auto simp: not_later_def split: if_splits)
    ultimately obtain tr' s' where "run_trace (steps_of A) s1 tr' s'" "pcs s' t = Ready" "\<exists>l \<in> set tr'. returns t l"
      using less.hyps [OF _ s1(3) t] by blast
    then show ?thesis using run_trace_append [OF _ run] by (metis UnCI set_append)
  qed
qed

text \<open>
  C7. The ring cannot deadlock: in every state that is reached on a fresh ring without a reservation
  across the end of the array and without a stale head, a call that holds a reservation can be run to
  its return by steps of the threads whose reservation on its side is not later than its own, whatever
  all other threads are doing.
\<close>

theorem reserved_call_completes:
  assumes "is_pow2 sz" "unat sz \<le> length block" "run_trace ring_step (conc_init sz block) tr s"
    and "cr_crossed s = 0" "cr_stale s = 0" "holds_from (pcs s t) = Some (side, old)"
  shows "\<exists>tr' s'. run_trace (steps_of (not_later s side old)) s tr' s' \<and> pcs s' t = Ready \<and>
    (\<exists>l \<in> set tr'. returns t l)"
  using completes [OF _ assms(6) order_refl] ring_run_inv [OF assms(1-5)] assms(4,5) by (simp add: sound_def)

theorem reserved_call_completes_witness:
  "\<exists>s tr' s'. conc_run (take 13 example_schedule) (conc_init 4 [0, 0, 0, 0]) = Some (take 2 example_trace, s) \<and>
     holds_from (pcs s 0) = Some (True, 2) \<and> run_trace (steps_of (not_later s True 2)) s tr' s' \<and> pcs s' 0 = Ready"
proof -
  obtain s where s: "conc_run (take 13 example_schedule) (conc_init 4 [0, 0, 0, 0]) = Some (take 2 example_trace, s)"
      "holds_from (pcs s 0) = Some (True, 2)" "cr_crossed s = 0" "cr_stale s = 0"
    using example_waiting by blast
  from reserved_call_completes [OF _ _ conc_run_trace [OF s(1)] s(3,4,2)] show ?thesis using s by auto
qed

end
