(* ===== verification/KT_Ringbuf_Lin.thy ===== *)
theory KT_Ringbuf_Lin
  imports KT_Ringbuf_Conc
begin

section \<open>The concurrent ring is an atomic queue\<close>

text \<open>
  What the callers of the ring see, the sequence of calls and returns with their arguments and values,
  is a sequence that a queue with atomic operations could have produced: an enqueue takes effect when
  its tail is published, a dequeue when its head is moved, an answer of zero when the tail of the other
  side is read, each between its call and its return. This is why \<open>KT_Delivery\<close> may treat a call on a
  ring as one step.
\<close>

subsection \<open>Specification\<close>

text \<open>
  The queue, the number of places that threads hold (committed and not yet appended, taken and not yet
  released), and where each thread is: \<open>Enq\<close> and \<open>Deq\<close> are calls that have not taken effect,
  \<open>Committed\<close> has its places, \<open>Taken\<close> has its elements and still their places, \<open>Answer\<close> and
  \<open>Result\<close> will return the given value. Calls and returns are visible; the effects are internal.
\<close>

datatype lin_op =
    Idle
  | Enq "u64 list"
  | Committed "u64 list"
  | Answer nat
  | Deq u32
  | Taken "u64 list"
  | Result "u64 list"

record lin_queue =
  lq_items :: "u64 list"
  lq_transit :: nat
  lq_ops :: "nat \<Rightarrow> lin_op"

inductive lin_step :: "nat \<Rightarrow> lin_queue \<Rightarrow> obs option \<Rightarrow> lin_queue \<Rightarrow> bool" for k where
  l_call_enq: "lq_ops f t = Idle \<Longrightarrow>
    lin_step k f (Some (CallEnq t xs)) (f\<lparr>lq_ops := (lq_ops f)(t := Enq xs)\<rparr>)"
| l_refuse: "lq_ops f t = Enq xs \<Longrightarrow> xs = [] \<or> length (lq_items f) + lq_transit f = k \<Longrightarrow>
    lin_step k f None (f\<lparr>lq_ops := (lq_ops f)(t := Answer 0)\<rparr>)"
| l_commit: "lq_ops f t = Enq xs \<Longrightarrow> 0 < n \<Longrightarrow> n \<le> length xs \<Longrightarrow> length (lq_items f) + lq_transit f + n \<le> k \<Longrightarrow>
    lin_step k f None (f\<lparr>lq_transit := lq_transit f + n, lq_ops := (lq_ops f)(t := Committed (take n xs))\<rparr>)"
| l_enq: "lq_ops f t = Committed xs \<Longrightarrow>
    lin_step k f None (f\<lparr>lq_items := lq_items f @ xs, lq_transit := lq_transit f - length xs,
      lq_ops := (lq_ops f)(t := Answer (length xs))\<rparr>)"
| l_ret_enq: "lq_ops f t = Answer n \<Longrightarrow>
    lin_step k f (Some (RetEnq t n)) (f\<lparr>lq_ops := (lq_ops f)(t := Idle)\<rparr>)"
| l_call_deq: "lq_ops f t = Idle \<Longrightarrow>
    lin_step k f (Some (CallDeq t mx)) (f\<lparr>lq_ops := (lq_ops f)(t := Deq mx)\<rparr>)"
| l_empty: "lq_ops f t = Deq mx \<Longrightarrow> mx = 0 \<or> lq_items f = [] \<Longrightarrow>
    lin_step k f None (f\<lparr>lq_ops := (lq_ops f)(t := Result [])\<rparr>)"
| l_deq: "lq_ops f t = Deq mx \<Longrightarrow> 0 < n \<Longrightarrow> n \<le> unat mx \<Longrightarrow> n \<le> length (lq_items f) \<Longrightarrow>
    lin_step k f None (f\<lparr>lq_items := drop n (lq_items f), lq_transit := lq_transit f + n,
      lq_ops := (lq_ops f)(t := Taken (take n (lq_items f)))\<rparr>)"
| l_release: "lq_ops f t = Taken out \<Longrightarrow>
    lin_step k f None (f\<lparr>lq_transit := lq_transit f - length out, lq_ops := (lq_ops f)(t := Result out)\<rparr>)"
| l_ret_deq: "lq_ops f t = Result out \<Longrightarrow>
    lin_step k f (Some (RetDeq t out)) (f\<lparr>lq_ops := (lq_ops f)(t := Idle)\<rparr>)"

definition empty_queue :: lin_queue where
  "empty_queue = \<lparr>lq_items = [], lq_transit = 0, lq_ops = (\<lambda>_. Idle)\<rparr>"

text \<open>
  What such a trace can contain: an element that a dequeue returns was offered by an earlier call.
\<close>

fun offered :: "obs \<Rightarrow> u64 set" where
  "offered (CallEnq t xs) = set xs"
| "offered l = {}"

fun returned :: "obs \<Rightarrow> u64 set" where
  "returned (RetDeq t out) = set out"
| "returned l = {}"

fun op_elems :: "lin_op \<Rightarrow> u64 set" where
  "op_elems (Enq xs) = set xs"
| "op_elems (Committed xs) = set xs"
| "op_elems (Taken out) = set out"
| "op_elems (Result out) = set out"
| "op_elems p = {}"

definition elems_from :: "u64 set \<Rightarrow> lin_queue \<Rightarrow> bool" where
  "elems_from A f \<longleftrightarrow> set (lq_items f) \<subseteq> A \<and> (\<forall>t. op_elems (lq_ops f t) \<subseteq> A)"

lemma elems_from_step:
  assumes "lin_step k f l f'" "elems_from A f"
  shows "elems_from (A \<union> (case l of None \<Rightarrow> {} | Some x \<Rightarrow> offered x)) f' \<and>
    (\<forall>x. l = Some x \<longrightarrow> returned x \<subseteq> A)"
proof -
  have ops: "lq_ops f t = p \<Longrightarrow> op_elems p \<subseteq> A" for t p using assms(2) by (auto simp: elems_from_def)
  from assms(1) show ?thesis
    by (cases; use assms(2) in \<open>auto simp: elems_from_def dest!: in_set_takeD in_set_dropD ops\<close>)
qed

lemma lin_trace_values:
  "run_trace (lin_step k) empty_queue tr f \<Longrightarrow> i < length tr \<Longrightarrow> returned (tr ! i) \<subseteq> \<Union> (offered ` set (take i tr))"
proof -
  assume "run_trace (lin_step k) empty_queue tr f"
  then have "elems_from (\<Union> (offered ` set tr)) f \<and> (\<forall>i < length tr. returned (tr ! i) \<subseteq> \<Union> (offered ` set (take i tr)))"
  proof (induction rule: run_trace.induct)
    case run_start
    then show ?case by (simp add: elems_from_def empty_queue_def)
  next
    case (run_hidden tr f1 f2)
    then show ?case using elems_from_step [OF run_hidden(2)] by auto
  next
    case (run_visible tr f1 l f2)
    note e = elems_from_step [OF run_visible(2)]
    have "elems_from (\<Union> (offered ` set (tr @ [l]))) f2" using e [of "\<Union> (offered ` set tr)"] run_visible.IH by (simp add: Un_commute)
    moreover have "returned l \<subseteq> \<Union> (offered ` set tr)" using e run_visible.IH by simp
    ultimately show ?case using run_visible.IH by (auto simp: nth_append less_Suc_eq)
  qed
  then show "i < length tr \<Longrightarrow> returned (tr ! i) \<subseteq> \<Union> (offered ` set (take i tr))" by blast
qed

subsection \<open>Abstraction\<close>

fun op_of :: "u64 list \<Rightarrow> pc \<Rightarrow> lin_op" where
  "op_of snt Ready = Idle"
| "op_of snt (PCall xs) = Enq xs"
| "op_of snt (PLoaded xs old) = Enq xs"
| "op_of snt (PTried xs old c n) = Enq xs"
| "op_of snt (PWrite xs old j) = Committed xs"
| "op_of snt (PRet n) = Answer n"
| "op_of snt (CCall mx) = Deq mx"
| "op_of snt (CLoaded mx old) = Deq mx"
| "op_of snt (CTried mx old p n) = Deq mx"
| "op_of snt (CRead old n out) = Taken (take n (drop old snt))"
| "op_of snt (CRet out) = Result out"
| "op_of snt Crashed = Idle"

definition queue_of :: "cring \<Rightarrow> lin_queue" where
  "queue_of s = \<lparr>lq_items = take (pt s - ch s) (drop (ch s) (sent s)), lq_transit = (ph s - pt s) + (ch s - ct s),
     lq_ops = (\<lambda>t. op_of (sent s) (pcs s t))\<rparr>"

subsection \<open>Simulation\<close>

lemma queue_set_pc: "queue_of (set_pc t p s) = (queue_of s)\<lparr>lq_ops := (lq_ops (queue_of s))(t := op_of (sent s) p)\<rparr>"
  by (simp add: queue_of_def fun_eq_iff)

lemma queue_ghosts [simp]: "queue_of (ghosts a b s) = queue_of s"
  by (simp add: queue_of_def)

lemma queue_items_length: "counters_ok s \<Longrightarrow> length (lq_items (queue_of s)) = pt s - ch s"
  by (auto simp: queue_of_def counters_ok_def)

lemma queue_fill: "counters_ok s \<Longrightarrow> length (lq_items (queue_of s)) + lq_transit (queue_of s) = ph s - ct s"
  using queue_items_length [of s] by (simp add: queue_of_def counters_ok_def)

lemma op_at: "lq_ops (queue_of s) t = op_of (sent s) (pcs s t)"
  by (simp add: queue_of_def)

lemma same_op: "op_of (sent s) p = op_of (sent s) (pcs s t) \<Longrightarrow> queue_of (set_pc t p s) = queue_of s"
  by (simp add: queue_set_pc op_at [symmetric])

lemma cap_word: "is_pow2 sz \<Longrightarrow> w32 (unat sz - 1) = sz - 1"
  using of_unat_eq [OF pow2_unat_minus_1 [of sz]] by simp

lemma zero_places:
  assumes ok: "counters_ok s" and pc: "thread_ok s (PLoaded xs old)" and aw: "ct s + cap s < old + 2 ^ 32"
    and z: "fst (prod_attempt (cr_size s - 1) (w32 (length xs)) KT_RB_BEHAVIOR_VARIABLE (w32 old) (w32 (ct s))) = 0"
  shows "xs = [] \<or> ph s - ct s = cap s"
proof (cases "w32 (length xs) = 0")
  case True
  have "unat (w32 (length xs)) = length xs" using pc by (intro unat_of_nat_u32) auto
  then show ?thesis using True by simp
next
  case False
  then have "cr_size s - 1 - (w32 old - w32 (ct s)) = 0"
    using z by (simp add: prod_attempt_def Let_def split: if_splits)
  moreover have "w32 (cap s) = cr_size s - 1" using ok by (intro cap_word) (simp add: counters_ok_def)
  ultimately have "w32 old - w32 (ct s) = w32 (cap s)" by simp
  then have "w32 old = w32 (ct s + cap s)" by (metis diff_add_cancel add.commute of_nat_add)
  then have "old = ct s + cap s" using w32_eq [of old "ct s + cap s"] pc aw by simp
  then have "ph s = ct s + cap s" using pc ok by (auto simp: counters_ok_def)
  then show ?thesis by simp
qed

lemma zero_elements:
  assumes ok: "counters_ok s" and pc: "thread_ok s (CLoaded mx old)" and aw: "ct s + cap s < old + 2 ^ 32"
    and z: "fst (cons_attempt mx KT_RB_BEHAVIOR_VARIABLE (w32 old) (w32 (pt s))) = 0"
  shows "mx = 0 \<or> pt s = ch s"
proof (cases "mx = 0")
  case False
  then have "w32 old = w32 (pt s)" using z by (simp add: cons_attempt_def Let_def split: if_splits)
  then have "old = pt s" using w32_eq [of old "pt s"] pc aw ok by (simp add: counters_ok_def)
  then show ?thesis using pc ok by (simp add: counters_ok_def)
qed simp

text \<open>One lemma for each step that is not local to a thread.\<close>

lemma lin_commit:
  assumes inv: "conc_inv s" and pc: "pcs s t = PTried xs old c n" and cas: "w32 (ph s) = w32 old" "ph s < old + 2 ^ 32"
  shows "lin_step (cap s) (queue_of s) None (queue_of (set_pc t (PWrite (take (unat n) xs) old 0)
      (s\<lparr>ph := ph s + unat n, sent := sent s @ take (unat n) xs\<rparr>)))" (is "lin_step _ _ _ (queue_of ?s)")
proof -
  note i = conc_invD [OF inv]
  have ok: "thread_ok s (PTried xs old c n)" unfolding pc [symmetric] by (rule i(3))
  note b = p_cas_bound [OF i(1) ok cas]
  have cnt: "length (sent s) = ph s" "ct s \<le> ch s" "ch s \<le> pt s" "pt s \<le> ph s" using i(1) by (auto simp: counters_ok_def)
  have "op_of (sent s @ ys) (pcs s u) = op_of (sent s) (pcs s u)" for u ys
    using i(3) [of u] cnt by (cases "pcs s u") auto
  then have "queue_of ?s = (queue_of s)\<lparr>lq_transit := lq_transit (queue_of s) + unat n,
      lq_ops := (lq_ops (queue_of s))(t := Committed (take (unat n) xs))\<rparr>"
    using cnt by (simp add: queue_of_def fun_eq_iff)
  moreover have "lq_ops (queue_of s) t = Enq xs" by (simp add: op_at pc)
  moreover have "length (lq_items (queue_of s)) + lq_transit (queue_of s) + unat n \<le> cap s"
    using queue_fill [OF i(1)] b(4) cnt by simp
  ultimately show ?thesis using l_commit b(2,3) by metis
qed

lemma lin_enq:
  assumes inv: "conc_inv s" and pc: "pcs s t = PWrite xs old (length xs)" and eq: "w32 (pt s) = w32 old"
  shows "lin_step (cap s) (queue_of s) None (queue_of (set_pc t (PRet (length xs)) (s\<lparr>pt := pt s + length xs\<rparr>)))" (is "lin_step _ _ _ (queue_of ?s)")
proof -
  note i = conc_invD [OF inv]
  have ok: "thread_ok s (PWrite xs old (length xs))" unfolding pc [symmetric] by (rule i(3))
  have cnt: "length (sent s) = ph s" "ct s \<le> ch s" "ch s \<le> pt s" "pt s \<le> ph s" "ph s \<le> ct s + cap s"
    using i(1) by (auto simp: counters_ok_def)
  note old = p_done_at [OF inv ok eq]
  have "take (pt s + length xs - ch s) (drop (ch s) (sent s)) = take (pt s - ch s) (drop (ch s) (sent s)) @ xs"
    using ok cnt old take_add [of "pt s - ch s" "length xs" "drop (ch s) (sent s)"] by simp
  then have "queue_of ?s = (queue_of s)\<lparr>lq_items := lq_items (queue_of s) @ xs,
      lq_transit := lq_transit (queue_of s) - length xs, lq_ops := (lq_ops (queue_of s))(t := Answer (length xs))\<rparr>"
    using ok old cnt by (simp add: queue_of_def fun_eq_iff)
  moreover have "lq_ops (queue_of s) t = Committed xs" by (simp add: op_at pc)
  ultimately show ?thesis using l_enq by metis
qed

lemma lin_deq:
  assumes inv: "conc_inv s" and pc: "pcs s t = CTried mx old p n" and cas: "w32 (ch s) = w32 old" "ch s < old + 2 ^ 32"
  shows "lin_step (cap s) (queue_of s) None (queue_of (set_pc t (CRead old (unat n) []) (s\<lparr>ch := ch s + unat n\<rparr>)))"
    (is "lin_step _ _ _ (queue_of ?s)")
proof -
  note i = conc_invD [OF inv]
  have ok: "thread_ok s (CTried mx old p n)" unfolding pc [symmetric] by (rule i(3))
  note b = c_cas_bound [OF i(1) ok cas]
  have cnt: "length (sent s) = ph s" "ct s \<le> ch s" "pt s \<le> ph s" using i(1) by (auto simp: counters_ok_def)
  have n: "unat n \<le> unat mx"
    using ok by (auto simp: cons_attempt_variable unat_min)
  have "queue_of ?s = (queue_of s)\<lparr>lq_items := drop (unat n) (lq_items (queue_of s)),
      lq_transit := lq_transit (queue_of s) + unat n,
      lq_ops := (lq_ops (queue_of s))(t := Taken (take (unat n) (lq_items (queue_of s))))\<rparr>"
    using b cnt by (auto simp: queue_of_def fun_eq_iff drop_take min_def algebra_simps)
  moreover have "lq_ops (queue_of s) t = Deq mx" by (simp add: op_at pc)
  moreover have "unat n \<le> length (lq_items (queue_of s))" using queue_items_length [OF i(1)] b(3) by simp
  ultimately show ?thesis using l_deq b(2) n by metis
qed

lemma lin_release:
  assumes inv: "conc_inv s" and pc: "pcs s t = CRead old n out" and n: "length out = n" and eq: "w32 (ct s) = w32 old"
  shows "lin_step (cap s) (queue_of s) None (queue_of (set_pc t (CRet out) (s\<lparr>ct := ct s + n, dq_log := dq_log s @ [out]\<rparr>)))"
    (is "lin_step _ _ _ (queue_of ?s)")
proof -
  note i = conc_invD [OF inv]
  have ok: "thread_ok s (CRead old n out)" unfolding pc [symmetric] by (rule i(3))
  have cnt: "ct s \<le> ch s" "ch s \<le> pt s" "pt s \<le> ph s" "ph s \<le> ct s + cap s" using i(1) by (auto simp: counters_ok_def)
  note old = c_done_at [OF inv ok eq]
  have "queue_of ?s = (queue_of s)\<lparr>lq_transit := lq_transit (queue_of s) - length out,
      lq_ops := (lq_ops (queue_of s))(t := Result out)\<rparr>"
    using ok old cnt n by (simp add: queue_of_def fun_eq_iff)
  moreover have "lq_ops (queue_of s) t = Taken out" using ok n by (simp add: op_at pc)
  ultimately show ?thesis using l_release by metis
qed

lemma lin_try_enqueue:
  assumes inv: "conc_inv s" and pc: "pcs s t = PLoaded xs old" and ns: "\<not> stale s old"
  shows "queue_of (set_pc t (try_enqueue s xs old) s) = queue_of s \<or>
    lin_step (cap s) (queue_of s) None (queue_of (set_pc t (try_enqueue s xs old) s))"
proof (cases "try_enqueue s xs old = PRet 0")
  case True
  note i = conc_invD [OF inv]
  have "thread_ok s (PLoaded xs old)" using i(3) [of t] pc by simp
  then have "xs = [] \<or> ph s - ct s = cap s"
    using zero_places [OF i(1) _ fresh_head(3) [OF i(1) ns]] True by (auto simp: try_enqueue_def Let_def split: if_splits)
  then show ?thesis using True pc queue_fill [OF i(1)] l_refuse [of "queue_of s" t xs "cap s"]
    by (auto simp: queue_set_pc op_at)
next
  case False
  then have "op_of (sent s) (try_enqueue s xs old) = Enq xs" by (auto simp: try_enqueue_def Let_def)
  then show ?thesis using pc by (simp add: same_op)
qed

lemma lin_try_dequeue:
  assumes inv: "conc_inv s" and pc: "pcs s t = CLoaded mx old" and ns: "\<not> stale s old"
  shows "queue_of (set_pc t (try_dequeue s mx old) s) = queue_of s \<or>
    lin_step (cap s) (queue_of s) None (queue_of (set_pc t (try_dequeue s mx old) s))"
proof (cases "try_dequeue s mx old = CRet []")
  case True
  note i = conc_invD [OF inv]
  have "thread_ok s (CLoaded mx old)" using i(3) [of t] pc by simp
  then have "mx = 0 \<or> pt s = ch s"
    using zero_elements [OF i(1) _ fresh_head(3) [OF i(1) ns]] True by (auto simp: try_dequeue_def Let_def split: if_splits)
  then show ?thesis using True pc queue_items_length [OF i(1)] l_empty [of "queue_of s" t mx "cap s"]
    by (auto simp: queue_set_pc op_at)
next
  case False
  then have "op_of (sent s) (try_dequeue s mx old) = Deq mx" by (auto simp: try_dequeue_def Let_def)
  then show ?thesis using pc by (simp add: same_op)
qed

lemma conc_step_simulates:
  assumes inv: "conc_inv s" and step: "conc_step t s l s'" and good: "cr_crossed s' = 0" "cr_stale s' = 0"
  shows "l = None \<and> queue_of s' = queue_of s \<or> lin_step (cap s) (queue_of s) l (queue_of s')"
proof -
  note i = conc_invD [OF inv]
  from step show ?thesis
  proof cases
    case (p_call xs)
    then show ?thesis by (simp add: queue_set_pc l_call_enq op_at)
  next
    case (p_try xs old)
    then have "\<not> stale s old" using good by (auto simp: note_ghosts split: if_splits)
    from lin_try_enqueue [OF inv p_try(3) this] show ?thesis using p_try by (simp add: note_ghosts)
  next
    case (p_cas xs old c n)
    then have "\<not> stale s old" using good by (auto simp: note_ghosts split: if_splits)
    from lin_commit [OF inv p_cas(3,4) fresh_head(1) [OF i(1) this]] show ?thesis using p_cas by (simp add: note_ghosts)
  next
    case (p_write xs old j)
    have "thread_ok s (PWrite xs old j)" unfolding p_write(3) [symmetric] by (rule i(3))
    from write_elem_inside [OF i(1) this p_write(4)] show ?thesis using p_write by (simp add: queue_of_def fun_eq_iff)
  next
    case (p_done xs old)
    show ?thesis using lin_enq [OF inv p_done(3,4)] p_done by simp
  next
    case (p_ret n)
    then show ?thesis by (simp add: queue_set_pc l_ret_enq op_at)
  next
    case (c_call mx)
    then show ?thesis by (simp add: queue_set_pc l_call_deq op_at)
  next
    case (c_try mx old)
    then have "\<not> stale s old" using good by (auto simp: note_ghosts split: if_splits)
    from lin_try_dequeue [OF inv c_try(3) this] show ?thesis using c_try by (simp add: note_ghosts)
  next
    case (c_cas mx old p n)
    then have "\<not> stale s old" using good by (auto simp: note_ghosts split: if_splits)
    from lin_deq [OF inv c_cas(3,4) fresh_head(2) [OF i(1) this]] show ?thesis using c_cas by (simp add: note_ghosts)
  next
    case (c_read old n out)
    have "thread_ok s (CRead old n out)" unfolding c_read(3) [symmetric] by (rule i(3))
    from read_elem_inside [OF i(1) this c_read(4)] show ?thesis using c_read by (simp add: same_op)
  next
    case (c_done old n out)
    show ?thesis using lin_release [OF inv c_done(3-5)] c_done by simp
  next
    case (c_ret out)
    then show ?thesis by (simp add: queue_set_pc l_ret_deq op_at)
  qed (simp_all add: same_op)
qed

interpretation lin: trace_refinement ring_step "\<lambda>s. conc_inv s \<and> tiles_ok s \<and> cr_size s = sz"
  "\<lambda>s. cr_crossed s = 0 \<and> cr_stale s = 0" "lin_step (unat sz - 1)" queue_of for sz
proof unfold_locales
  fix s l s' assume a: "conc_inv s \<and> tiles_ok s \<and> cr_size s = sz" "ring_step s l s'" "cr_crossed s' = 0 \<and> cr_stale s' = 0"
  then show "l = None \<and> queue_of s' = queue_of s \<or> lin_step (unat sz - 1) (queue_of s) l (queue_of s')"
    unfolding ring_step_def using conc_step_simulates by blast
qed

text \<open>
  C4. The concurrent ring is linearizable: on a fresh ring of power-of-two size, whatever any number of
  threads observe, interleaved load by load and store by store (their calls with arguments, and every
  returned count and every returned list of elements, in the order they happen), is a trace of a
  bounded queue whose operations take effect at one instant between call and return. An enqueue
  appends a non-empty prefix of its elements and answers its length; a dequeue takes a non-empty
  prefix of the queue and returns exactly this; zero is answered to an enqueue only when it is for
  nothing or all size - 1 places are filled or in the hands of threads, and to a dequeue only when it
  is for nothing or the queue is empty. Hypotheses: no thread has decided on a head it loaded about
  \<open>2 ^ 32\<close> elements ago, and no reservation has crossed the end of the array, which is so at
  least when every call is for one element.
\<close>

theorem conc_ring_linearizable:
  assumes "is_pow2 sz" "unat sz \<le> length block" "run_trace ring_step (conc_init sz block) tr s"
    and "cr_crossed s = 0 \<or> list_all single_call tr" "cr_stale s = 0"
  shows "run_trace (lin_step (unat sz - 1)) empty_queue tr (queue_of s)"
proof -
  have "cr_crossed s = 0" using assms(4) single_calls_never_cross [OF assms(1,3)] by blast
  moreover have "queue_of (conc_init sz block) = empty_queue"
    by (simp add: queue_of_def conc_init_def empty_queue_def)
  ultimately show ?thesis using lin.run_refines [OF assms(3) fresh_ring_inv [OF assms(1,2)]] assms(5) by simp
qed

theorem conc_ring_linearizable_witness:
  "\<exists>s. conc_run example_schedule (conc_init 4 [0, 0, 0, 0]) = Some (example_trace, s) \<and>
     RetDeq 2 [8, 9, 7] \<in> set example_trace \<and> run_trace (lin_step 3) empty_queue example_trace (queue_of s)"
proof -
  obtain s where s: "conc_run example_schedule (conc_init 4 [0, 0, 0, 0]) = Some (example_trace, s)"
      "cr_crossed s = 0" "cr_stale s = 0"
    using example_run by blast
  from conc_ring_linearizable [OF _ _ conc_run_trace [OF s(1)] _ s(3)] s(2)
  have "run_trace (lin_step 3) empty_queue example_trace (queue_of s)" by simp
  then show ?thesis using s by (intro exI [of _ s]) (simp add: example_trace_def)
qed

end
