(* ===== verification/KT_Queue.thy ===== *)
theory KT_Queue
  imports KT_Interfaces
begin

section \<open>The deadline queue (\<open>src/src/kt_queue.c\<close>)\<close>

text \<open>
  The array-backed min-heap that orders pending packets by transmission time. The model
  keeps the C structure: the \<open>malloc\<close>ed block is a list, \<open>cap\<close> and \<open>size\<close> are the
  two counters, and every access goes through the bounds-checked \<open>arr_get\<close> and
  \<open>arr_set\<close>, so that a read or write outside the block is the fault \<open>OutOfBounds\<close>.
  Priorities are \<open>i64\<close> values (\<open>int\<close>s in range), data words are the \<open>void *\<close>
  payloads (mbuf indices). Indices are \<open>size_t\<close> values that the helpers convert to
  \<open>int\<close>; a value that does not fit is a fault.

  Shown here: \<open>insert\<close> and \<open>decrease_key\<close> (sift-up) keep the heap and add exactly the
  new node; \<open>extract_min\<close> removes exactly the root and never leaves the block; the
  sift-down of \<open>extract_min\<close> keeps the heap order for queues of at most two nodes but
  not in general.
\<close>

subsection \<open>Data\<close>

record kt_pq_node =
  prio :: int
  data :: u64

record kt_prio_queue =
  elems :: "kt_pq_node list"
  pq_cap :: nat
  pq_size :: nat

subsection \<open>Operations\<close>

text \<open>
  \<open>block\<close> is what \<open>malloc\<close> returned: \<open>cap\<close> nodes with arbitrary contents, or no node
  at all when the allocation failed (the code does not test the pointer).
\<close>

definition kt_prio_queue_init :: "nat \<Rightarrow> kt_pq_node list \<Rightarrow> kt_prio_queue" where
  "kt_prio_queue_init cap block = \<lparr>elems = block, pq_cap = cap, pq_size = 0\<rparr>"

definition kt_prio_queue_is_empty :: "kt_prio_queue \<Rightarrow> int" where
  "kt_prio_queue_is_empty q = (if pq_size q = 0 then 1 else 0)"

definition kt_prio_queue_swap :: "kt_prio_queue \<Rightarrow> nat \<Rightarrow> nat \<Rightarrow> kt_prio_queue res" where
  "kt_prio_queue_swap q x y =
     rbind (arr_get (elems q) x) (\<lambda>tmp.
     rbind (arr_get (elems q) y) (\<lambda>vy.
     rbind (arr_set (elems q) x vy) (\<lambda>es.
     rbind (arr_set es y tmp) (\<lambda>es'.
     Inr (q\<lparr>elems := es'\<rparr>)))))"

text \<open>C's integer division truncates, so the parent of index 0 is 0.\<close>

definition kt_prio_queue_parent :: "int \<Rightarrow> nat" where
  "kt_prio_queue_parent i = nat ((i - 1) sdiv 2)"

definition kt_prio_queue_left :: "int \<Rightarrow> nat res" where
  "kt_prio_queue_left i = rbind (int_checked (2 * i + 1)) (\<lambda>j. Inr (nat j))"

definition kt_prio_queue_right :: "int \<Rightarrow> nat res" where
  "kt_prio_queue_right i = rbind (int_checked (2 * i + 2)) (\<lambda>j. Inr (nat j))"

definition kt_prio_queue_getmin :: "kt_prio_queue \<Rightarrow> int res" where
  "kt_prio_queue_getmin q = rbind (arr_get (elems q) 0) (\<lambda>m. Inr (prio m))"

text \<open>
  The sift-up loop. \<open>meta\<close> and \<open>parent\<close> are addresses, read only by the loop test,
  which C evaluates left to right.
\<close>

lemma parent_int: "kt_prio_queue_parent (int k) = (k - 1) div 2"
proof (cases k)
  case (Suc j)
  then show ?thesis
    by (simp add: kt_prio_queue_parent_def signed_divide_int_def sgn_if nat_div_distrib)
qed (simp add: kt_prio_queue_parent_def signed_divide_int_def)

lemma parent_less [simp]: "0 < i \<Longrightarrow> kt_prio_queue_parent i < nat i"
  using parent_int [of "nat i"] by simp

function kt_prio_queue_reorder :: "kt_prio_queue \<Rightarrow> int \<Rightarrow> kt_prio_queue res" where
  "kt_prio_queue_reorder q i =
     (if 0 < i then
        rbind (arr_get (elems q) (nat i)) (\<lambda>meta.
        rbind (arr_get (elems q) (kt_prio_queue_parent i)) (\<lambda>parent.
        if prio meta < prio parent then
          (case kt_prio_queue_swap q (nat i) (kt_prio_queue_parent i) of
             Inl e \<Rightarrow> Inl e
           | Inr q' \<Rightarrow> kt_prio_queue_reorder q' (int (kt_prio_queue_parent i)))
        else Inr q))
      else Inr q)"
  by pat_completeness auto
termination
  by (relation "measure (\<lambda>(q, i). nat i)") auto

declare kt_prio_queue_reorder.simps [simp del]

definition kt_prio_queue_decrease_key ::
  "kt_prio_queue \<Rightarrow> nat \<Rightarrow> int \<Rightarrow> kt_prio_queue res" where
  "kt_prio_queue_decrease_key q i new_val =
     rbind (arr_get (elems q) i) (\<lambda>e.
     if prio e < new_val then Inr q
     else
       rbind (arr_set (elems q) i (e\<lparr>prio := new_val\<rparr>)) (\<lambda>es.
       rbind (int_of_size i) (\<lambda>i'.
       kt_prio_queue_reorder (q\<lparr>elems := es\<rparr>) i')))"

definition kt_prio_queue_insert ::
  "kt_prio_queue \<Rightarrow> int \<Rightarrow> u64 \<Rightarrow> (kt_prio_queue \<times> int) res" where
  "kt_prio_queue_insert q p d =
     (if pq_size q = pq_cap q then Inr (q, - 1)
      else
        rbind (arr_set (elems q) (pq_size q) \<lparr>prio = INT64_MAX, data = d\<rparr>) (\<lambda>es.
        rbind (kt_prio_queue_decrease_key
                 (q\<lparr>elems := es, pq_size := pq_size q + 1\<rparr>) (pq_size q) p) (\<lambda>q'.
        Inr (q', 0))))"

text \<open>
  The sift-down step. The second \<open>else\<close> branch resets \<open>min_idx\<close> to \<open>i\<close>, exactly as
  the source has it.
\<close>

definition heapify_min_idx :: "kt_prio_queue \<Rightarrow> nat \<Rightarrow> nat res" where
  "heapify_min_idx q i =
     rbind (int_of_size i) (\<lambda>ii.
     rbind (kt_prio_queue_left ii) (\<lambda>left.
     rbind (kt_prio_queue_right ii) (\<lambda>right.
     rbind (if left < pq_size q
            then rbind (arr_get (elems q) left) (\<lambda>l.
                 rbind (arr_get (elems q) i) (\<lambda>m.
                 Inr (if prio l < prio m then left else i)))
            else Inr i) (\<lambda>min_idx.
     if right < pq_size q
     then rbind (arr_get (elems q) right) (\<lambda>r.
          rbind (arr_get (elems q) min_idx) (\<lambda>m.
          Inr (if prio r < prio m then right else i)))
     else Inr i))))"

lemma heapify_min_idx_cases:
  assumes "heapify_min_idx q i = Inr m" and "m \<noteq> i"
  shows "i < m" and "m < pq_size q" and "m = 2 * i + 2"
  using assms
  by (auto simp: heapify_min_idx_def rbind_eq_Inr int_of_size_def kt_prio_queue_left_def
      kt_prio_queue_right_def int_checked_def nat_add_distrib nat_mult_distrib split: if_splits)

function kt_prio_queue_heapify :: "kt_prio_queue \<Rightarrow> nat \<Rightarrow> kt_prio_queue res" where
  "kt_prio_queue_heapify q i =
     (case heapify_min_idx q i of
        Inl e \<Rightarrow> Inl e
      | Inr min_idx \<Rightarrow>
          if min_idx \<noteq> i then
            (case kt_prio_queue_swap q i min_idx of
               Inl e \<Rightarrow> Inl e
             | Inr q' \<Rightarrow> kt_prio_queue_heapify q' min_idx)
          else Inr q)"
  by pat_completeness auto
termination
proof (relation "measure (\<lambda>(q, i). pq_size q - i)", goal_cases)
  case 1
  show ?case by simp
next
  case (2 q i m q')
  have "pq_size q' = pq_size q"
    using 2(3) by (auto simp: kt_prio_queue_swap_def rbind_eq_Inr)
  moreover have "i < m" "m < pq_size q"
    using heapify_min_idx_cases [OF 2(1,2)] by auto
  ultimately show ?case by simp
qed

declare kt_prio_queue_heapify.simps [simp del]

text \<open>
  \<open>want\<close> says whether the out-parameter \<open>data\<close> is not \<open>NULL\<close>; the last component is
  what is stored through it. The queue is returned with the C result code.
\<close>

definition kt_prio_queue_extract_min ::
  "kt_prio_queue \<Rightarrow> bool \<Rightarrow> (kt_prio_queue \<times> int \<times> u64 option) res" where
  "kt_prio_queue_extract_min q want =
     (if pq_size q = 0 then Inr (q, - 1, None)
      else
        rbind (arr_get (elems q) 0) (\<lambda>m.
        rbind (arr_get (elems q) (pq_size q - 1)) (\<lambda>l.
        rbind (arr_set (elems q) 0 l) (\<lambda>es.
        rbind (kt_prio_queue_heapify (q\<lparr>elems := es, pq_size := pq_size q - 1\<rparr>) 0) (\<lambda>q'.
        Inr (q', 0, if want then Some (data m) else None))))))"

definition kt_prio_queue_delete_key :: "kt_prio_queue \<Rightarrow> nat \<Rightarrow> kt_prio_queue res" where
  "kt_prio_queue_delete_key q i =
     rbind (kt_prio_queue_decrease_key q i INT32_MIN) (\<lambda>q1.
     rbind (kt_prio_queue_extract_min q1 True) (\<lambda>(q2, r, d).
     Inr q2))"

subsection \<open>Well-formed queues, their contents and the heap order\<close>

text \<open>
  \<open>pq_wf\<close> is the representation invariant: the block holds \<open>cap\<close> nodes, at most
  \<open>cap\<close> of them are in use, and indices fit the \<open>int\<close> arithmetic of the helpers.
\<close>

definition pq_wf :: "kt_prio_queue \<Rightarrow> bool" where
  "pq_wf q \<longleftrightarrow> length (elems q) = pq_cap q \<and> pq_size q \<le> pq_cap q \<and> pq_cap q < 2 ^ 30"

definition pq_nodes :: "kt_prio_queue \<Rightarrow> kt_pq_node list" where
  "pq_nodes q = take (pq_size q) (elems q)"

definition pq_mset :: "kt_prio_queue \<Rightarrow> kt_pq_node multiset" where
  "pq_mset q = mset (pq_nodes q)"

abbreviation prio_at :: "kt_prio_queue \<Rightarrow> nat \<Rightarrow> int" where
  "prio_at q i \<equiv> prio (elems q ! i)"

definition pq_heap :: "kt_prio_queue \<Rightarrow> bool" where
  "pq_heap q \<longleftrightarrow> (\<forall>j < pq_size q. 0 < j \<longrightarrow> prio_at q ((j - 1) div 2) \<le> prio_at q j)"

text \<open>The heap order with a hole at \<open>k\<close>: what holds while \<open>k\<close> is being sifted up.\<close>

definition pq_heap_up :: "kt_prio_queue \<Rightarrow> nat \<Rightarrow> bool" where
  "pq_heap_up q k \<longleftrightarrow>
     (\<forall>j < pq_size q. 0 < j \<longrightarrow> j \<noteq> k \<longrightarrow> prio_at q ((j - 1) div 2) \<le> prio_at q j) \<and>
     (\<forall>j < pq_size q. 0 < j \<longrightarrow> (j - 1) div 2 = k \<longrightarrow> 0 < k \<longrightarrow>
        prio_at q ((k - 1) div 2) \<le> prio_at q j)"

lemma length_pq_nodes [simp]: "pq_wf q \<Longrightarrow> length (pq_nodes q) = pq_size q"
  by (simp add: pq_nodes_def pq_wf_def)

lemma swap_in_range:
  assumes "x < length (elems q)" "y < length (elems q)"
  shows "kt_prio_queue_swap q x y = Inr (q\<lparr>elems := (elems q)[x := elems q ! y, y := elems q ! x]\<rparr>)"
  using assms by (simp add: kt_prio_queue_swap_def)

lemma pq_mset_swap:
  assumes "pq_wf q" "x < pq_size q" "y < pq_size q"
  shows "pq_mset (q\<lparr>elems := (elems q)[x := elems q ! y, y := elems q ! x]\<rparr>) = pq_mset q"
proof -
  have "take (pq_size q) ((elems q)[x := elems q ! y, y := elems q ! x]) =
    (pq_nodes q)[x := pq_nodes q ! y, y := pq_nodes q ! x]"
    using assms by (simp add: pq_nodes_def take_update_swap)
  then show ?thesis
    using assms by (simp add: pq_mset_def pq_nodes_def [of "elems_update _ _"] mset_swap)
qed

lemma pq_wf_elems_update:
  "pq_wf q \<Longrightarrow> length es = length (elems q) \<Longrightarrow> pq_wf (q\<lparr>elems := es\<rparr>)"
  by (simp add: pq_wf_def)

subsection \<open>Sift-up: \<open>insert\<close> and \<open>decrease_key\<close>\<close>

text \<open>
  One iteration of the loop moves the hole to the parent; the order relations around the
  two swapped nodes are the four cases of the proof.
\<close>

lemma prio_at_swap:
  assumes "pq_wf q" "k < pq_size q" "p < k" "j < pq_size q"
  shows "prio_at (q\<lparr>elems := (elems q)[k := elems q ! p, p := elems q ! k]\<rparr>) j =
    (if j = p then prio_at q k else if j = k then prio_at q p else prio_at q j)"
  using assms by (auto simp: pq_wf_def nth_list_update)

lemma heap_up_swap:
  assumes wf: "pq_wf q" and k: "0 < k" "k < pq_size q" and up: "pq_heap_up q k"
    and less: "prio_at q k < prio_at q ((k - 1) div 2)"
  defines "p \<equiv> (k - 1) div 2"
  shows "pq_heap_up (q\<lparr>elems := (elems q)[k := elems q ! p, p := elems q ! k]\<rparr>) p"
proof -
  let ?q = "q\<lparr>elems := (elems q)[k := elems q ! p, p := elems q ! k]\<rparr>"
  have pk: "p < k" using k by (auto simp: p_def)
  note at = prio_at_swap [OF wf k(2) pk]
  have ord: "prio_at q ((j - 1) div 2) \<le> prio_at q j" if "j < pq_size q" "0 < j" "j \<noteq> k" for j
    using up that by (auto simp: pq_heap_up_def)
  have child: "prio_at q p \<le> prio_at q j" if "j < pq_size q" "0 < j" "(j - 1) div 2 = k" for j
    using up that k by (auto simp: pq_heap_up_def p_def)
  have "prio_at ?q ((j - 1) div 2) \<le> prio_at ?q j" if j: "j < pq_size q" "0 < j" "j \<noteq> p" for j
  proof -
    have pj: "(j - 1) div 2 < pq_size q" using j by auto
    note at' = at [OF j(1)] at [OF pj]
    consider "j = k" | "j \<noteq> k" "(j - 1) div 2 = k" | "j \<noteq> k" "(j - 1) div 2 = p"
      | "j \<noteq> k" "(j - 1) div 2 \<noteq> k" "(j - 1) div 2 \<noteq> p" by blast
    then show ?thesis
    proof cases
      case 1
      then show ?thesis using at' less pk by (simp add: p_def)
    next
      case 2
      then show ?thesis using at' child [OF j(1,2)] j(3) pk by simp
    next
      case 3
      then have "prio_at q p \<le> prio_at q j" using ord [OF j(1,2)] by simp
      then show ?thesis using 3 at' less j(3) by (simp add: p_def)
    next
      case 4
      then show ?thesis using at' ord [OF j(1,2)] j(3) by simp
    qed
  qed
  moreover have "prio_at ?q ((p - 1) div 2) \<le> prio_at ?q j"
    if j: "j < pq_size q" "0 < j" "(j - 1) div 2 = p" "0 < p" for j
  proof -
    have pp: "(p - 1) div 2 < p" and ps: "p < pq_size q" using j k pk by auto
    have gp: "prio_at q ((p - 1) div 2) \<le> prio_at q p"
      using ord [OF ps] j(4) pk by auto
    have jp: "j \<noteq> p" using j by auto
    have "prio_at q p \<le> prio_at q j" if "j \<noteq> k"
      using ord [OF j(1,2) that] j(3) by simp
    then show ?thesis
      using at [OF j(1)] at [of "(p - 1) div 2"] pp ps gp jp by (cases "j = k") auto
  qed
  ultimately show ?thesis by (auto simp: pq_heap_up_def)
qed

lemma heap_up_done:
  assumes "pq_heap_up q k" and "k = 0 \<or> prio_at q ((k - 1) div 2) \<le> prio_at q k"
  shows "pq_heap q"
  using assms by (auto simp: pq_heap_up_def pq_heap_def)

lemma reorder_correct:
  assumes "pq_wf q" "k < pq_size q"
  shows "\<exists>q'. kt_prio_queue_reorder q (int k) = Inr q' \<and> pq_wf q' \<and> pq_mset q' = pq_mset q \<and>
    pq_size q' = pq_size q \<and> pq_cap q' = pq_cap q \<and> (pq_heap_up q k \<longrightarrow> pq_heap q')"
  using assms
proof (induction k arbitrary: q rule: less_induct)
  case (less k)
  let ?p = "(k - 1) div 2"
  have len: "k < length (elems q)" "?p < length (elems q)" "?p < pq_size q"
    using less.prems by (auto simp: pq_wf_def)
  show ?case
  proof (cases "0 < k \<and> prio_at q k < prio_at q ?p")
    case False
    then have "kt_prio_queue_reorder q (int k) = Inr q"
      using len by (auto simp: kt_prio_queue_reorder.simps [of q] parent_int)
    moreover have "pq_heap_up q k \<longrightarrow> pq_heap q"
      using False by (auto intro: heap_up_done)
    ultimately show ?thesis using less.prems by auto
  next
    case True
    let ?q = "q\<lparr>elems := (elems q)[k := elems q ! ?p, ?p := elems q ! k]\<rparr>"
    have step: "kt_prio_queue_reorder q (int k) = kt_prio_queue_reorder ?q (int ?p)"
      using True len by (simp add: kt_prio_queue_reorder.simps [of q] parent_int swap_in_range)
    have wf: "pq_wf ?q" using less.prems by (simp add: pq_wf_elems_update)
    have pk: "?p < k" "?p < pq_size ?q" using True less.prems by auto
    obtain q' where q': "kt_prio_queue_reorder ?q (int ?p) = Inr q'" "pq_wf q'"
      "pq_mset q' = pq_mset ?q" "pq_size q' = pq_size ?q" "pq_cap q' = pq_cap ?q"
      "pq_heap_up ?q ?p \<longrightarrow> pq_heap q'"
      using less.IH [OF pk(1) wf pk(2)] by blast
    have "pq_heap_up q k \<longrightarrow> pq_heap q'"
      using q'(6) heap_up_swap [OF less.prems(1) _ less.prems(2)] True by blast
    then show ?thesis
      using q' step pq_mset_swap [OF less.prems] len by simp
  qed
qed

lemma pq_nodes_set:
  "i < pq_size q \<Longrightarrow> pq_nodes (q\<lparr>elems := (elems q)[i := e]\<rparr>) = (pq_nodes q)[i := e]"
  by (simp add: pq_nodes_def take_update_swap)

lemma decrease_key_correct:
  assumes "pq_wf q" "i < pq_size q" "v \<le> prio_at q i"
  shows "\<exists>q'. kt_prio_queue_decrease_key q i v = Inr q' \<and> pq_wf q' \<and>
    pq_size q' = pq_size q \<and> pq_cap q' = pq_cap q \<and>
    pq_mset q' = add_mset ((elems q ! i)\<lparr>prio := v\<rparr>) (pq_mset q - {#elems q ! i#}) \<and>
    (pq_heap_up (q\<lparr>elems := (elems q)[i := (elems q ! i)\<lparr>prio := v\<rparr>]\<rparr>) i \<longrightarrow> pq_heap q')"
proof -
  let ?q = "q\<lparr>elems := (elems q)[i := (elems q ! i)\<lparr>prio := v\<rparr>]\<rparr>"
  have i: "i < length (elems q)" "i < 2 ^ 31" "i < length (pq_nodes q)" "pq_nodes q ! i = elems q ! i"
    using assms(1,2) by (auto simp: pq_wf_def pq_nodes_def)
  have wf: "pq_wf ?q" using assms(1) by (simp add: pq_wf_elems_update)
  have "kt_prio_queue_decrease_key q i v = kt_prio_queue_reorder ?q (int i)"
    using i assms(3) by (simp add: kt_prio_queue_decrease_key_def)
  moreover have "pq_mset ?q = add_mset ((elems q ! i)\<lparr>prio := v\<rparr>) (pq_mset q - {#elems q ! i#})"
    using i assms(2) by (simp add: pq_mset_def pq_nodes_set mset_update)
  ultimately show ?thesis
    using reorder_correct [OF wf, of i] assms(2) by auto
qed

lemma decrease_key_larger:
  "i < length (elems q) \<Longrightarrow> prio_at q i < v \<Longrightarrow> kt_prio_queue_decrease_key q i v = Inr q"
  by (simp add: kt_prio_queue_decrease_key_def)

lemma heap_up_decreased:
  assumes "pq_wf q" "pq_heap q" "i < pq_size q" "v \<le> prio_at q i"
  shows "pq_heap_up (q\<lparr>elems := (elems q)[i := (elems q ! i)\<lparr>prio := v\<rparr>]\<rparr>) i"
proof -
  have len: "pq_size q \<le> length (elems q)" using assms(1) by (simp add: pq_wf_def)
  have ord: "prio_at q ((j - 1) div 2) \<le> prio_at q j" if "j < pq_size q" "0 < j" for j
    using assms(2) that by (auto simp: pq_heap_def)
  have gp: "prio_at q ((i - 1) div 2) \<le> prio_at q j"
    if "j < pq_size q" "0 < j" "(j - 1) div 2 = i" "0 < i" for j
    using ord [OF that(1,2)] ord [of i] that assms(3) by simp
  have "prio_at q ((j - 1) div 2) \<le> prio_at q j \<Longrightarrow> (j - 1) div 2 = i \<Longrightarrow> v \<le> prio_at q j" for j
    using assms(4) by simp
  then show ?thesis
    using ord gp len assms(3) by (auto simp: pq_heap_up_def nth_list_update)
qed

lemma heap_append:
  assumes "pq_wf q" "pq_heap q" "pq_size q < pq_cap q"
  shows "pq_heap_up (q\<lparr>elems := (elems q)[pq_size q := e], pq_size := pq_size q + 1\<rparr>) (pq_size q)"
  using assms by (auto simp: pq_heap_up_def pq_heap_def pq_wf_def nth_list_update)

lemma insert_correct:
  assumes wf: "pq_wf q" and room: "pq_size q < pq_cap q" and p: "is_i64 p"
  shows "\<exists>q'. kt_prio_queue_insert q p d = Inr (q', 0) \<and> pq_wf q' \<and>
    pq_size q' = pq_size q + 1 \<and> pq_cap q' = pq_cap q \<and>
    pq_mset q' = add_mset \<lparr>prio = p, data = d\<rparr> (pq_mset q) \<and> (pq_heap q \<longrightarrow> pq_heap q')"
proof -
  let ?n = "pq_size q" and ?e = "\<lparr>prio = INT64_MAX, data = d\<rparr>"
  let ?q = "q\<lparr>elems := (elems q)[?n := ?e], pq_size := ?n + 1\<rparr>"
  have n: "?n < length (elems q)" using wf room by (simp add: pq_wf_def)
  have wf1: "pq_wf ?q" using wf room by (simp add: pq_wf_def)
  have at: "elems ?q ! ?n = ?e" using n by simp
  have nodes: "pq_nodes ?q = pq_nodes q @ [?e]"
    using n by (simp add: pq_nodes_def take_Suc_conv_app_nth)
  have again: "?q\<lparr>elems := (elems ?q)[?n := ?e\<lparr>prio := p\<rparr>]\<rparr> =
    q\<lparr>elems := (elems q)[?n := ?e\<lparr>prio := p\<rparr>], pq_size := ?n + 1\<rparr>" by simp
  have "p \<le> prio_at ?q ?n" using p n by (simp add: is_i64_def)
  from decrease_key_correct [OF wf1 _ this] obtain q' where
    q': "kt_prio_queue_decrease_key ?q ?n p = Inr q'" "pq_wf q'" "pq_size q' = ?n + 1"
      "pq_cap q' = pq_cap q" "pq_mset q' = add_mset (?e\<lparr>prio := p\<rparr>) (pq_mset ?q - {#?e#})"
      "pq_heap_up (?q\<lparr>elems := (elems ?q)[?n := ?e\<lparr>prio := p\<rparr>]\<rparr>) ?n \<longrightarrow> pq_heap q'"
    using at by auto
  have "pq_heap q \<longrightarrow> pq_heap q'"
    using q'(6) heap_append [OF wf _ room] unfolding again by blast
  moreover have "pq_mset ?q - {#?e#} = pq_mset q" unfolding pq_mset_def nodes by simp
  moreover have "kt_prio_queue_insert q p d = Inr (q', 0)"
    using q'(1) room n by (simp add: kt_prio_queue_insert_def)
  ultimately show ?thesis using q' by auto
qed

lemma insert_full: "pq_size q = pq_cap q \<Longrightarrow> kt_prio_queue_insert q p d = Inr (q, - 1)"
  by (simp add: kt_prio_queue_insert_def)

subsection \<open>The minimum\<close>

lemma heap_root_le:
  assumes "pq_heap q" "j < pq_size q"
  shows "prio_at q 0 \<le> prio_at q j"
  using assms(2)
proof (induction j rule: less_induct)
  case (less j)
  show ?case
  proof (cases "j = 0")
    case False
    then have "(j - 1) div 2 < j" by auto
    moreover from this have "(j - 1) div 2 < pq_size q" using less.prems by simp
    ultimately have "prio_at q 0 \<le> prio_at q ((j - 1) div 2)" by (rule less.IH)
    also have "\<dots> \<le> prio_at q j" using assms(1) less.prems False by (simp add: pq_heap_def)
    finally show ?thesis .
  qed simp
qed

lemma in_pq_mset: "pq_wf q \<Longrightarrow> x \<in># pq_mset q \<longleftrightarrow> (\<exists>j < pq_size q. x = elems q ! j)"
  by (auto simp: pq_mset_def pq_nodes_def pq_wf_def in_set_conv_nth)

lemma root_in_mset: "pq_wf q \<Longrightarrow> 0 < pq_size q \<Longrightarrow> elems q ! 0 \<in># pq_mset q"
  unfolding in_pq_mset by blast

subsection \<open>Sift-down: \<open>extract_min\<close>\<close>

lemma heapify_min_idx_total:
  assumes "pq_wf q" "i < pq_size q \<or> i = 0"
  shows "\<exists>m. heapify_min_idx q i = Inr m"
  using assms
  by (auto simp: heapify_min_idx_def int_of_size_def kt_prio_queue_left_def
      kt_prio_queue_right_def int_checked_def pq_wf_def rbind_def arr_get_def split: sum.splits)

lemma heapify_correct:
  assumes "pq_wf q" "i < pq_size q \<or> i = 0"
  shows "\<exists>q'. kt_prio_queue_heapify q i = Inr q' \<and> pq_wf q' \<and> pq_mset q' = pq_mset q \<and>
    pq_size q' = pq_size q \<and> pq_cap q' = pq_cap q"
  using assms
proof (induction "pq_size q - i" arbitrary: q i rule: less_induct)
  case less
  obtain m where m: "heapify_min_idx q i = Inr m"
    using heapify_min_idx_total [OF less.prems] by blast
  show ?case
  proof (cases "m = i")
    case True
    then show ?thesis using m less.prems by (simp add: kt_prio_queue_heapify.simps [of q])
  next
    case False
    have im: "i < m" "m < pq_size q" using heapify_min_idx_cases [OF m False] by auto
    let ?q = "q\<lparr>elems := (elems q)[i := elems q ! m, m := elems q ! i]\<rparr>"
    have len: "i < length (elems q)" "m < length (elems q)"
      using im less.prems(1) by (auto simp: pq_wf_def)
    have "kt_prio_queue_heapify q i = kt_prio_queue_heapify ?q m"
      using False m len by (simp add: kt_prio_queue_heapify.simps [of q] swap_in_range)
    moreover have "pq_wf ?q" using less.prems by (simp add: pq_wf_elems_update)
    moreover have "pq_mset ?q = pq_mset q" using pq_mset_swap [OF less.prems(1)] im by simp
    ultimately show ?thesis using less.hyps [of ?q m] im by simp
  qed
qed

lemma mset_take_last_to_front:
  assumes "0 < n" "n \<le> length xs"
  shows "add_mset (xs ! 0) (mset (take (n - 1) (xs[0 := xs ! (n - 1)]))) = mset (take n xs)"
proof (cases "n = 1")
  case True
  then show ?thesis using assms by (cases xs) auto
next
  case False
  define m where "m = n - 2"
  have n: "n = Suc (Suc m)" using assms False by (simp add: m_def)
  obtain y ys where xs: "xs = y # ys" using assms by (cases xs) auto
  have "take (Suc m) ys = take m ys @ [ys ! m]"
    using assms(2) n xs by (simp add: take_Suc_conv_app_nth)
  then show ?thesis using n xs by simp
qed

lemma extract_correct:
  assumes wf: "pq_wf q" and ne: "0 < pq_size q"
  shows "\<exists>q'. kt_prio_queue_extract_min q want =
      Inr (q', 0, if want then Some (data (elems q ! 0)) else None) \<and> pq_wf q' \<and>
    pq_size q' = pq_size q - 1 \<and> pq_cap q' = pq_cap q \<and>
    pq_mset q = add_mset (elems q ! 0) (pq_mset q')"
proof -
  let ?n = "pq_size q"
  let ?q = "q\<lparr>elems := (elems q)[0 := elems q ! (?n - 1)], pq_size := ?n - 1\<rparr>"
  have n: "?n - 1 < length (elems q)" "?n \<le> length (elems q)" "0 < length (elems q)"
    using wf ne by (auto simp: pq_wf_def)
  have wf1: "pq_wf ?q" using wf by (auto simp: pq_wf_def)
  obtain q' where q': "kt_prio_queue_heapify ?q 0 = Inr q'" "pq_wf q'" "pq_mset q' = pq_mset ?q"
      "pq_size q' = ?n - 1" "pq_cap q' = pq_cap q"
    using heapify_correct [OF wf1, of 0] by auto
  have "pq_mset q = add_mset (elems q ! 0) (pq_mset ?q)"
    using mset_take_last_to_front [OF ne n(2)] by (simp add: pq_mset_def pq_nodes_def)
  moreover have "elems q \<noteq> []" using n(3) by auto
  ultimately show ?thesis
    using q' n ne by (auto simp: kt_prio_queue_extract_min_def)
qed

lemma extract_empty:
  "pq_size q = 0 \<Longrightarrow> kt_prio_queue_extract_min q want = Inr (q, - 1, None)"
  by (simp add: kt_prio_queue_extract_min_def)

lemma getmin_correct:
  "pq_wf q \<Longrightarrow> 0 < pq_size q \<Longrightarrow> kt_prio_queue_getmin q = Inr (prio_at q 0)"
  by (cases "elems q") (auto simp: kt_prio_queue_getmin_def pq_wf_def)

text \<open>
  The step taken at the root when the queue is rebuilt: because the second \<open>else\<close> resets
  \<open>min_idx\<close>, a swap happens only with the right child, and only when that child is smaller
  than both the root and the left child.
\<close>

lemma heapify_min_idx_root:
  assumes "pq_wf q" "2 < pq_size q"
  shows "heapify_min_idx q 0 =
    Inr (if prio_at q 2 < min (prio_at q 0) (prio_at q 1) then 2 else 0)"
  using assms
  by (auto simp: heapify_min_idx_def kt_prio_queue_left_def kt_prio_queue_right_def
      int_checked_def pq_wf_def min_def)

lemma heapify_min_idx_root_small:
  assumes "pq_wf q" "pq_size q \<le> 2"
  shows "heapify_min_idx q 0 = Inr 0"
  using assms
  by (cases "elems q") (auto simp: heapify_min_idx_def kt_prio_queue_left_def
      kt_prio_queue_right_def int_checked_def pq_wf_def)

lemma heapify_root_stays:
  assumes "heapify_min_idx q i = Inr i"
  shows "kt_prio_queue_heapify q i = Inr q"
  using assms by (simp add: kt_prio_queue_heapify.simps [of q])

subsection \<open>The queue as a bag of packets\<close>

definition pq_put :: "kt_prio_queue \<Rightarrow> kt_pq_node \<Rightarrow> kt_prio_queue res" where
  "pq_put q n = rbind (kt_prio_queue_insert q (prio n) (data n)) (\<lambda>(q', r). Inr q')"

definition pq_take :: "kt_prio_queue \<Rightarrow> (kt_pq_node \<times> kt_prio_queue) res" where
  "pq_take q =
     rbind (arr_get (elems q) 0) (\<lambda>m.
     rbind (kt_prio_queue_extract_min q True) (\<lambda>(q', r, d). Inr (m, q')))"

interpretation pq: bounded_bag pq_wf pq_mset "\<lambda>q. pq_cap q - pq_size q" "\<lambda>n. is_i64 (prio n)"
  pq_put pq_take
proof (unfold_locales, goal_cases)
  case (1 q x)
  then show ?case
    using insert_correct [of q "prio x" "data x"] by (fastforce simp: pq_put_def)
next
  case (2 q)
  then have ne: "0 < pq_size q" "0 < length (elems q)"
    by (auto simp: pq_mset_def pq_nodes_def pq_wf_def)
  then obtain q' where "kt_prio_queue_extract_min q True = Inr (q', 0, Some (data (elems q ! 0)))"
      "pq_wf q'" "pq_size q' = pq_size q - 1" "pq_cap q' = pq_cap q"
      "pq_mset q = add_mset (elems q ! 0) (pq_mset q')"
    using extract_correct [OF 2(1), of True] by auto
  moreover have "pq_size q \<le> pq_cap q" using 2 by (simp add: pq_wf_def)
  ultimately show ?case using ne by (auto simp: pq_take_def)
qed

lemma init_wf:
  "length block = cap \<Longrightarrow> cap < 2 ^ 30 \<Longrightarrow> pq_wf (kt_prio_queue_init cap block)"
  by (simp add: kt_prio_queue_init_def pq_wf_def)

lemma init_empty [simp]: "pq_mset (kt_prio_queue_init cap block) = {#}"
  by (simp add: kt_prio_queue_init_def pq_mset_def pq_nodes_def)

lemma put_all_heap:
  assumes "pq_wf q" "pq_heap q" "length ns \<le> pq_cap q - pq_size q"
    "list_all (\<lambda>n. is_i64 (prio n)) ns" "rfold pq_put q ns = Inr q'"
  shows "pq_heap q'"
  using assms
proof (induction ns arbitrary: q)
  case (Cons n ns)
  then have "pq_size q < pq_cap q" by simp
  with Cons.prems insert_correct [of q "prio n" "data n"] obtain q1 where
    q1: "pq_put q n = Inr q1" "pq_wf q1" "pq_heap q1" "pq_size q1 = pq_size q + 1"
      "pq_cap q1 = pq_cap q"
    by (auto simp: pq_put_def)
  then show ?case using Cons.IH [OF q1(2,3)] Cons.prems by auto
qed simp

subsection \<open>Properties\<close>

text \<open>
  C13. Filling a fresh queue. For every capacity below \<open>2 ^ 30\<close>, whatever the block from
  \<open>malloc\<close> contains, inserting any list of packets that fits never faults, leaves a queue
  that holds exactly those packets in heap order, and \<open>kt_prio_queue_getmin\<close> then returns
  the least transmission time among them.
\<close>

theorem insert_sequence_min:
  assumes "length block = cap" "cap < 2 ^ 30" "length ns \<le> cap"
    and "list_all (\<lambda>n. is_i64 (prio n)) ns"
  shows "\<exists>q. rfold pq_put (kt_prio_queue_init cap block) ns = Inr q \<and> pq_wf q \<and> pq_heap q \<and>
    pq_mset q = mset ns \<and>
    (ns \<noteq> [] \<longrightarrow> kt_prio_queue_getmin q = Inr (Min (prio ` set ns)))"
proof -
  let ?q0 = "kt_prio_queue_init cap block"
  have wf: "pq_wf ?q0" using assms(1,2) by (rule init_wf)
  have sp: "length ns \<le> pq_cap ?q0 - pq_size ?q0" and h0: "pq_heap ?q0"
    using assms(3) by (simp_all add: kt_prio_queue_init_def pq_heap_def)
  obtain q where q: "rfold pq_put ?q0 ns = Inr q" "pq_wf q" "pq_mset q = mset ns"
    using pq.put_all [OF wf sp assms(4)] by auto
  have h: "pq_heap q" using put_all_heap [OF wf h0 sp assms(4) q(1)] .
  have min: "kt_prio_queue_getmin q = Inr (Min (prio ` set ns))" if "ns \<noteq> []"
  proof -
    have ne: "0 < pq_size q"
      using q(2,3) that by (cases "pq_size q = 0") (auto simp: pq_mset_def pq_nodes_def)
    have "prio_at q 0 = Min (prio ` set ns)"
    proof (rule Min_eqI [symmetric])
      fix p assume "p \<in> prio ` set ns"
      then obtain n where "n \<in># pq_mset q" "p = prio n" using q(3) by auto
      then show "prio_at q 0 \<le> p" using in_pq_mset [OF q(2)] heap_root_le [OF h] by auto
    next
      have "elems q ! 0 \<in># pq_mset q" using root_in_mset [OF q(2) ne] .
      then show "prio_at q 0 \<in> prio ` set ns" using q(3) by auto
    qed simp
    then show ?thesis using getmin_correct [OF q(2) ne] by simp
  qed
  show ?thesis using q h min by blast
qed

abbreviation pkt :: "int \<Rightarrow> u64 \<Rightarrow> kt_pq_node" where
  "pkt p d \<equiv> \<lparr>prio = p, data = d\<rparr>"

theorem insert_sequence_min_witness:
  "\<exists>q. rfold pq_put (kt_prio_queue_init 4 (replicate 4 (pkt 0 0))) [pkt 30 1, pkt 10 2, pkt 20 3] =
      Inr q \<and> pq_wf q \<and> pq_heap q \<and> pq_mset q = mset [pkt 30 1, pkt 10 2, pkt 20 3] \<and>
    kt_prio_queue_getmin q = Inr 10"
  using insert_sequence_min [of "replicate 4 (pkt 0 0)" 4 "[pkt 30 1, pkt 10 2, pkt 20 3]"]
  by (simp add: is_i64_def INT64_MIN_def INT64_MAX_def)

text \<open>
  \<open>kt_prio_queue_insert\<close> on every branch: a full queue is left unchanged with result
  \<open>-1\<close>; otherwise the result is 0, the queue gains exactly the new packet, its size grows by
  one, and the representation invariant and the heap order are kept.
\<close>

theorem insert_branches:
  assumes "pq_wf q" "is_i64 p"
  shows "if pq_size q = pq_cap q then kt_prio_queue_insert q p d = Inr (q, - 1)
    else \<exists>q'. kt_prio_queue_insert q p d = Inr (q', 0) \<and> pq_wf q' \<and> pq_size q' = pq_size q + 1 \<and>
      pq_mset q' = add_mset \<lparr>prio = p, data = d\<rparr> (pq_mset q) \<and> (pq_heap q \<longrightarrow> pq_heap q')"
  using insert_correct [OF assms(1) _ assms(2), of d] insert_full [of q p d] assms(1)
  by (auto simp: pq_wf_def)

theorem insert_branches_witness:
  "\<exists>q'. kt_prio_queue_insert \<lparr>elems = [pkt 5 7, pkt 0 0], pq_cap = 2, pq_size = 1\<rparr> 3 8 =
      Inr (q', 0) \<and> pq_wf q' \<and> pq_size q' = 2 \<and> pq_mset q' = {#pkt 3 8, pkt 5 7#} \<and> pq_heap q'"
proof -
  let ?q = "\<lparr>elems = [pkt 5 7, pkt 0 0], pq_cap = 2, pq_size = 1\<rparr>"
  have "pq_wf ?q" "is_i64 3"
    by (simp_all add: pq_wf_def is_i64_def INT64_MIN_def INT64_MAX_def)
  moreover have "pq_mset ?q = {#pkt 5 7#}" "pq_heap ?q"
    by (simp_all add: pq_mset_def pq_nodes_def pq_heap_def)
  ultimately show ?thesis using insert_branches [of ?q 3 8] by auto
qed

text \<open>
  C26. \<open>kt_prio_queue_extract_min\<close> on every branch: on an empty queue the result is \<open>-1\<close>
  and nothing changes; otherwise the result is 0, the root's data is stored through a
  non-null \<open>data\<close>, and exactly the root leaves the queue. No access leaves the block.
\<close>

theorem extract_min_branches:
  assumes "pq_wf q"
  shows "if pq_size q = 0 then kt_prio_queue_extract_min q want = Inr (q, - 1, None)
    else \<exists>q'. kt_prio_queue_extract_min q want =
        Inr (q', 0, if want then Some (data (elems q ! 0)) else None) \<and> pq_wf q' \<and>
      pq_size q' = pq_size q - 1 \<and> pq_mset q = add_mset (elems q ! 0) (pq_mset q')"
  using extract_correct [OF assms, of want] extract_empty [of q want] by auto

theorem extract_min_branches_witness:
  "\<exists>q'. kt_prio_queue_extract_min \<lparr>elems = [pkt 1 7, pkt 2 8], pq_cap = 2, pq_size = 2\<rparr> True =
      Inr (q', 0, Some 7) \<and> pq_wf q' \<and> pq_size q' = 1 \<and> pq_mset q' = {#pkt 2 8#}"
proof -
  let ?q = "\<lparr>elems = [pkt 1 7, pkt 2 8], pq_cap = 2, pq_size = 2\<rparr>"
  have "pq_wf ?q" by (simp add: pq_wf_def)
  moreover have "pq_mset ?q = {#pkt 1 7, pkt 2 8#}" by (simp add: pq_mset_def pq_nodes_def)
  ultimately show ?thesis using extract_min_branches [of ?q True] by auto
qed

text \<open>
  Conservation. Whatever packets are put into a fresh queue, extracting as many as were
  inserted returns each of them exactly once and empties the queue, although not
  necessarily in order of transmission time.
\<close>

theorem fill_and_drain:
  assumes "length block = cap" "cap < 2 ^ 30" "length ns \<le> cap"
    and "list_all (\<lambda>n. is_i64 (prio n)) ns"
  shows "\<exists>q1 ys q2. rfold pq_put (kt_prio_queue_init cap block) ns = Inr q1 \<and>
    riter pq_take (length ns) q1 = Inr (ys, q2) \<and> mset ys = mset ns \<and> pq_mset q2 = {#}"
  using pq.put_then_take_all [OF init_wf [OF assms(1,2)] init_empty _ assms(4)] assms(3)
  by (simp add: kt_prio_queue_init_def)

theorem fill_and_drain_witness:
  "\<exists>q1 ys q2. rfold pq_put (kt_prio_queue_init 4 (replicate 4 (pkt 0 0)))
      [pkt 30 1, pkt 10 2, pkt 20 3] = Inr q1 \<and> riter pq_take 3 q1 = Inr (ys, q2) \<and>
    mset ys = {#pkt 30 1, pkt 10 2, pkt 20 3#} \<and> pq_mset q2 = {#}"
  using fill_and_drain [of "replicate 4 (pkt 0 0)" 4 "[pkt 30 1, pkt 10 2, pkt 20 3]"]
  by (simp add: is_i64_def INT64_MIN_def INT64_MAX_def numeral_3_eq_3)

lemma extract_root_stays:
  assumes "pq_wf q" "0 < pq_size q"
    and "heapify_min_idx (q\<lparr>elems := (elems q)[0 := elems q ! (pq_size q - 1)],
           pq_size := pq_size q - 1\<rparr>) 0 = Inr 0"
  shows "kt_prio_queue_extract_min q want =
    Inr (q\<lparr>elems := (elems q)[0 := elems q ! (pq_size q - 1)], pq_size := pq_size q - 1\<rparr>, 0,
      if want then Some (data (elems q ! 0)) else None)"
proof -
  have "0 < length (elems q)" "pq_size q - 1 < length (elems q)"
    using assms(1,2) by (auto simp: pq_wf_def)
  then show ?thesis
    using heapify_root_stays [OF assms(3)] assms(2)
    by (auto simp: kt_prio_queue_extract_min_def)
qed

text \<open>
  With at most two packets pending the queue delivers in order: extracting from a heap
  of one or two packets returns a packet with the least transmission time and leaves a heap.
\<close>

theorem extract_two_in_order:
  assumes "pq_wf q" "pq_heap q" "0 < pq_size q" "pq_size q \<le> 2"
  shows "\<exists>q'. kt_prio_queue_extract_min q True = Inr (q', 0, Some (data (elems q ! 0))) \<and>
    pq_heap q' \<and> pq_mset q = add_mset (elems q ! 0) (pq_mset q') \<and>
    (\<forall>n \<in># pq_mset q'. prio_at q 0 \<le> prio n)"
proof -
  let ?q = "q\<lparr>elems := (elems q)[0 := elems q ! (pq_size q - 1)], pq_size := pq_size q - 1\<rparr>"
  have "pq_wf ?q" "pq_size ?q \<le> 2" using assms by (auto simp: pq_wf_def)
  then have ext: "kt_prio_queue_extract_min q True = Inr (?q, 0, Some (data (elems q ! 0)))"
    using extract_root_stays [OF assms(1,3), of True] heapify_min_idx_root_small by simp
  then have ms: "pq_mset q = add_mset (elems q ! 0) (pq_mset ?q)"
    using extract_correct [OF assms(1,3), of True] by auto
  have "prio_at q 0 \<le> prio n" if "n \<in># pq_mset ?q" for n
  proof -
    have "n \<in># pq_mset q" using ms that by simp
    then show ?thesis using in_pq_mset [OF assms(1)] heap_root_le [OF assms(2)] by auto
  qed
  moreover have "pq_heap ?q" using assms(4) by (auto simp: pq_heap_def)
  ultimately show ?thesis using ext ms by blast
qed

theorem extract_two_in_order_witness:
  "\<exists>q'. kt_prio_queue_extract_min \<lparr>elems = [pkt 1 7, pkt 2 8], pq_cap = 2, pq_size = 2\<rparr> True =
      Inr (q', 0, Some 7) \<and> pq_heap q' \<and> (\<forall>n \<in># pq_mset q'. 1 \<le> prio n)"
proof -
  let ?q = "\<lparr>elems = [pkt 1 7, pkt 2 8], pq_cap = 2, pq_size = 2\<rparr>"
  have "pq_wf ?q" by (simp add: pq_wf_def)
  moreover have "pq_heap ?q" by (auto simp: pq_heap_def less_Suc_eq numeral_2_eq_2)
  ultimately show ?thesis using extract_two_in_order [of ?q] by auto
qed

text \<open>
  C36. The queue is not a priority queue. When three or more packets are pending and were
  stored in increasing order of transmission time (what a periodic talker produces), the
  first extraction leaves the packet with the \<^emph>\<open>latest\<close> transmission time at the root: the
  next \<open>kt_prio_queue_getmin\<close> reports the maximum of the remaining times. The cause is the
  second \<open>else\<close> of \<open>_kt_prio_queue_heapify\<close>, which discards a smaller left child.
\<close>

theorem extract_sorted_latest_first:
  assumes wf: "pq_wf q" and sorted: "sorted (map prio (pq_nodes q))" and n: "2 < pq_size q"
  shows "\<exists>q'. kt_prio_queue_extract_min q True = Inr (q', 0, Some (data (elems q ! 0))) \<and>
    kt_prio_queue_getmin q' = Inr (Max (prio ` set_mset (pq_mset q')))"
proof -
  let ?n = "pq_size q"
  let ?q = "q\<lparr>elems := (elems q)[0 := elems q ! (?n - 1)], pq_size := ?n - 1\<rparr>"
  have len: "?n \<le> length (elems q)" using wf by (simp add: pq_wf_def)
  have mono: "prio_at q i \<le> prio_at q j" if "i \<le> j" "j < ?n" for i j
    using sorted_nth_mono [OF sorted that(1)] that len by (simp add: pq_nodes_def)
  have wf1: "pq_wf ?q" using wf by (auto simp: pq_wf_def)
  have at: "prio_at ?q j = (if j = 0 then prio_at q (?n - 1) else prio_at q j)" if "j < ?n" for j
    using that len n by (cases "elems q") (auto simp: nth_Cons split: nat.splits)
  have "heapify_min_idx ?q 0 = Inr 0"
  proof (cases "pq_size ?q \<le> 2")
    case True
    then show ?thesis using heapify_min_idx_root_small [OF wf1] by simp
  next
    case False
    then have n3: "3 < ?n" by simp
    have "\<not> prio_at ?q 2 < min (prio_at ?q 0) (prio_at ?q 1)"
      using at [of 1] at [of 2] mono [of 1 2] n3 by (auto simp: min_def)
    then show ?thesis using heapify_min_idx_root [OF wf1] n3 by simp
  qed
  then have ext: "kt_prio_queue_extract_min q True = Inr (?q, 0, Some (data (elems q ! 0)))"
    using extract_root_stays [OF wf, of True] n by simp
  have "prio_at ?q 0 = Max (prio ` set_mset (pq_mset ?q))"
  proof (rule Max_eqI [symmetric])
    fix p assume "p \<in> prio ` set_mset (pq_mset ?q)"
    then obtain j where "j < ?n - 1" "p = prio_at ?q j" using in_pq_mset [OF wf1] by auto
    then show "p \<le> prio_at ?q 0" using at [of j] at [of 0] mono [of j "?n - 1"] by auto
  next
    have "elems ?q ! 0 \<in># pq_mset ?q" using root_in_mset [OF wf1] n by simp
    then show "prio_at ?q 0 \<in> prio ` set_mset (pq_mset ?q)" by blast
  qed simp
  moreover have "kt_prio_queue_getmin ?q = Inr (prio_at ?q 0)"
    using getmin_correct [OF wf1] n by simp
  ultimately show ?thesis using ext by auto
qed

theorem extract_sorted_latest_first_witness:
  "\<exists>q'. kt_prio_queue_extract_min
      \<lparr>elems = [pkt 1 7, pkt 2 8, pkt 3 9], pq_cap = 3, pq_size = 3\<rparr> True = Inr (q', 0, Some 7) \<and>
    kt_prio_queue_getmin q' = Inr (Max (prio ` set_mset (pq_mset q')))"
  using extract_sorted_latest_first
    [of "\<lparr>elems = [pkt 1 7, pkt 2 8, pkt 3 9], pq_cap = 3, pq_size = 3\<rparr>"]
  by (simp add: pq_wf_def pq_nodes_def)

lemma unique_min_at_root:
  assumes "pq_wf q" "pq_heap q" "x \<in># pq_mset q"
    and "\<And>y. y \<in># pq_mset q - {#x#} \<Longrightarrow> prio x < prio y"
  shows "elems q ! 0 = x"
proof (rule ccontr)
  assume ne: "elems q ! 0 \<noteq> x"
  obtain j where j: "j < pq_size q" "x = elems q ! j" using in_pq_mset [OF assms(1)] assms(3) by auto
  have "elems q ! 0 \<in># pq_mset q" using root_in_mset [OF assms(1)] j(1) by simp
  then have "elems q ! 0 \<in># pq_mset q - {#x#}" using ne by (simp add: in_diff_count count_eq_zero_iff)
  then have "prio x < prio_at q 0" by (rule assms(4))
  then show False using heap_root_le [OF assms(2) j(1)] j(2) by simp
qed

text \<open>
  \<open>kt_prio_queue_delete_key\<close> removes exactly the packet at index \<open>i\<close>, provided that
  packet's time is at least \<open>INT32_MIN\<close> (the constant the code lowers it to) and every
  other pending packet's time is above it. The queue must be in heap order when it is called.
\<close>

theorem delete_key_removes:
  assumes wf: "pq_wf q" and heap: "pq_heap q" and i: "i < pq_size q"
    and lo: "INT32_MIN \<le> prio_at q i"
    and others: "\<And>n. n \<in># pq_mset q - {#elems q ! i#} \<Longrightarrow> INT32_MIN < prio n"
  shows "\<exists>q'. kt_prio_queue_delete_key q i = Inr q' \<and> pq_wf q' \<and> pq_size q' = pq_size q - 1 \<and>
    pq_mset q' = pq_mset q - {#elems q ! i#}"
proof -
  let ?e = "(elems q ! i)\<lparr>prio := INT32_MIN\<rparr>"
  obtain q1 where q1: "kt_prio_queue_decrease_key q i INT32_MIN = Inr q1" "pq_wf q1"
      "pq_size q1 = pq_size q" "pq_mset q1 = add_mset ?e (pq_mset q - {#elems q ! i#})" "pq_heap q1"
    using decrease_key_correct [OF wf i lo] heap_up_decreased [OF wf heap i lo] by blast
  have root: "elems q1 ! 0 = ?e"
    using unique_min_at_root [OF q1(2,5), of ?e] q1(4) others by simp
  obtain q2 where "kt_prio_queue_extract_min q1 True = Inr (q2, 0, Some (data ?e))" "pq_wf q2"
      "pq_size q2 = pq_size q - 1" "pq_mset q1 = add_mset ?e (pq_mset q2)"
    using extract_correct [OF q1(2), of True] i q1(3) root by auto
  then show ?thesis using q1 by (auto simp: kt_prio_queue_delete_key_def)
qed

theorem delete_key_removes_witness:
  "\<exists>q'. kt_prio_queue_delete_key
      \<lparr>elems = [pkt 1 7, pkt 2 8, pkt 3 9], pq_cap = 3, pq_size = 3\<rparr> 1 = Inr q' \<and> pq_wf q' \<and>
    pq_size q' = 2 \<and> pq_mset q' = {#pkt 1 7, pkt 3 9#}"
proof -
  let ?q = "\<lparr>elems = [pkt 1 7, pkt 2 8, pkt 3 9], pq_cap = 3, pq_size = 3\<rparr>"
  have "pq_wf ?q" by (simp add: pq_wf_def)
  moreover have "pq_heap ?q" by (auto simp: pq_heap_def less_Suc_eq numeral_3_eq_3)
  moreover have ms: "pq_mset ?q = {#pkt 1 7, pkt 2 8, pkt 3 9#}"
    by (simp add: pq_mset_def pq_nodes_def)
  ultimately show ?thesis
    using delete_key_removes [of ?q 1] by (simp add: INT32_MIN_def) fastforce
qed

text \<open>
  The condition of the previous property is needed: priorities are 64-bit, but
  \<open>kt_prio_queue_delete_key\<close> lowers the key to the 32-bit minimum. With a pending time below
  \<open>INT32_MIN\<close>, deleting index 1 removes the packet at index 0 and keeps the requested one
  with a changed key.
\<close>

theorem delete_key_wrong_packet:
  "\<exists>q'. kt_prio_queue_delete_key
      \<lparr>elems = [pkt (- 3000000000) 7, pkt 5 8], pq_cap = 2, pq_size = 2\<rparr> 1 = Inr q' \<and>
    pq_nodes q' = [pkt INT32_MIN 8]"
  by (simp add: kt_prio_queue_delete_key_def kt_prio_queue_decrease_key_def INT32_MIN_def
      kt_prio_queue_reorder.simps kt_prio_queue_parent_def kt_prio_queue_extract_min_def
      heapify_root_stays heapify_min_idx_root_small pq_wf_def pq_nodes_def)

end
