(* ===== verification/KT_Alloc.thy ===== *)
theory KT_Alloc
  imports KT_Interfaces
begin

unbundle bit_operations_syntax

section \<open>The page allocator (\<open>src/src/kt_alloc.c\<close>)\<close>

text \<open>
  The allocator that carves the shared segment into pages. Its header sits at the start of
  the segment, followed by the page descriptors and the mask of free pages. In the model the
  two arrays are lists, a \<open>struct kt_page *\<close> is an index into the descriptor array, and
  addresses are 64-bit words. The search for consecutive free pages is a loop that may not
  end, so it is a \<^theory_text>\<open>partial_function\<close> into \<open>option\<close>.

  Shown here: allocation is first fit over runs of free pages and complete, live blocks never
  overlap, \<open>free\<close> undoes \<open>alloc\<close> exactly, the counter of free pages is exact; a request of
  zero bytes never returns; and initialisation places the mask too far from the descriptors,
  so that the last pages it counts lie outside the segment.
\<close>

subsection \<open>Data\<close>

record kt_page =
  pg_next :: nat
  pg_free :: u32
  pg_offset :: u32
  pg_reserved :: u32

record kt_page_allocator =
  page_size :: u32
  page_count :: u32
  page_free :: u32
  page_list :: "kt_page list"
  page_list_ptr :: u64
  free_pages_mask :: "u8 list"
  free_pages_mask_ptr :: u64
  pa_data :: u64

definition sizeof_kt_page :: nat where "sizeof_kt_page = 24"
definition sizeof_kt_page_allocator :: nat where "sizeof_kt_page_allocator = 40"

subsection \<open>Initialisation\<close>

definition page_list_bytes :: "u32 \<Rightarrow> u32" where
  "page_list_bytes cnt = cnt * of_nat sizeof_kt_page"

definition metadata_bytes :: "u32 \<Rightarrow> u32" where
  "metadata_bytes cnt = of_nat sizeof_kt_page_allocator + page_list_bytes cnt + cnt"

text \<open>
  The loop that looks for a page count whose metadata fits: the count that was tried together
  with the decremented count, or \<open>None\<close> where the code returns \<open>-1\<close>. The count is a
  \<open>u32\<close>, so a count of 0 wraps; the loop still ends.
\<close>

function fit_page_count :: "u32 \<Rightarrow> u32 \<Rightarrow> (u32 \<times> u32) option" where
  "fit_page_count sz cnt =
     (if cnt - 1 = 0 then None
      else if sz < metadata_bytes cnt then fit_page_count sz (cnt - 1)
      else Some (cnt, cnt - 1))"
  by pat_completeness auto
termination
proof (relation "measure (\<lambda>(sz, cnt). unat (cnt - 1))", goal_cases)
  case (2 sz cnt)
  then have "cnt - 1 \<noteq> 0" by simp
  moreover from this have "0 < unat (cnt - 1)" by (metis unat_gt_0)
  ultimately show ?case using unat_dec [of "cnt - 1"] by simp
qed simp

declare fit_page_count.simps [simp del]

definition align_up :: "u64 \<Rightarrow> u64 \<Rightarrow> u64" where
  "align_up x a = (x + a - 1) div a * a"

definition init_pages :: "nat \<Rightarrow> u32 \<Rightarrow> kt_page list" where
  "init_pages cnt psize =
     (map (\<lambda>i. \<lparr>pg_next = i + 1, pg_free = 1, pg_offset = of_nat i * psize, pg_reserved = 0\<rparr>) [0..<cnt])
     [cnt - 1 := \<lparr>pg_next = 0, pg_free = 1, pg_offset = of_nat (cnt - 1) * psize, pg_reserved = 0\<rparr>]"

text \<open>
  \<open>data\<close> is the address of the segment, \<open>sz\<close> its length. \<open>None\<close> is the result \<open>-1\<close>. A write
  of the descriptors or of the mask past the end of the segment is a fault.
\<close>

definition kt_page_allocator_init :: "u64 \<Rightarrow> u32 \<Rightarrow> u32 \<Rightarrow> kt_page_allocator option res" where
  "kt_page_allocator_init dat sz psize =
     (if sz AND (sz - 1) \<noteq> 0 \<or> psize AND (psize - 1) \<noteq> 0 then Inr None
      else if psize = 0 then Inl DivByZero
      else case fit_page_count sz (sz div psize) of
        None \<Rightarrow> Inr None
      | Some (tried, cnt) \<Rightarrow>
          let page_list_size = page_list_bytes tried;
              page_list_offset = dat + of_nat sizeof_kt_page_allocator;
              free_pages_mask_offset =
                page_list_offset + ucast page_list_size * of_nat sizeof_kt_page;
              data_offset = align_up (free_pages_mask_offset + ucast tried) (ucast psize)
          in if unat sz < sizeof_kt_page_allocator + unat cnt * sizeof_kt_page \<or>
                unat sz < sizeof_kt_page_allocator + unat page_list_size * sizeof_kt_page + unat cnt
             then Inl OutOfBounds
             else Inr (Some
               \<lparr>page_size = psize, page_count = cnt, page_free = cnt,
                page_list = init_pages (unat cnt) psize, page_list_ptr = page_list_offset,
                free_pages_mask = replicate (unat cnt) 1, free_pages_mask_ptr = free_pages_mask_offset,
                pa_data = data_offset\<rparr>))"

text \<open>
  \<open>kt_page_allocator_make\<close> ignores the result of the initialisation: \<open>None\<close> is a handle whose
  header was never written.
\<close>

definition kt_page_allocator_make :: "u64 \<Rightarrow> u32 \<Rightarrow> u32 \<Rightarrow> kt_page_allocator option res" where
  "kt_page_allocator_make dat sz psize = kt_page_allocator_init dat sz psize"

subsection \<open>Searching free pages\<close>

function search_first_free_page_from :: "kt_page_allocator \<Rightarrow> nat \<Rightarrow> nat option res" where
  "search_first_free_page_from al i =
     (if i < unat (page_count al) then
        (case arr_get (free_pages_mask al) i of
           Inl e \<Rightarrow> Inl e
         | Inr m \<Rightarrow> if m \<noteq> 0 then Inr (Some i) else search_first_free_page_from al (i + 1))
      else Inr None)"
  by pat_completeness auto
termination
  by (relation "measure (\<lambda>(al, i). unat (page_count al) - i)") auto

declare search_first_free_page_from.simps [simp del]

definition search_first_free_page :: "kt_page_allocator \<Rightarrow> nat option res" where
  "search_first_free_page al = search_first_free_page_from al 0"

text \<open>
  The inner loop over the pages after the candidate: all needed pages are free, page \<open>k\<close> is
  not (or is out of range), or the loop condition failed without a verdict.
\<close>

datatype scan = Connected | Blocked nat | Undecided

function scan_pages :: "kt_page_allocator \<Rightarrow> nat \<Rightarrow> nat \<Rightarrow> nat \<Rightarrow> scan res" where
  "scan_pages al needed idx found =
     (if found < needed then
        let k = (idx + found) mod 2 ^ 32 in
        case (if k < unat (page_count al) then arr_get (free_pages_mask al) k else Inr 0) of
          Inl e \<Rightarrow> Inl e
        | Inr m \<Rightarrow>
            if m \<noteq> 0 then
              (if found + 1 = needed then Inr Connected else scan_pages al needed idx (found + 1))
            else Inr (Blocked k)
      else Inr Undecided)"
  by pat_completeness auto
termination
  by (relation "measure (\<lambda>(al, needed, idx, found). needed - found)") auto

declare scan_pages.simps [simp del]

partial_function (option) find_aligned_from ::
  "kt_page_allocator \<Rightarrow> nat \<Rightarrow> nat \<Rightarrow> nat option res option" where
  "find_aligned_from al needed idx =
     (case search_first_free_page_from al idx of
        Inl e \<Rightarrow> Some (Inl e)
      | Inr None \<Rightarrow> Some (Inr None)
      | Inr (Some i) \<Rightarrow>
          if needed = 1 then Some (Inr (Some i))
          else case scan_pages al needed i 1 of
              Inl e \<Rightarrow> Some (Inl e)
            | Inr Connected \<Rightarrow> Some (Inr (Some i))
            | Inr (Blocked k) \<Rightarrow> find_aligned_from al needed k
            | Inr Undecided \<Rightarrow> find_aligned_from al needed i)"

text \<open>The outer loop starts at index 0; \<open>None\<close> means that it never ends.\<close>

definition find_aligned_pages :: "kt_page_allocator \<Rightarrow> nat \<Rightarrow> nat option res option" where
  "find_aligned_pages al needed = find_aligned_from al needed 0"

subsection \<open>Allocation and release\<close>

text \<open>Following \<open>tmp = tmp->next\<close> for \<open>n\<close> pages and setting their \<open>free\<close> field.\<close>

fun mark_chain :: "nat \<Rightarrow> u32 \<Rightarrow> kt_page list \<Rightarrow> nat \<Rightarrow> kt_page list res" where
  "mark_chain 0 v ps tmp = Inr ps"
| "mark_chain (Suc n) v ps tmp =
     rbind (arr_get ps tmp) (\<lambda>p.
     rbind (arr_set ps tmp (p\<lparr>pg_free := v\<rparr>)) (\<lambda>ps'.
     mark_chain n v ps' (pg_next p)))"

text \<open>\<open>for (i = index; i < lim; i++) mask[i] = v\<close>.\<close>

function mask_range :: "nat \<Rightarrow> u8 \<Rightarrow> u8 list \<Rightarrow> nat \<Rightarrow> u8 list res" where
  "mask_range lim v msk i =
     (if i < lim then
        (case arr_set msk i v of Inl e \<Rightarrow> Inl e | Inr msk' \<Rightarrow> mask_range lim v msk' (i + 1))
      else Inr msk)"
  by pat_completeness auto
termination
  by (relation "measure (\<lambda>(lim, v, msk, i). lim - i)") auto

declare mask_range.simps [simp del]

definition pages_for :: "kt_page_allocator \<Rightarrow> u32 \<Rightarrow> u32" where
  "pages_for al sz = sz div page_size al + (if sz mod page_size al \<noteq> 0 then 1 else 0)"

definition page_alloc_alloc :: "kt_page_allocator \<Rightarrow> u32 \<Rightarrow> (kt_page_allocator \<times> u64 option) res" where
  "page_alloc_alloc al sz =
     (if page_size al = 0 then Inl DivByZero
      else let needed = pages_for al sz in
        if page_free al < needed then Inr (al, None)
        else case find_aligned_pages al (unat needed) of
          None \<Rightarrow> Inl Diverges
        | Some (Inl e) \<Rightarrow> Inl e
        | Some (Inr None) \<Rightarrow> Inr (al, None)
        | Some (Inr (Some index)) \<Rightarrow>
            rbind (arr_get (page_list al) index) (\<lambda>page.
            rbind (arr_set (page_list al) index (page\<lparr>pg_reserved := needed\<rparr>)) (\<lambda>ps.
            rbind (mark_chain (unat needed) 0 ps index) (\<lambda>ps'.
            rbind (mask_range ((index + unat needed) mod 2 ^ 32) 0 (free_pages_mask al) index) (\<lambda>msk.
            Inr (al\<lparr>page_list := ps', free_pages_mask := msk, page_free := page_free al - needed\<rparr>,
                 Some (pa_data al + ucast (pg_offset page))))))))"

definition page_index :: "kt_page_allocator \<Rightarrow> u64 \<Rightarrow> u32" where
  "page_index al ptr = word_of_int (sint (ptr - pa_data al) sdiv uint (page_size al))"

definition page_alloc_free :: "kt_page_allocator \<Rightarrow> u64 \<Rightarrow> kt_page_allocator res" where
  "page_alloc_free al ptr =
     (if page_size al = 0 then Inl DivByZero
      else let index = unat (page_index al ptr) in
        rbind (arr_get (page_list al) index) (\<lambda>page.
        if pg_free page \<noteq> 0 then Inr al
        else
          rbind (arr_set (page_list al) index (page\<lparr>pg_free := 1\<rparr>)) (\<lambda>ps.
          rbind (mark_chain (unat (pg_reserved page)) 1 ps index) (\<lambda>ps'.
          rbind (mask_range ((index + unat (pg_reserved page)) mod 2 ^ 32) 1 (free_pages_mask al) index) (\<lambda>msk.
          rbind (arr_get ps' index) (\<lambda>page'.
          rbind (arr_set ps' index (page'\<lparr>pg_reserved := 0\<rparr>)) (\<lambda>ps''.
          Inr (al\<lparr>page_list := ps'', free_pages_mask := msk,
                  page_free := page_free al + pg_reserved page\<rparr>))))))))"

subsection \<open>Invariant: the segment as free pages and live blocks\<close>

definition pa_pages :: "kt_page_allocator \<Rightarrow> nat" where
  "pa_pages al = unat (page_count al)"

definition pa_isfree :: "kt_page_allocator \<Rightarrow> nat \<Rightarrow> bool" where
  "pa_isfree al i \<longleftrightarrow> free_pages_mask al ! i \<noteq> 0"

definition pa_rsv :: "kt_page_allocator \<Rightarrow> nat \<Rightarrow> nat" where
  "pa_rsv al i = unat (pg_reserved (page_list al ! i))"

text \<open>
  \<open>pa_shape\<close>: the arrays have one entry per page, the descriptors are linked in a circle and
  hold the page offsets. \<open>pa_flags\<close>: descriptor flag and mask byte agree and are 0 or 1.
  \<open>pa_blocks_ok\<close>: a reservation covers used pages inside the array and no other reservation
  starts inside it, free pages carry no reservation, and every used page is covered.
\<close>

definition pa_shape :: "kt_page_allocator \<Rightarrow> bool" where
  "pa_shape al \<longleftrightarrow> 0 < pa_pages al \<and> pa_pages al < 2 ^ 31 \<and> 0 < unat (page_size al) \<and>
     pa_pages al * unat (page_size al) \<le> 2 ^ 32 \<and>
     length (page_list al) = pa_pages al \<and> length (free_pages_mask al) = pa_pages al \<and>
     (\<forall>i < pa_pages al. pg_next (page_list al ! i) = (i + 1) mod pa_pages al \<and>
        pg_offset (page_list al ! i) = of_nat i * page_size al)"

definition pa_flags :: "kt_page_allocator \<Rightarrow> bool" where
  "pa_flags al \<longleftrightarrow> (\<forall>i < pa_pages al.
     free_pages_mask al ! i = (if pa_isfree al i then 1 else 0) \<and>
     pg_free (page_list al ! i) = (if pa_isfree al i then 1 else 0))"

definition pa_blocks_ok :: "kt_page_allocator \<Rightarrow> bool" where
  "pa_blocks_ok al \<longleftrightarrow>
     (\<forall>i < pa_pages al. pa_isfree al i \<longrightarrow> pa_rsv al i = 0) \<and>
     (\<forall>i < pa_pages al. 0 < pa_rsv al i \<longrightarrow> i + pa_rsv al i \<le> pa_pages al \<and>
        (\<forall>k. i \<le> k \<longrightarrow> k < i + pa_rsv al i \<longrightarrow> \<not> pa_isfree al k \<and> (i < k \<longrightarrow> pa_rsv al k = 0))) \<and>
     (\<forall>k < pa_pages al. \<not> pa_isfree al k \<longrightarrow> (\<exists>i \<le> k. k < i + pa_rsv al i))"

definition pa_free_count :: "kt_page_allocator \<Rightarrow> nat" where
  "pa_free_count al = length (filter (\<lambda>m. m \<noteq> 0) (free_pages_mask al))"

definition pa_wf :: "kt_page_allocator \<Rightarrow> bool" where
  "pa_wf al \<longleftrightarrow> pa_shape al \<and> pa_flags al \<and> pa_blocks_ok al \<and> unat (page_free al) = pa_free_count al"

text \<open>The live blocks, as pairs of first page and page count, and the runs of free pages.\<close>

definition pa_blocks :: "kt_page_allocator \<Rightarrow> (nat \<times> nat) set" where
  "pa_blocks al = {(i, n). i < pa_pages al \<and> 0 < n \<and> pa_rsv al i = n}"

definition pa_run :: "kt_page_allocator \<Rightarrow> nat \<Rightarrow> nat \<Rightarrow> bool" where
  "pa_run al n i \<longleftrightarrow> i + n \<le> pa_pages al \<and> (\<forall>j < n. pa_isfree al (i + j))"

definition pa_addr :: "kt_page_allocator \<Rightarrow> nat \<Rightarrow> u64" where
  "pa_addr al i = pa_data al + of_nat (i * unat (page_size al))"

subsection \<open>The search is first fit\<close>

lemma search_spec:
  assumes "pa_shape al"
  shows "case search_first_free_page_from al i of
      Inl e \<Rightarrow> False
    | Inr None \<Rightarrow> (\<forall>j. i \<le> j \<longrightarrow> j < pa_pages al \<longrightarrow> \<not> pa_isfree al j)
    | Inr (Some k) \<Rightarrow> i \<le> k \<and> k < pa_pages al \<and> pa_isfree al k \<and>
        (\<forall>j. i \<le> j \<longrightarrow> j < k \<longrightarrow> \<not> pa_isfree al j)"
  using assms
proof (induction al i rule: search_first_free_page_from.induct)
  case (1 al i)
  have len: "length (free_pages_mask al) = pa_pages al" using "1.prems" by (simp add: pa_shape_def)
  show ?case
  proof (cases "i < pa_pages al \<and> \<not> pa_isfree al i")
    case True
    then have step: "search_first_free_page_from al i = search_first_free_page_from al (i + 1)"
      using len by (simp add: search_first_free_page_from.simps [of al i] pa_pages_def pa_isfree_def)
    have le: "i \<le> j \<longleftrightarrow> i = j \<or> i + 1 \<le> j" for j by auto
    have "case search_first_free_page_from al (i + 1) of
        Inl e \<Rightarrow> False
      | Inr None \<Rightarrow> (\<forall>j. i + 1 \<le> j \<longrightarrow> j < pa_pages al \<longrightarrow> \<not> pa_isfree al j)
      | Inr (Some k) \<Rightarrow> i + 1 \<le> k \<and> k < pa_pages al \<and> pa_isfree al k \<and>
          (\<forall>j. i + 1 \<le> j \<longrightarrow> j < k \<longrightarrow> \<not> pa_isfree al j)"
      using "1.IH" [of 0] "1.prems" True len by (simp add: pa_pages_def pa_isfree_def)
    then show ?thesis
      unfolding step using True le
      by (cases "search_first_free_page_from al (i + 1)" rule: sum.exhaust)
        (auto split: option.splits)
  next
    case False
    then show ?thesis
      using len by (auto simp: search_first_free_page_from.simps [of al i] pa_pages_def pa_isfree_def)
  qed
qed

lemma scan_spec:
  assumes "pa_shape al" "idx < pa_pages al" "needed \<le> pa_pages al" "found < needed" "0 < found"
    and "\<forall>j < found. idx + j < pa_pages al \<and> pa_isfree al (idx + j)"
  shows "(scan_pages al needed idx found = Inr Connected \<and> pa_run al needed idx) \<or>
    (\<exists>k. scan_pages al needed idx found = Inr (Blocked k) \<and> idx < k \<and> k < idx + needed \<and>
       \<not> (k < pa_pages al \<and> pa_isfree al k))"
  using assms
proof (induction al needed idx found rule: scan_pages.induct)
  case (1 al needed idx found)
  have len: "length (free_pages_mask al) = pa_pages al" and bnd: "pa_pages al < 2 ^ 31"
    using "1.prems" by (auto simp: pa_shape_def)
  have k: "(idx + found) mod 2 ^ 32 = idx + found" using "1.prems" bnd by simp
  show ?case
  proof (cases "idx + found < pa_pages al \<and> pa_isfree al (idx + found)")
    case False
    then have "scan_pages al needed idx found = Inr (Blocked (idx + found))"
      using "1.prems"(4) len k
      by (auto simp: scan_pages.simps [of al] Let_def pa_pages_def pa_isfree_def)
    then show ?thesis using False "1.prems" by auto
  next
    case True
    have all: "\<forall>j < found + 1. idx + j < pa_pages al \<and> pa_isfree al (idx + j)"
      using "1.prems"(6) True by (auto simp: less_Suc_eq)
    have step: "scan_pages al needed idx found =
        (if found + 1 = needed then Inr Connected else scan_pages al needed idx (found + 1))"
      using True "1.prems"(4) len k
      by (simp add: scan_pages.simps [of al needed idx found] Let_def pa_pages_def pa_isfree_def)
    show ?thesis
    proof (cases "found + 1 = needed")
      case last: True
      then have "pa_run al needed idx"
        using all True unfolding pa_run_def by (metis Suc_eq_plus1 Suc_leI add_Suc_right)
      then show ?thesis using step last by simp
    next
      case more: False
      then have "found + 1 < needed" using "1.prems"(4) by simp
      then have "(scan_pages al needed idx (found + 1) = Inr Connected \<and> pa_run al needed idx) \<or>
          (\<exists>k. scan_pages al needed idx (found + 1) = Inr (Blocked k) \<and> idx < k \<and>
             k < idx + needed \<and> \<not> (k < pa_pages al \<and> pa_isfree al k))"
        using True more "1.prems" all len k bnd
        by (intro "1.IH" [OF _ refl, of "free_pages_mask al ! (idx + found)"])
          (auto simp: pa_pages_def pa_isfree_def)
      then show ?thesis using step more by simp
    qed
  qed
qed

text \<open>A run that would contain a page that is not free does not exist.\<close>

lemma no_run_across:
  assumes "\<not> (k < pa_pages al \<and> pa_isfree al k)" "i \<le> k" "k < i + n"
  shows "\<not> pa_run al n i"
  using assms unfolding pa_run_def by (metis le_add_diff_inverse less_diff_conv2 add.commute
      order_less_le_trans)

lemma no_run_past: "0 < n \<Longrightarrow> pa_pages al \<le> i \<Longrightarrow> \<not> pa_run al n i"
  by (simp add: pa_run_def)

text \<open>The answer of a search from page \<open>idx\<close> on: the first run of \<open>n\<close> free pages, or none.\<close>

fun first_run :: "kt_page_allocator \<Rightarrow> nat \<Rightarrow> nat \<Rightarrow> nat option \<Rightarrow> bool" where
  "first_run al n idx None \<longleftrightarrow> (\<forall>i \<ge> idx. \<not> pa_run al n i)"
| "first_run al n idx (Some i) \<longleftrightarrow> idx \<le> i \<and> pa_run al n i \<and> (\<forall>j. idx \<le> j \<longrightarrow> j < i \<longrightarrow> \<not> pa_run al n j)"

lemma first_run_skip:
  assumes "first_run al n k r" "idx \<le> k" "\<And>j. idx \<le> j \<Longrightarrow> j < k \<Longrightarrow> \<not> pa_run al n j"
  shows "first_run al n idx r"
  using assms by (cases r) (auto, (meson leI)+)

lemma find_aligned_first:
  assumes "pa_shape al" "0 < needed" "needed \<le> pa_pages al"
  shows "\<exists>r. find_aligned_from al needed idx = Some (Inr r) \<and> first_run al needed idx r"
proof (induction "pa_pages al - idx" arbitrary: idx rule: less_induct)
  case less
  note unf = find_aligned_from.simps [of al needed idx]
  note spec = search_spec [OF assms(1), of idx]
  show ?case
  proof (cases "search_first_free_page_from al idx")
    case (Inl e)
    then show ?thesis using spec by simp
  next
    case (Inr r)
    show ?thesis
    proof (cases r)
      case None
      have "\<not> pa_run al needed i" if "idx \<le> i" for i
        using spec Inr None that assms(2) no_run_across [of i al i needed] by auto
      then show ?thesis using unf Inr None by simp
    next
      case (Some i)
      have none: "\<not> pa_run al needed j" if "idx \<le> j" "j < i" for j
        using spec Inr Some that assms(2) no_run_across [of j al j needed] by auto
      have i: "idx \<le> i" "i < pa_pages al" "pa_isfree al i"
        using spec Inr Some by auto
      consider "needed = 1" | "needed \<noteq> 1" "scan_pages al needed i 1 = Inr Connected" "pa_run al needed i"
        | k where "needed \<noteq> 1" "scan_pages al needed i 1 = Inr (Blocked k)" "i < k" "k < i + needed"
          "\<not> (k < pa_pages al \<and> pa_isfree al k)"
        using scan_spec [OF assms(1) i(2) assms(3), of 1] i assms(2) by fastforce
      then show ?thesis
      proof cases
        case 3
        have "\<not> pa_run al needed j" if "idx \<le> j" "j < k" for j
          using that none no_run_across [OF 3(5), of j needed] 3(4) by (cases "j < i") auto
        moreover have "pa_pages al - k < pa_pages al - idx" using 3(3) i by simp
        ultimately show ?thesis
          using less [of k] first_run_skip [of al needed k _ idx] unf Inr Some 3 i(1) by fastforce
      qed (use unf Inr Some i none in \<open>auto simp: pa_run_def\<close>)
    qed
  qed
qed

lemma find_aligned_spec:
  assumes "pa_shape al" "0 < needed" "needed \<le> pa_pages al"
  shows "(find_aligned_from al needed idx = Some (Inr None) \<and> (\<forall>i \<ge> idx. \<not> pa_run al needed i)) \<or>
    (\<exists>i. find_aligned_from al needed idx = Some (Inr (Some i)) \<and> idx \<le> i \<and> pa_run al needed i \<and>
       (\<forall>j. idx \<le> j \<longrightarrow> j < i \<longrightarrow> \<not> pa_run al needed j))"
proof -
  obtain r where "find_aligned_from al needed idx = Some (Inr r)" "first_run al needed idx r"
    using find_aligned_first [OF assms] by blast
  then show ?thesis by (cases r) auto
qed

subsection \<open>The marking loops\<close>

lemma mark_chain_upd:
  assumes "cur + n \<le> length ps" "cur < length ps"
    and "\<forall>i < length ps. pg_next (ps ! i) = (i + 1) mod length ps"
  shows "mark_chain n v ps cur = Inr (upd_range (pg_free_update (\<lambda>_. v)) cur n ps)"
  using assms
proof (induction n arbitrary: cur ps)
  case (Suc n)
  let ?ps = "ps[cur := (ps ! cur)\<lparr>pg_free := v\<rparr>]"
  have nx: "\<forall>i < length ?ps. pg_next (?ps ! i) = (i + 1) mod length ?ps"
    using Suc.prems(2,3) by (auto simp: nth_list_update)
  show ?case
  proof (cases "n = 0")
    case True
    then show ?thesis using Suc.prems by simp
  next
    case False
    then have "pg_next (ps ! cur) = Suc cur" using Suc.prems by simp
    moreover have "mark_chain n v ?ps (Suc cur) = Inr (upd_range (pg_free_update (\<lambda>_. v)) (Suc cur) n ?ps)"
      using Suc.IH [OF _ _ nx] Suc.prems False by simp
    ultimately show ?thesis using Suc.prems by simp
  qed
qed simp

lemma mask_range_upd:
  assumes "i \<le> lim" "lim \<le> length msk"
  shows "mask_range lim v msk i = Inr (upd_range (\<lambda>_. v) i (lim - i) msk)"
  using assms
proof (induction lim v msk i rule: mask_range.induct)
  case (1 lim v msk i)
  show ?case
  proof (cases "i < lim")
    case True
    then have "lim - i = Suc (lim - Suc i)" by simp
    then show ?thesis using True 1 by (simp add: mask_range.simps [of lim v msk])
  next
    case False
    then show ?thesis using 1 by (simp add: mask_range.simps [of lim v msk])
  qed
qed

subsection \<open>What \<open>alloc\<close> and \<open>free\<close> do to a well-formed allocator\<close>

text \<open>The state after reserving \<open>n\<close> pages from \<open>i\<close> on, and after releasing them.\<close>

definition pa_take :: "kt_page_allocator \<Rightarrow> nat \<Rightarrow> u32 \<Rightarrow> kt_page_allocator" where
  "pa_take al i n = al\<lparr>
     page_list := upd_range (pg_free_update (\<lambda>_. 0)) i (unat n)
       ((page_list al)[i := (page_list al ! i)\<lparr>pg_reserved := n\<rparr>]),
     free_pages_mask := upd_range (\<lambda>_. 0) i (unat n) (free_pages_mask al),
     page_free := page_free al - n\<rparr>"

definition pa_give :: "kt_page_allocator \<Rightarrow> nat \<Rightarrow> kt_page_allocator" where
  "pa_give al i = (let n = pg_reserved (page_list al ! i) in al\<lparr>
     page_list := (upd_range (pg_free_update (\<lambda>_. 1)) i (unat n) (page_list al))
       [i := (page_list al ! i)\<lparr>pg_free := 1, pg_reserved := 0\<rparr>],
     free_pages_mask := upd_range (\<lambda>_. 1) i (unat n) (free_pages_mask al),
     page_free := page_free al + n\<rparr>)"

lemma pa_shape_next:
  assumes "pa_shape al" "i < pa_pages al"
  shows "\<forall>j < length ((page_list al)[i := (page_list al ! i)\<lparr>pg_reserved := n\<rparr>]).
    pg_next ((page_list al)[i := (page_list al ! i)\<lparr>pg_reserved := n\<rparr>] ! j) =
      (j + 1) mod length ((page_list al)[i := (page_list al ! i)\<lparr>pg_reserved := n\<rparr>])"
  using assms by (auto simp: pa_shape_def nth_list_update)

lemma take_steps:
  assumes "pa_shape al" "0 < unat n" "i + unat n \<le> pa_pages al"
  shows "rbind (arr_get (page_list al) i) (\<lambda>page.
      rbind (arr_set (page_list al) i (page\<lparr>pg_reserved := n\<rparr>)) (\<lambda>ps.
      rbind (mark_chain (unat n) 0 ps i) (\<lambda>ps'.
      rbind (mask_range ((i + unat n) mod 2 ^ 32) 0 (free_pages_mask al) i) (\<lambda>msk.
      Inr (al\<lparr>page_list := ps', free_pages_mask := msk, page_free := page_free al - n\<rparr>,
           Some (pa_data al + ucast (pg_offset page))))))) =
    Inr (pa_take al i n, Some (pa_data al + ucast (pg_offset (page_list al ! i))))"
proof -
  have b: "i < length (page_list al)" "i + unat n \<le> length (page_list al)"
      "i + unat n \<le> length (free_pages_mask al)" "(i + unat n) mod 2 ^ 32 = i + unat n"
    using assms by (auto simp: pa_shape_def)
  have i: "i < pa_pages al" using assms(2,3) by simp
  have "mark_chain (unat n) 0 ((page_list al)[i := (page_list al ! i)\<lparr>pg_reserved := n\<rparr>]) i =
      Inr (upd_range (pg_free_update (\<lambda>_. 0)) i (unat n)
        ((page_list al)[i := (page_list al ! i)\<lparr>pg_reserved := n\<rparr>]))"
    using b by (intro mark_chain_upd pa_shape_next [OF assms(1) i]) simp_all
  then show ?thesis using b mask_range_upd [of i "i + unat n"] by (simp add: pa_take_def)
qed

lemma alloc_null:
  assumes "page_size al \<noteq> 0" "page_free al < pages_for al sz"
  shows "page_alloc_alloc al sz = Inr (al, None)"
  using assms by (simp add: page_alloc_alloc_def Let_def)

lemma pa_free_count_le: "pa_shape al \<Longrightarrow> pa_free_count al \<le> pa_pages al"
  using length_filter_le by (metis pa_free_count_def pa_shape_def)

lemma pa_runD: "pa_run al n i \<Longrightarrow> i \<le> j \<Longrightarrow> j < i + n \<Longrightarrow> pa_isfree al j"
  unfolding pa_run_def by (metis add_less_cancel_left le_add_diff_inverse)

lemma run_count:
  assumes "pa_shape al" "pa_run al n i"
  shows "length (filter (\<lambda>m. m \<noteq> 0) (upd_range (\<lambda>_. 0) i n (free_pages_mask al))) + n =
    pa_free_count al"
  unfolding pa_free_count_def
proof (rule count_upd_range)
  show "i + n \<le> length (free_pages_mask al)"
    using assms by (simp add: pa_shape_def pa_run_def)
  show "free_pages_mask al ! j \<noteq> 0" if "i \<le> j" "j < i + n" for j
    using pa_runD [OF assms(2) that] by (simp add: pa_isfree_def)
qed simp

lemma offset_addr:
  assumes "pa_shape al" "i < pa_pages al"
  shows "pa_data al + ucast (pg_offset (page_list al ! i)) = pa_addr al i"
proof -
  have "i * unat (page_size al) < pa_pages al * unat (page_size al)"
    using assms by (simp add: pa_shape_def)
  also have "\<dots> \<le> 2 ^ 32" using assms by (simp add: pa_shape_def)
  finally have "unat (of_nat i * page_size al) = i * unat (page_size al)"
    by (intro unat_of_nat_u32) simp_all
  then have "ucast (of_nat i * page_size al) = (of_nat (i * unat (page_size al)) :: u64)"
    by (metis of_nat_unat ucast_id)
  then show ?thesis using assms by (simp add: pa_shape_def pa_addr_def)
qed

text \<open>
  The result of an allocation of at least one page: \<open>NULL\<close> with the state unchanged when no
  run exists, otherwise the first run is taken.
\<close>

lemma alloc_cases:
  assumes wf: "pa_wf al" and n: "n = unat (pages_for al sz)" "0 < n"
  shows "(page_alloc_alloc al sz = Inr (al, None) \<and> (\<forall>i. \<not> pa_run al n i)) \<or>
    (\<exists>i. pa_run al n i \<and> (\<forall>j < i. \<not> pa_run al n j) \<and>
       page_alloc_alloc al sz = Inr (pa_take al i (pages_for al sz), Some (pa_addr al i)))"
proof -
  have sh: "pa_shape al" and ps: "page_size al \<noteq> 0" using wf by (auto simp: pa_wf_def pa_shape_def)
  show ?thesis
  proof (cases "page_free al < pages_for al sz")
    case True
    have "\<not> pa_run al n i" for i
    proof
      assume r: "pa_run al n i"
      then have "n \<le> pa_free_count al" using run_count [OF sh r] by linarith
      then have "n \<le> unat (page_free al)" using wf by (simp add: pa_wf_def)
      then show False using True n by (simp add: word_less_nat_alt)
    qed
    then show ?thesis using alloc_null [OF ps True] by simp
  next
    case False
    then have "n \<le> pa_pages al"
      using wf n pa_free_count_le [OF sh] by (simp add: pa_wf_def word_less_nat_alt)
    from find_aligned_spec [OF sh n(2) this, of 0] show ?thesis
    proof (elim disjE exE conjE)
      assume "find_aligned_from al n 0 = Some (Inr None)" "\<forall>i \<ge> 0. \<not> pa_run al n i"
      then show ?thesis
        using False ps n by (simp add: page_alloc_alloc_def find_aligned_pages_def Let_def)
    next
      fix i assume i: "find_aligned_from al n 0 = Some (Inr (Some i))" "pa_run al n i"
        "\<forall>j. 0 \<le> j \<longrightarrow> j < i \<longrightarrow> \<not> pa_run al n j"
      have run: "0 < unat (pages_for al sz)" "i + unat (pages_for al sz) \<le> pa_pages al"
        using i(2) n by (auto simp: pa_run_def)
      have "i < pa_pages al" using run by simp
      then have "page_alloc_alloc al sz = Inr (pa_take al i (pages_for al sz), Some (pa_addr al i))"
        using take_steps [OF sh run] offset_addr [OF sh] False ps i(1) n
        by (simp add: page_alloc_alloc_def find_aligned_pages_def Let_def)
      then show ?thesis using i by auto
    qed
  qed
qed

subsection \<open>Preservation of the invariant\<close>

lemma pa_take_simps:
  assumes "pa_shape al" "0 < unat n" "i + unat n \<le> pa_pages al"
  shows "pa_pages (pa_take al i n) = pa_pages al" and "page_size (pa_take al i n) = page_size al"
    and "pa_data (pa_take al i n) = pa_data al" and "pa_shape (pa_take al i n)"
    and "j < pa_pages al \<Longrightarrow> pa_isfree (pa_take al i n) j \<longleftrightarrow> pa_isfree al j \<and> \<not> (i \<le> j \<and> j < i + unat n)"
    and "j < pa_pages al \<Longrightarrow> pa_rsv (pa_take al i n) j = (if j = i then unat n else pa_rsv al j)"
proof -
  show p: "pa_pages (pa_take al i n) = pa_pages al" by (simp add: pa_take_def pa_pages_def)
  show "page_size (pa_take al i n) = page_size al" "pa_data (pa_take al i n) = pa_data al"
    by (simp_all add: pa_take_def)
  have len: "length (page_list al) = pa_pages al" "length (free_pages_mask al) = pa_pages al"
    using assms(1) by (auto simp: pa_shape_def)
  have pg: "page_list (pa_take al i n) ! j =
      (let p = (if j = i then (page_list al ! j)\<lparr>pg_reserved := n\<rparr> else page_list al ! j)
       in if i \<le> j \<and> j < i + unat n then p\<lparr>pg_free := 0\<rparr> else p)" if "j < pa_pages al" for j
    using that assms len by (auto simp: pa_take_def nth_upd_range nth_list_update Let_def)
  then show "j < pa_pages al \<Longrightarrow> pa_rsv (pa_take al i n) j = (if j = i then unat n else pa_rsv al j)"
    by (simp add: pa_rsv_def Let_def)
  show "j < pa_pages al \<Longrightarrow> pa_isfree (pa_take al i n) j \<longleftrightarrow> pa_isfree al j \<and> \<not> (i \<le> j \<and> j < i + unat n)"
    using assms len by (simp add: pa_take_def pa_isfree_def nth_upd_range)
  have "length (page_list (pa_take al i n)) = pa_pages al"
    "length (free_pages_mask (pa_take al i n)) = pa_pages al"
    "page_size (pa_take al i n) = page_size al" using len by (simp_all add: pa_take_def)
  then show "pa_shape (pa_take al i n)"
    using assms(1) p pg by (simp add: pa_shape_def Let_def)
qed

lemma pa_take_flags:
  assumes "pa_wf al" "0 < unat n" "pa_run al (unat n) i"
  shows "pa_flags (pa_take al i n)"
proof -
  have sh: "pa_shape al" and b: "i + unat n \<le> pa_pages al" using assms by (auto simp: pa_wf_def pa_run_def)
  have len: "length (page_list al) = pa_pages al" "length (free_pages_mask al) = pa_pages al"
    using sh by (auto simp: pa_shape_def)
  have fl: "free_pages_mask al ! j = (if pa_isfree al j then 1 else 0)"
    "pg_free (page_list al ! j) = (if pa_isfree al j then 1 else 0)" if "j < pa_pages al" for j
    using assms(1) that by (simp_all add: pa_wf_def pa_flags_def)
  have "free_pages_mask (pa_take al i n) ! j = (if pa_isfree (pa_take al i n) j then 1 else 0) \<and>
      pg_free (page_list (pa_take al i n) ! j) = (if pa_isfree (pa_take al i n) j then 1 else 0)"
    if j: "j < pa_pages al" for j
    unfolding pa_take_simps(5) [OF sh assms(2) b j]
    using fl [OF j] j b len by (auto simp: pa_take_def nth_upd_range nth_list_update)
  then show ?thesis by (simp add: pa_flags_def pa_take_simps(1) [OF sh assms(2) b])
qed

lemma pa_wf_rsv:
  assumes "pa_wf al"
  shows "i < pa_pages al \<Longrightarrow> pa_isfree al i \<Longrightarrow> pa_rsv al i = 0"
    and "i < pa_pages al \<Longrightarrow> 0 < pa_rsv al i \<Longrightarrow> i + pa_rsv al i \<le> pa_pages al"
    and "i < pa_pages al \<Longrightarrow> i \<le> k \<Longrightarrow> k < i + pa_rsv al i \<Longrightarrow> \<not> pa_isfree al k"
    and "i < pa_pages al \<Longrightarrow> i < k \<Longrightarrow> k < i + pa_rsv al i \<Longrightarrow> pa_rsv al k = 0"
    and "k < pa_pages al \<Longrightarrow> \<not> pa_isfree al k \<Longrightarrow> \<exists>i \<le> k. k < i + pa_rsv al i"
proof -
  have "pa_blocks_ok al" using assms by (simp add: pa_wf_def)
  note ok = this [unfolded pa_blocks_ok_def]
  show "i < pa_pages al \<Longrightarrow> pa_isfree al i \<Longrightarrow> pa_rsv al i = 0" using ok by blast
  show "i < pa_pages al \<Longrightarrow> 0 < pa_rsv al i \<Longrightarrow> i + pa_rsv al i \<le> pa_pages al" using ok by blast
  show "\<not> pa_isfree al k" if "i < pa_pages al" "i \<le> k" "k < i + pa_rsv al i"
  proof -
    have "0 < pa_rsv al i" using that by arith
    then show ?thesis using ok that by blast
  qed
  show "pa_rsv al k = 0" if "i < pa_pages al" "i < k" "k < i + pa_rsv al i"
  proof -
    have "0 < pa_rsv al i" "i \<le> k" using that by arith+
    then show ?thesis using ok that by blast
  qed
  show "k < pa_pages al \<Longrightarrow> \<not> pa_isfree al k \<Longrightarrow> \<exists>i \<le> k. k < i + pa_rsv al i" using ok by blast
qed

lemma pa_take_blocks_ok:
  assumes wf: "pa_wf al" and n: "0 < unat n" and run: "pa_run al (unat n) i"
  shows "pa_blocks_ok (pa_take al i n)"
proof -
  let ?al = "pa_take al i n" and ?n = "unat n"
  have sh: "pa_shape al" and b: "i + ?n \<le> pa_pages al" using wf run by (auto simp: pa_wf_def pa_run_def)
  note ts = pa_take_simps [OF sh n b]
  note rs = pa_wf_rsv [OF wf]
  have fr: "pa_isfree al k" "pa_rsv al k = 0" if "i \<le> k" "k < i + ?n" for k
    using pa_runD [OF run that] rs(1) that b by auto
  have apart: "k < j \<or> j + pa_rsv al j \<le> k" if "j < pa_pages al" "i \<le> k" "k < i + ?n" for j k
    using rs(3) [OF that(1), of k] fr(1) [OF that(2,3)] by force
  show ?thesis
    unfolding pa_blocks_ok_def ts(1)
  proof (intro conjI allI impI)
    fix j assume "j < pa_pages al" "pa_isfree ?al j"
    then show "pa_rsv ?al j = 0" using ts(5,6) rs(1) n by auto
  next
    fix j assume j: "j < pa_pages al" "0 < pa_rsv ?al j"
    then show "j + pa_rsv ?al j \<le> pa_pages al" using ts(6) rs(2) b by auto
  next
    fix j k assume j: "j < pa_pages al" "0 < pa_rsv ?al j" and k: "j \<le> k" "k < j + pa_rsv ?al j"
    have kp: "k < pa_pages al"
      using j k ts(6) [OF j(1)] rs(2) [OF j(1)] b by (cases "j = i") auto
    show "\<not> pa_isfree ?al k" using k j ts(5) [OF kp] ts(6) [OF j(1)] rs(3) by (auto split: if_splits)
    assume jk: "j < k"
    have "k \<noteq> i" if "j \<noteq> i" using apart [OF j(1), of i] n k jk ts(6) [OF j(1)] that by auto
    then show "pa_rsv ?al k = 0"
      using ts(6) [OF kp] ts(6) [OF j(1)] k jk fr(2) rs(4) [OF j(1) jk] by (cases "j = i") auto
  next
    fix k assume k: "k < pa_pages al" "\<not> pa_isfree ?al k"
    show "\<exists>j \<le> k. k < j + pa_rsv ?al j"
    proof (cases "i \<le> k \<and> k < i + ?n")
      case True
      then show ?thesis using ts(6) [of i] b n by (intro exI [of _ i]) auto
    next
      case False
      then obtain j where j: "j \<le> k" "k < j + pa_rsv al j" using ts(5) [OF k(1)] k rs(5) by auto
      then have "j \<noteq> i" using fr(2) [of i] n by auto
      then show ?thesis using j ts(6) [of j] k(1) by (intro exI [of _ j]) auto
    qed
  qed
qed

lemma pa_take_count:
  assumes "pa_wf al" "pa_run al (unat n) i"
  shows "unat (page_free (pa_take al i n)) = pa_free_count (pa_take al i n)"
proof -
  have c: "pa_free_count (pa_take al i n) + unat n = pa_free_count al"
    using run_count [OF _ assms(2)] assms(1) by (simp add: pa_take_def pa_free_count_def pa_wf_def)
  then have "n \<le> page_free al" using assms(1) by (simp add: pa_wf_def word_le_nat_alt)
  then show ?thesis using c assms(1) by (simp add: pa_take_def pa_wf_def unat_sub)
qed

lemma pa_take_wf:
  assumes wf: "pa_wf al" and n: "0 < unat n" and run: "pa_run al (unat n) i"
  shows "pa_wf (pa_take al i n)"
proof -
  have "pa_shape al" "i + unat n \<le> pa_pages al" using wf run by (auto simp: pa_wf_def pa_run_def)
  from pa_take_simps(4) [OF this(1) n this(2)] show ?thesis
    using pa_take_blocks_ok [OF assms] pa_take_count [OF wf run] pa_take_flags [OF assms] by (simp add: pa_wf_def)
qed

lemma pa_take_blocks:
  assumes "pa_wf al" "0 < unat n" "pa_run al (unat n) i"
  shows "pa_blocks (pa_take al i n) = insert (i, unat n) (pa_blocks al)"
    and "(i, k) \<notin> pa_blocks al"
proof -
  have sh: "pa_shape al" and b: "i + unat n \<le> pa_pages al"
    using assms by (auto simp: pa_wf_def pa_run_def)
  have "pa_rsv al i = 0"
    using pa_wf_rsv(1) [OF assms(1)] pa_runD [OF assms(3), of i] assms(2) b by simp
  then show "(i, k) \<notin> pa_blocks al" by (auto simp: pa_blocks_def)
  show "pa_blocks (pa_take al i n) = insert (i, unat n) (pa_blocks al)"
    using pa_take_simps [OF sh assms(2) b] b assms(2) \<open>pa_rsv al i = 0\<close>
    by (auto simp: pa_blocks_def split: if_splits)
qed

lemma block_used:
  assumes "pa_wf al" "(i, n) \<in> pa_blocks al"
  shows "i < pa_pages al" "0 < n" "pa_rsv al i = n" "i + n \<le> pa_pages al"
    and "i \<le> k \<Longrightarrow> k < i + n \<Longrightarrow> \<not> pa_isfree al k"
  using assms pa_wf_rsv(2,3) [OF assms(1), of i] by (auto simp: pa_blocks_def)

lemma page_index_addr:
  assumes "pa_shape al" "i < pa_pages al"
  shows "page_index al (pa_addr al i) = of_nat i"
proof -
  let ?s = "unat (page_size al)"
  have s: "0 < ?s" using assms(1) by (simp add: pa_shape_def)
  have "i * ?s < pa_pages al * ?s" using assms(2) s by simp
  also have "\<dots> \<le> 2 ^ 32" using assms(1) by (simp add: pa_shape_def)
  finally have b: "i * ?s < 2 ^ 32" .
  have "sint (of_nat (i * ?s) :: u64) = int (i * ?s)"
    using b by (intro sint_of_nat_u64) simp
  moreover have "int (i * ?s) sdiv uint (page_size al) = int i"
  proof -
    have u: "uint (page_size al) = int ?s" by simp
    have "0 < int ?s" using s by (simp only: of_nat_0_less_iff)
    then show ?thesis unfolding u by (simp add: signed_divide_int_def sgn_if zero_less_mult_iff del: int_nat_eq of_nat_unat)
  qed
  ultimately show ?thesis by (simp add: page_index_def pa_addr_def del: of_nat_mult)
qed

lemma free_eq:
  assumes wf: "pa_wf al" and blk: "(i, n) \<in> pa_blocks al"
  shows "page_alloc_free al (pa_addr al i) = Inr (pa_give al i)"
proof -
  note bl = block_used [OF wf blk]
  have sh: "pa_shape al" and fl: "pa_flags al" using wf by (auto simp: pa_wf_def)
  have len: "length (page_list al) = pa_pages al" "length (free_pages_mask al) = pa_pages al"
    and small: "pa_pages al < 2 ^ 31" and ps: "page_size al \<noteq> 0"
    using sh by (auto simp: pa_shape_def)
  have ix: "unat (page_index al (pa_addr al i)) = i"
    using page_index_addr [OF sh bl(1)] bl(1) small by (intro unat_of_nat_u32) auto
  have used: "pg_free (page_list al ! i) = 0"
    using fl bl(1,2) bl(5) [of i] by (simp add: pa_flags_def)
  let ?r = "pg_reserved (page_list al ! i)" and ?ps = "(page_list al)[i := (page_list al ! i)\<lparr>pg_free := 1\<rparr>]"
  have r: "unat ?r = n" using bl(3) by (simp add: pa_rsv_def)
  have lim: "(i + n) mod 2 ^ 32 = i + n" using bl(4) small by simp
  have nx: "\<forall>j < length ?ps. pg_next (?ps ! j) = (j + 1) mod length ?ps"
    using sh bl(1) len by (auto simp: pa_shape_def nth_list_update)
  have mc: "mark_chain n 1 ?ps i = Inr (upd_range (pg_free_update (\<lambda>_. 1)) i n ?ps)"
    using bl(1,4) len by (intro mark_chain_upd nx) simp_all
  have same: "upd_range (pg_free_update (\<lambda>_. 1)) i n ?ps = upd_range (pg_free_update (\<lambda>_. 1)) i n (page_list al)"
    using bl(1,2,4) len by (intro nth_equalityI) (auto simp: nth_upd_range nth_list_update)
  have at: "upd_range (pg_free_update (\<lambda>_. 1)) i n (page_list al) ! i = (page_list al ! i)\<lparr>pg_free := 1\<rparr>"
    using bl(1,2,4) len by (simp add: nth_upd_range)
  show ?thesis
    using ix used r lim mc ps bl(1,2,4) len mask_range_upd [of i "i + n" "free_pages_mask al" 1]
    by (simp add: page_alloc_free_def Let_def same at pa_give_def)
qed

lemma give_take:
  assumes wf: "pa_wf al" and n: "0 < unat n" and run: "pa_run al (unat n) i"
  shows "pa_give (pa_take al i n) i = al"
proof -
  have sh: "pa_shape al" and fl: "pa_flags al" and b: "i + unat n \<le> pa_pages al"
    using wf run by (auto simp: pa_wf_def pa_run_def)
  have len: "length (page_list al) = pa_pages al" "length (free_pages_mask al) = pa_pages al"
    using sh by (auto simp: pa_shape_def)
  have fr: "free_pages_mask al ! j = 1" "pg_free (page_list al ! j) = 1" if "i \<le> j" "j < i + unat n" for j
    using fl pa_runD [OF run that] that b by (auto simp: pa_flags_def)
  have "pa_rsv al i = 0" using pa_wf_rsv(1) [OF wf] pa_runD [OF run, of i] n b by simp
  then have r0: "pg_reserved (page_list al ! i) = 0" by (simp add: pa_rsv_def unat_eq_0)
  have r: "pg_reserved (page_list (pa_take al i n) ! i) = n"
    using n b len by (simp add: pa_take_def nth_upd_range)
  have pl: "page_list (pa_give (pa_take al i n) i) = page_list al"
  proof (rule nth_equalityI)
    fix j assume "j < length (page_list (pa_give (pa_take al i n) i))"
    then have j: "j < pa_pages al" using len by (simp add: pa_give_def pa_take_def Let_def)
    show "page_list (pa_give (pa_take al i n) i) ! j = page_list al ! j"
      using j b n len fr [of j] r r0
      by (auto simp: pa_give_def pa_take_def Let_def nth_upd_range nth_list_update)
  qed (simp add: pa_give_def pa_take_def Let_def)
  have mk: "free_pages_mask (pa_give (pa_take al i n) i) = free_pages_mask al"
    using fr b len r by (simp add: pa_give_def Let_def) (simp add: pa_take_def upd_range_inverse)
  have "page_free (pa_give (pa_take al i n) i) = page_free al"
    using r by (simp add: pa_give_def Let_def) (simp add: pa_take_def)
  with pl mk show ?thesis
    by (intro kt_page_allocator.equality) (simp_all add: pa_give_def pa_take_def Let_def)
qed

lemma pa_give_simps:
  assumes wf: "pa_wf al" and blk: "(i, n) \<in> pa_blocks al"
  shows "pa_pages (pa_give al i) = pa_pages al" and "page_size (pa_give al i) = page_size al"
    and "pa_data (pa_give al i) = pa_data al" and "pa_shape (pa_give al i)"
    and "j < pa_pages al \<Longrightarrow> pa_isfree (pa_give al i) j \<longleftrightarrow> pa_isfree al j \<or> (i \<le> j \<and> j < i + n)"
    and "j < pa_pages al \<Longrightarrow> pa_rsv (pa_give al i) j = (if j = i then 0 else pa_rsv al j)"
    and "pa_flags (pa_give al i)"
proof -
  note bl = block_used [OF wf blk]
  have sh: "pa_shape al" and fl: "pa_flags al" using wf by (auto simp: pa_wf_def)
  have len: "length (page_list al) = pa_pages al" "length (free_pages_mask al) = pa_pages al"
    using sh by (auto simp: pa_shape_def)
  have r: "unat (pg_reserved (page_list al ! i)) = n" using bl(3) by (simp add: pa_rsv_def)
  show p: "pa_pages (pa_give al i) = pa_pages al" by (simp add: pa_give_def pa_pages_def Let_def)
  show "page_size (pa_give al i) = page_size al" "pa_data (pa_give al i) = pa_data al"
    by (simp_all add: pa_give_def Let_def)
  have pg: "page_list (pa_give al i) ! j =
      (if j = i then (page_list al ! j)\<lparr>pg_free := 1, pg_reserved := 0\<rparr>
       else if i \<le> j \<and> j < i + n then (page_list al ! j)\<lparr>pg_free := 1\<rparr> else page_list al ! j)"
    if "j < pa_pages al" for j
    using that bl len r by (auto simp: pa_give_def Let_def nth_upd_range nth_list_update)
  then show "j < pa_pages al \<Longrightarrow> pa_rsv (pa_give al i) j = (if j = i then 0 else pa_rsv al j)"
    by (simp add: pa_rsv_def)
  have mk: "free_pages_mask (pa_give al i) ! j = (if i \<le> j \<and> j < i + n then 1 else free_pages_mask al ! j)"
    if "j < pa_pages al" for j
    using that bl len r by (simp add: pa_give_def Let_def nth_upd_range)
  then show fr: "j < pa_pages al \<Longrightarrow> pa_isfree (pa_give al i) j \<longleftrightarrow> pa_isfree al j \<or> (i \<le> j \<and> j < i + n)" for j
    by (auto simp: pa_isfree_def)
  have "length (page_list (pa_give al i)) = pa_pages al"
    "length (free_pages_mask (pa_give al i)) = pa_pages al"
    "page_size (pa_give al i) = page_size al" using len by (simp_all add: pa_give_def Let_def)
  then show "pa_shape (pa_give al i)" using sh p pg by (simp add: pa_shape_def)
  have "free_pages_mask (pa_give al i) ! j = (if pa_isfree (pa_give al i) j then 1 else 0) \<and>
      pg_free (page_list (pa_give al i) ! j) = (if pa_isfree (pa_give al i) j then 1 else 0)"
    if j: "j < pa_pages al" for j
    unfolding fr [OF j] mk [OF j] pg [OF j] using fl j bl by (auto simp: pa_flags_def)
  then show "pa_flags (pa_give al i)" using p by (simp add: pa_flags_def)
qed

lemma give_count:
  assumes wf: "pa_wf al" and blk: "(i, n) \<in> pa_blocks al"
  shows "pa_free_count (pa_give al i) = pa_free_count al + n"
proof -
  note bl = block_used [OF wf blk]
  have len: "length (free_pages_mask al) = pa_pages al" and fl: "pa_flags al"
    using wf by (auto simp: pa_wf_def pa_shape_def)
  have r: "unat (pg_reserved (page_list al ! i)) = n" using bl(3) by (simp add: pa_rsv_def)
  have m: "free_pages_mask (pa_give al i) = upd_range (\<lambda>_. 1) i n (free_pages_mask al)"
    using r by (simp add: pa_give_def Let_def)
  have undo: "upd_range (\<lambda>_. 0) i n (upd_range (\<lambda>_. 1) i n (free_pages_mask al)) = free_pages_mask al"
    using bl len fl by (intro upd_range_inverse) (auto simp: pa_flags_def)
  have "length (filter (\<lambda>m. m \<noteq> 0) (upd_range (\<lambda>_. 0) i n (upd_range (\<lambda>_. 1) i n (free_pages_mask al)))) + n =
      length (filter (\<lambda>m. m \<noteq> 0) (upd_range (\<lambda>_. 1) i n (free_pages_mask al)))"
    using bl len by (intro count_upd_range) (auto simp: nth_upd_range)
  then show ?thesis by (simp add: pa_free_count_def m undo)
qed

lemma other_block_apart:
  assumes wf: "pa_wf al" and blk: "(i, n) \<in> pa_blocks al"
    and j: "j < pa_pages al" "j \<noteq> i" and k: "j \<le> k" "k < j + pa_rsv al j"
  shows "k < i \<or> i + n \<le> k"
proof (rule ccontr)
  note bl = block_used [OF wf blk] and rs = pa_wf_rsv [OF wf]
  assume a: "\<not> (k < i \<or> i + n \<le> k)"
  show False
  proof (cases "j < i")
    case True
    then have "pa_rsv al i = 0" using rs(4) [OF j(1), of i] k a by simp
    then show False using bl by simp
  next
    case False
    then have "pa_rsv al j = 0" using rs(4) [OF bl(1), of j] bl j k a by simp
    then show False using k by simp
  qed
qed

lemma pa_give_blocks_ok:
  assumes wf: "pa_wf al" and blk: "(i, n) \<in> pa_blocks al"
  shows "pa_blocks_ok (pa_give al i)"
  unfolding pa_blocks_ok_def pa_give_simps(1) [OF wf blk]
proof (intro conjI allI impI)
  let ?al = "pa_give al i"
  note bl = block_used [OF wf blk] and gs = pa_give_simps [OF wf blk] and rs = pa_wf_rsv [OF wf]
  {
    fix j assume j: "j < pa_pages al" "pa_isfree ?al j"
    then show "pa_rsv ?al j = 0"
      using gs(5,6) [OF j(1)] rs(1) [OF j(1)] rs(4) [OF bl(1), of j] bl(3) by (auto simp: le_less)
  next
    fix j assume j: "j < pa_pages al" "0 < pa_rsv ?al j"
    then show "j + pa_rsv ?al j \<le> pa_pages al"
      using gs(6) [OF j(1)] rs(2) [OF j(1)] by (auto split: if_splits)
  next
    fix j k assume j: "j < pa_pages al" "0 < pa_rsv ?al j" and k: "j \<le> k" "k < j + pa_rsv ?al j"
    have ji: "j \<noteq> i" "pa_rsv ?al j = pa_rsv al j" using j gs(6) [OF j(1)] by (auto split: if_splits)
    have kp: "k < pa_pages al" using k ji rs(2) [OF j(1)] j by simp
    show "\<not> pa_isfree ?al k"
      using gs(5) [OF kp] rs(3) [OF j(1) k(1)] other_block_apart [OF wf blk j(1) ji(1) k(1)] k ji by auto
    assume "j < k"
    then show "pa_rsv ?al k = 0" using gs(6) [OF kp] rs(4) [OF j(1)] k ji by simp
  next
    fix k assume k: "k < pa_pages al" "\<not> pa_isfree ?al k"
    then obtain j where j: "j \<le> k" "k < j + pa_rsv al j" using gs(5) [OF k(1)] rs(5) by auto
    moreover have "j \<noteq> i" using gs(5) [OF k(1)] k j bl(3) by auto
    ultimately show "\<exists>j \<le> k. k < j + pa_rsv ?al j" using gs(6) [of j] k by (intro exI [of _ j]) simp
  }
qed

lemma pa_give_wf:
  assumes wf: "pa_wf al" and blk: "(i, n) \<in> pa_blocks al"
  shows "pa_wf (pa_give al i)" and "pa_blocks (pa_give al i) = pa_blocks al - {(i, n)}"
proof -
  let ?al = "pa_give al i"
  note bl = block_used [OF wf blk] and gs = pa_give_simps [OF wf blk]
  have "pa_free_count al + n < 2 ^ 32"
    using give_count [OF wf blk] pa_free_count_le [OF gs(4)] gs(1,4) by (simp add: pa_shape_def)
  moreover have "page_free ?al = of_nat (pa_free_count al + n)"
    using wf bl(3) of_unat_eq [of "page_free al"] of_unat_eq [of "pg_reserved (page_list al ! i)"]
    by (simp add: pa_give_def Let_def pa_wf_def pa_rsv_def)
  ultimately have "unat (page_free ?al) = pa_free_count al + n" by (intro unat_of_nat_u32)
  then have "unat (page_free ?al) = pa_free_count ?al" using give_count [OF wf blk] by simp
  then show "pa_wf ?al" using gs(4,7) pa_give_blocks_ok [OF wf blk] by (simp add: pa_wf_def)
  show "pa_blocks ?al = pa_blocks al - {(i, n)}"
    using gs(1,6) bl(3) by (auto simp: pa_blocks_def split: if_splits)
qed

subsection \<open>The allocator as a block store\<close>

definition pa_alloc :: "kt_page_allocator \<Rightarrow> u32 \<Rightarrow> (kt_page_allocator \<times> u64) option" where
  "pa_alloc al sz =
     (if sz = 0 then None
      else case page_alloc_alloc al sz of Inr (al', Some a) \<Rightarrow> Some (al', a) | _ \<Rightarrow> None)"

definition pa_free :: "kt_page_allocator \<Rightarrow> u64 \<Rightarrow> kt_page_allocator option" where
  "pa_free al a = (case page_alloc_free al a of Inr al' \<Rightarrow> Some al' | Inl e \<Rightarrow> None)"

definition pa_need :: "kt_page_allocator \<Rightarrow> u32 \<Rightarrow> nat" where
  "pa_need al sz = unat (pages_for al sz)"

lemma pages_for_nat:
  "unat (pages_for al sz) = unat sz div unat (page_size al) + (if unat sz mod unat (page_size al) \<noteq> 0 then 1 else 0)"
proof -
  let ?s = "unat (page_size al)" and ?z = "unat sz"
  have m: "sz mod page_size al \<noteq> 0 \<longleftrightarrow> ?z mod ?s \<noteq> 0"
    by (metis unat_eq_0 unat_mod)
  have d: "sz div page_size al = of_nat (?z div ?s)" by (metis unat_div of_unat_eq)
  have "?z div ?s + (if ?z mod ?s \<noteq> 0 then 1 else 0) \<le> ?z"
  proof (cases "?z mod ?s = 0")
    case False
    then have "0 < ?z" "?s \<noteq> 1" by (auto intro: gr0I)
    then have "?z div ?s < ?z" by (cases "?s = 0") (auto intro: div_less_dividend)
    then show ?thesis by simp
  qed simp
  then have "?z div ?s + (if ?z mod ?s \<noteq> 0 then 1 else 0) < 2 ^ 32"
    using u32_bound [of sz] by linarith
  then show ?thesis by (intro unat_of_nat_u32) (auto simp: pages_for_def m d)
qed

lemma pages_for_bounds:
  assumes "page_size al \<noteq> 0" "0 < unat sz"
  shows "0 < unat (pages_for al sz)"
    and "unat sz \<le> unat (pages_for al sz) * unat (page_size al)"
    and "(unat (pages_for al sz) - 1) * unat (page_size al) < unat sz"
proof -
  let ?s = "unat (page_size al)" and ?z = "unat sz"
  have s: "0 < ?s" using assms(1) by (simp add: unat_gt_0)
  have q: "?z = ?z div ?s * ?s + ?z mod ?s" by simp
  have r: "?z mod ?s < ?s" using s by simp
  show "0 < unat (pages_for al sz)"
    using assms(2) s q by (auto simp: pages_for_nat div_greater_zero_iff intro: ccontr)
  show "?z \<le> unat (pages_for al sz) * ?s"
  proof -
    have "?z \<le> ?s + ?z div ?s * ?s" using q r by linarith
    then show ?thesis by (auto simp: pages_for_nat)
  qed
  show "(unat (pages_for al sz) - 1) * ?s < ?z"
  proof (cases "?z mod ?s = 0")
    case True
    then have "0 < ?z div ?s" using assms(2) s by (auto simp: div_greater_zero_iff dvd_imp_le)
    then show ?thesis using True q s assms(2) by (simp add: pages_for_nat diff_mult_distrib)
  next
    case False
    then have "?z div ?s * ?s < ?z" using q by linarith
    then show ?thesis using False by (simp add: pages_for_nat)
  qed
qed

lemma pages_for_take: "pages_for (pa_take al i n) = pages_for al"
  by (rule ext) (simp add: pages_for_def pa_take_def)

lemma pa_addr_take: "pa_addr (pa_take al i n) = pa_addr al"
  by (rule ext) (simp add: pa_addr_def pa_take_def)

lemma pa_alloc_elim:
  assumes "pa_wf al" "pa_alloc al sz = Some (al', a)"
  obtains i where "0 < unat sz" "0 < unat (pages_for al sz)" "pa_run al (unat (pages_for al sz)) i"
    "al' = pa_take al i (pages_for al sz)" "a = pa_addr al i"
proof -
  have "sz \<noteq> 0" using assms(2) by (auto simp: pa_alloc_def split: if_splits)
  then have z: "0 < unat sz" by (simp add: unat_gt_0)
  have "page_size al \<noteq> 0" using assms(1) by (auto simp: pa_wf_def pa_shape_def)
  note n = pages_for_bounds(1) [OF this z]
  show thesis
    using that z n alloc_cases [OF assms(1) refl n] assms(2)
    by (auto simp: pa_alloc_def split: if_splits)
qed

lemma blocks_apart:
  assumes "pa_wf al" "(i, n) \<in> pa_blocks al" "(j, m) \<in> pa_blocks al" "(i, n) \<noteq> (j, m)"
  shows "i + n \<le> j \<or> j + m \<le> i"
proof -
  note bi = block_used [OF assms(1,2)] and bj = block_used [OF assms(1,3)]
  have ij: "i \<noteq> j" using assms(4) bi(3) bj(3) by auto
  show ?thesis
    using other_block_apart [OF assms(1,2) bj(1) ij [symmetric], of j]
      other_block_apart [OF assms(1,3) bi(1) ij, of i] bi bj by auto
qed

interpretation pa: block_store pa_wf pa_blocks pa_addr pa_need pa_alloc pa_free
proof
  fix al i n j m
  assume "pa_wf al" "(i, n) \<in> pa_blocks al" "(j, m) \<in> pa_blocks al" "(i, n) \<noteq> (j, m)"
  then show "i + n \<le> j \<or> j + m \<le> i" by (rule blocks_apart)
next
  fix al sz al' a assume wf: "pa_wf al" and al: "pa_alloc al sz = Some (al', a)"
  obtain i where i: "0 < unat (pages_for al sz)" "pa_run al (unat (pages_for al sz)) i"
      "al' = pa_take al i (pages_for al sz)" "a = pa_addr al i"
    using pa_alloc_elim [OF wf al] .
  show "\<exists>i. a = pa_addr al i \<and> pa_wf al' \<and> (i, pa_need al sz) \<notin> pa_blocks al \<and>
      pa_blocks al' = insert (i, pa_need al sz) (pa_blocks al)"
    using i pa_take_wf [OF wf i(1,2)] pa_take_blocks [OF wf i(1,2)]
    by (intro exI [of _ i]) (simp add: pa_need_def)
  show "pa_addr al' = pa_addr al \<and> pa_need al' = pa_need al"
    using i by (simp add: pa_addr_take pages_for_take fun_eq_iff pa_need_def)
  have "page_alloc_free al' (pa_addr al' i) = Inr (pa_give al' i)"
    using i pa_take_wf [OF wf i(1,2)] pa_take_blocks(1) [OF wf i(1,2)]
    by (intro free_eq [where n = "unat (pages_for al sz)"]) auto
  then show "pa_free al' a = Some al"
    using i give_take [OF wf i(1,2)] by (simp add: pa_free_def pa_addr_take)
next
  fix al i n assume "pa_wf al" "(i, n) \<in> pa_blocks al"
  then show "\<exists>al'. pa_free al (pa_addr al i) = Some al' \<and> pa_wf al' \<and> pa_blocks al' = pa_blocks al - {(i, n)}"
    using free_eq pa_give_wf by (simp add: pa_free_def)
qed

subsection \<open>Initialisation\<close>

lemma fit_spec:
  assumes "fit_page_count sz c = Some (t, k)"
  shows "k = t - 1 \<and> k \<noteq> 0 \<and> (c = 0 \<or> unat t \<le> unat c) \<and> (c = 0 \<longrightarrow> 40 \<le> unat sz \<longrightarrow> t = 0)"
  using assms
proof (induction sz c rule: fit_page_count.induct)
  case (1 sz c)
  show ?case
  proof (cases "c - 1 = 0 \<or> \<not> sz < metadata_bytes c")
    case True
    then show ?thesis using "1.prems" by (auto simp: fit_page_count.simps [of sz c] split: if_splits)
  next
    case False
    then have "fit_page_count sz (c - 1) = Some (t, k)"
      using "1.prems" by (simp add: fit_page_count.simps [of sz c])
    then have IH: "k = t - 1 \<and> k \<noteq> 0 \<and> (c - 1 = 0 \<or> unat t \<le> unat (c - 1))"
      using "1.IH" False by blast
    have "c = 0 \<longrightarrow> unat sz < 40"
      using False by (auto simp: metadata_bytes_def page_list_bytes_def sizeof_kt_page_allocator_def
          word_less_nat_alt)
    moreover have "c \<noteq> 0 \<longrightarrow> unat (c - 1) \<le> unat c" using unat_dec [of c] by simp
    ultimately show ?thesis using IH False by auto
  qed
qed

lemma init_pages_nth:
  assumes "i < cnt"
  shows "init_pages cnt psize ! i =
    \<lparr>pg_next = (i + 1) mod cnt, pg_free = 1, pg_offset = of_nat i * psize, pg_reserved = 0\<rparr>"
  using assms by (cases "i = cnt - 1") (auto simp: init_pages_def nth_list_update)

lemma init_some:
  assumes "kt_page_allocator_init dat sz psize = Inr (Some al)"
  shows "pa_pages al * 24 + 40 \<le> unat sz" "0 < pa_pages al" "pa_pages al \<le> unat sz div unat psize"
    "psize \<noteq> 0" "page_size al = psize" "page_free al = page_count al"
    "page_list al = init_pages (pa_pages al) psize" "free_pages_mask al = replicate (pa_pages al) 1"
proof -
  obtain t k where f: "fit_page_count sz (sz div psize) = Some (t, k)" and c: "page_count al = k"
    and oob: "unat k * 24 + 40 \<le> unat sz" and p: "psize \<noteq> 0" "page_size al = psize"
      "page_free al = page_count al" "page_list al = init_pages (unat k) psize"
      "free_pages_mask al = replicate (unat k) 1"
    using assms unfolding kt_page_allocator_init_def Let_def
    by (auto simp: sizeof_kt_page_def sizeof_kt_page_allocator_def split: if_splits option.splits)
  note fs = fit_spec [OF f]
  have "unat k \<le> unat sz div unat psize"
  proof (cases "sz div psize = 0")
    case True
    then have "k = - 1" using fs oob by auto
    then have "unat k = 4294967295" by (simp add: unsigned_minus_1_eq_mask mask_eq_exp_minus_1)
    then show ?thesis using oob u32_bound [of sz] by simp
  next
    case False
    have "t \<noteq> 0"
    proof
      assume "t = 0"
      then have "k = - 1" using fs by simp
      then have "unat k = 4294967295" by (simp add: unsigned_minus_1_eq_mask mask_eq_exp_minus_1)
      then show False using oob u32_bound [of sz] by simp
    qed
    then have "unat k \<le> unat t" using fs unat_dec [of t] by simp
    then show ?thesis using fs False by (simp add: unat_div)
  qed
  moreover have "0 < unat k" using fs by (auto simp: unat_gt_0)
  ultimately show "pa_pages al * 24 + 40 \<le> unat sz" "0 < pa_pages al"
    "pa_pages al \<le> unat sz div unat psize" "psize \<noteq> 0" "page_size al = psize"
    "page_free al = page_count al" "page_list al = init_pages (pa_pages al) psize"
    "free_pages_mask al = replicate (pa_pages al) 1"
    using c oob p by (simp_all add: pa_pages_def)
qed

lemma page_init_wf:
  assumes "kt_page_allocator_init dat sz psize = Inr (Some al)"
  shows "pa_wf al" and "pa_blocks al = {}" and "pa_run al (pa_pages al) 0"
proof -
  note i = init_some [OF assms]
  have fr: "pa_isfree al j" "pa_rsv al j = 0" if "j < pa_pages al" for j
    using that i by (simp_all add: pa_isfree_def pa_rsv_def init_pages_nth)
  have "pa_pages al * unat psize \<le> unat sz div unat psize * unat psize"
    using i(3) by (rule mult_le_mono1)
  also have "\<dots> \<le> unat sz" by simp
  finally have "pa_pages al * unat psize \<le> 2 ^ 32" using u32_bound [of sz] by simp
  moreover have "pa_pages al < 2 ^ 31" using i(1) u32_bound [of sz] by simp
  ultimately have "pa_shape al"
    using i by (simp add: pa_shape_def init_pages_nth unat_gt_0) (simp add: init_pages_def)
  moreover have "pa_flags al" using fr i by (simp add: pa_flags_def init_pages_nth)
  moreover have "pa_blocks_ok al" using fr by (simp add: pa_blocks_ok_def)
  moreover have "unat (page_free al) = pa_free_count al"
    using i by (simp add: pa_free_count_def pa_pages_def)
  ultimately show "pa_wf al" by (simp add: pa_wf_def)
  show "pa_blocks al = {}" using fr by (auto simp: pa_blocks_def)
  show "pa_run al (pa_pages al) 0" using fr by (simp add: pa_run_def)
qed

subsection \<open>Reachable allocators\<close>

text \<open>
  What a client may do: request a positive number of bytes (and possibly be refused), release
  a live block by its address, or release the address of a page that is free already.
\<close>

inductive pa_reach :: "kt_page_allocator \<Rightarrow> kt_page_allocator \<Rightarrow> bool" for al0 where
  pa_start: "pa_reach al0 al0"
| pa_alloc_step: "pa_reach al0 al \<Longrightarrow> sz \<noteq> 0 \<Longrightarrow> page_alloc_alloc al sz = Inr (al', r) \<Longrightarrow>
    pa_reach al0 al'"
| pa_free_step: "pa_reach al0 al \<Longrightarrow> (i, n) \<in> pa_blocks al \<Longrightarrow>
    page_alloc_free al (pa_addr al i) = Inr al' \<Longrightarrow> pa_reach al0 al'"
| pa_refree_step: "pa_reach al0 al \<Longrightarrow> i < pa_pages al \<Longrightarrow> pa_isfree al i \<Longrightarrow>
    page_alloc_free al (pa_addr al i) = Inr al' \<Longrightarrow> pa_reach al0 al'"

lemma alloc_positive:
  assumes wf: "pa_wf al" and z: "sz \<noteq> 0"
  shows "0 < unat (pages_for al sz)"
  using assms by (intro pages_for_bounds) (auto simp: pa_wf_def pa_shape_def unat_gt_0)

lemma free_page_ignored:
  assumes "pa_wf al" "i < pa_pages al" "pa_isfree al i"
  shows "page_alloc_free al (pa_addr al i) = Inr al"
proof -
  have sh: "pa_shape al" and fl: "pa_flags al" using assms(1) by (auto simp: pa_wf_def)
  have "unat (page_index al (pa_addr al i)) = i"
    using page_index_addr [OF sh assms(2)] assms(2) sh
    by (intro unat_of_nat_u32) (auto simp: pa_shape_def)
  then show ?thesis
    using sh fl assms(2,3) by (auto simp: page_alloc_free_def Let_def pa_shape_def pa_flags_def)
qed

lemma reach_wf:
  assumes "pa_reach al0 al" "pa_wf al0"
  shows "pa_wf al \<and> pa_pages al = pa_pages al0 \<and> page_size al = page_size al0 \<and> pa_data al = pa_data al0"
  using assms
proof (induction rule: pa_reach.induct)
  case (pa_alloc_step al sz al' r)
  then have wf: "pa_wf al" by blast
  note n = alloc_positive [OF wf pa_alloc_step.hyps(2)]
  from alloc_cases [OF wf refl n] show ?case
    using pa_alloc_step pa_take_wf [OF wf n] pa_take_simps(1-3) [of al] n
    by (auto simp: pa_wf_def pa_run_def)
next
  case (pa_free_step al i n al')
  then show ?case using free_eq [of al i n] pa_give_wf [of al i n] pa_give_simps(1-3) [of al i n] by auto
next
  case (pa_refree_step al i al')
  then show ?case using free_page_ignored [of al i] by simp
qed simp

lemma unat_pa_addr:
  assumes "unat (pa_data al) + pa_pages al * unat (page_size al) \<le> 2 ^ 64" "k < pa_pages al"
    "0 < unat (page_size al)"
  shows "unat (pa_addr al k) = unat (pa_data al) + k * unat (page_size al)"
proof -
  have "k * unat (page_size al) < pa_pages al * unat (page_size al)" using assms(2,3) by simp
  then have b: "unat (pa_data al) + k * unat (page_size al) < 2 ^ 64" using assms(1) by linarith
  have "pa_addr al k = of_nat (unat (pa_data al) + k * unat (page_size al))"
    by (simp add: pa_addr_def del: of_nat_mult)
  then show ?thesis using b by (simp only: unat_of_nat take_bit_eq_mod) simp
qed

text \<open>The bytes of a block of \<open>n\<close> pages from page \<open>i\<close> on.\<close>

definition pa_span :: "kt_page_allocator \<Rightarrow> nat \<Rightarrow> nat \<Rightarrow> nat set" where
  "pa_span al i n = {unat (pa_addr al i) ..< unat (pa_addr al i) + n * unat (page_size al)}"

text \<open>A small allocator that the concrete examples use: 64 KiB of 4 KiB pages.\<close>

definition demo_pa :: kt_page_allocator where
  "demo_pa = \<lparr>page_size = 4096, page_count = 15, page_free = 15,
    page_list = init_pages 15 4096, page_list_ptr = 40, free_pages_mask = replicate 15 1,
    free_pages_mask_ptr = 40 + 384 * 24, pa_data = 12288\<rparr>"

lemma demo_init: "kt_page_allocator_init 0 65536 4096 = Inr (Some demo_pa)"
  by (simp add: kt_page_allocator_init_def fit_page_count.simps metadata_bytes_def
      page_list_bytes_def sizeof_kt_page_allocator_def sizeof_kt_page_def align_up_def Let_def demo_pa_def)

lemmas demo_wf = page_init_wf(1) [OF demo_init]

lemma first_run_taken:
  assumes "pa_wf al" "sz \<noteq> 0" "pa_run al (unat (pages_for al sz)) i"
    "\<forall>j < i. \<not> pa_run al (unat (pages_for al sz)) j"
  shows "page_alloc_alloc al sz = Inr (pa_take al i (pages_for al sz), Some (pa_addr al i))"
  using alloc_cases [OF assms(1) refl alloc_positive [OF assms(1,2)]] assms(3,4)
  by (metis linorder_less_linear)

lemma demo_run: "pa_run demo_pa 2 0"
  by (simp add: pa_run_def pa_isfree_def pa_pages_def demo_pa_def)

lemma demo_alloc: "page_alloc_alloc demo_pa 5000 = Inr (pa_take demo_pa 0 2, Some 12288)"
proof -
  have p: "pages_for demo_pa 5000 = 2" by (simp add: pages_for_def demo_pa_def)
  have "pa_addr demo_pa 0 = 12288" by (simp add: pa_addr_def demo_pa_def)
  then show ?thesis using first_run_taken [OF demo_wf, of 5000 0] demo_run by (simp add: p)
qed

lemma demo_taken:
  "pa_wf (pa_take demo_pa 0 2)" "pa_blocks (pa_take demo_pa 0 2) = {(0, 2)}"
  "pa_run (pa_take demo_pa 0 2) 1 2" "\<forall>j < 2. \<not> pa_run (pa_take demo_pa 0 2) 1 j"
proof -
  let ?al = "pa_take demo_pa 0 2"
  have u: "unat (2 :: u32) = 2" by simp
  show "pa_wf ?al" using pa_take_wf [OF demo_wf, of 2 0] demo_run by simp
  show "pa_blocks ?al = {(0, 2)}"
    using pa_take_blocks(1) [OF demo_wf, of 2 0] demo_run page_init_wf(2) [OF demo_init] by simp
  have m: "pa_isfree ?al j \<longleftrightarrow> 2 \<le> j" if "j < 15" for j
    using that by (auto simp: pa_isfree_def pa_take_def demo_pa_def nth_upd_range)
  then show "pa_run ?al 1 2" "\<forall>j < 2. \<not> pa_run ?al 1 j"
    by (auto simp: pa_run_def pa_pages_def pa_take_def demo_pa_def)
qed

lemma demo_alloc2: "page_alloc_alloc (pa_take demo_pa 0 2) 1 =
    Inr (pa_take (pa_take demo_pa 0 2) 2 1, Some 20480)"
proof -
  let ?al = "pa_take demo_pa 0 2"
  have p: "pages_for ?al 1 = 1" by (simp add: pages_for_def demo_pa_def pa_take_def)
  have "pa_addr ?al 2 = 20480" by (simp add: pa_addr_def pa_take_def demo_pa_def)
  then show ?thesis using first_run_taken [OF demo_taken(1), of 1 2] demo_taken(3,4) by (simp add: p)
qed

lemma demo_blocks2: "pa_blocks (pa_take (pa_take demo_pa 0 2) 2 1) = {(0, 2), (2, 1)}"
  using pa_take_blocks(1) [OF demo_taken(1), of 1 2] demo_taken(2,3) by auto

text \<open>Initialising with powers of two that leave room for the tables yields an empty, well-formed
  allocator: all pages free, no live block, no more pages than the segment length divides into.\<close>

theorem init_well_formed:
  assumes "kt_page_allocator_init dat sz psize = Inr (Some al)"
  shows "pa_wf al \<and> pa_blocks al = {} \<and> pa_run al (pa_pages al) 0 \<and> 0 < pa_pages al \<and>
    unat (page_free al) = pa_pages al \<and> pa_pages al * unat psize \<le> unat sz"
proof -
  note i = init_some [OF assms] and w = page_init_wf [OF assms]
  have "pa_pages al * unat psize \<le> unat sz div unat psize * unat psize"
    using i(3) by (rule mult_le_mono1)
  also have "\<dots> \<le> unat sz" by simp
  finally show ?thesis using i(2,6) w by (simp add: pa_pages_def)
qed

theorem init_well_formed_witness:
  "kt_page_allocator_init 0 65536 4096 = Inr (Some demo_pa) \<and> pa_wf demo_pa \<and>
     pa_blocks demo_pa = {} \<and> pa_pages demo_pa = 15"
  using init_well_formed [OF demo_init] demo_init by (simp add: pa_pages_def demo_pa_def)

text \<open>C17. A request of at least one byte always returns. It is refused, with nothing changed,
  exactly when no run of enough free pages exists; otherwise it takes the first such run, which
  holds the request and not one page more than needed, and adds it as one live block.\<close>

theorem alloc_first_fit:
  assumes wf: "pa_wf al" and z: "sz \<noteq> 0" and n: "n = unat (pages_for al sz)"
  shows "unat sz \<le> n * unat (page_size al) \<and> (n - 1) * unat (page_size al) < unat sz \<and>
    (case page_alloc_alloc al sz of
       Inl e \<Rightarrow> False
     | Inr (al', None) \<Rightarrow> al' = al \<and> (\<forall>i. \<not> pa_run al n i)
     | Inr (al', Some a) \<Rightarrow> pa_wf al' \<and> (\<exists>i. a = pa_addr al i \<and> pa_run al n i \<and>
         (\<forall>j < i. \<not> pa_run al n j) \<and> (i, n) \<notin> pa_blocks al \<and>
         pa_blocks al' = insert (i, n) (pa_blocks al)))"
proof -
  have "page_size al \<noteq> 0" "0 < unat sz" using wf z by (auto simp: pa_wf_def pa_shape_def unat_gt_0)
  note b = pages_for_bounds [OF this]
  consider "page_alloc_alloc al sz = Inr (al, None)" "\<forall>i. \<not> pa_run al n i"
    | i where "pa_run al n i" "\<forall>j < i. \<not> pa_run al n j"
        "page_alloc_alloc al sz = Inr (pa_take al i (pages_for al sz), Some (pa_addr al i))"
    using alloc_cases [OF wf n] b(1) unfolding n by blast
  then show ?thesis
  proof cases
    case 1
    then show ?thesis using b n by simp
  next
    case (2 i)
    moreover have "pa_run al (unat (pages_for al sz)) i" using 2(1) n by simp
    note pa_take_wf [OF wf b(1) this] pa_take_blocks [OF wf b(1) this]
    ultimately show ?thesis using b n by auto
  qed
qed

theorem alloc_first_fit_witness:
  "\<exists>al'. page_alloc_alloc demo_pa 5000 = Inr (al', Some 12288) \<and> pa_wf al' \<and> (5000 :: nat) \<le> 2 * 4096"
proof -
  have n: "2 = unat (pages_for demo_pa 5000)" by (simp add: pages_for_def demo_pa_def)
  have "page_size demo_pa = 4096" by (simp add: demo_pa_def)
  then show ?thesis using alloc_first_fit [OF demo_wf _ n] demo_alloc by simp
qed

text \<open>The pages that no live block covers are the free ones, and the counter counts them.\<close>

definition uncovered :: "kt_page_allocator \<Rightarrow> nat set" where
  "uncovered al = {k. k < pa_pages al \<and> (\<forall>(i, n) \<in> pa_blocks al. k < i \<or> i + n \<le> k)}"

lemma uncovered_free:
  assumes "pa_wf al"
  shows "uncovered al = {k. k < pa_pages al \<and> pa_isfree al k}"
proof -
  have b: "pa_blocks_ok al" using assms by (simp add: pa_wf_def)
  have "\<not> pa_isfree al k" if "(i, n) \<in> pa_blocks al" "i \<le> k" "k < i + n" for i n k
    using block_used(5) [OF assms that(1)] that(2,3) by blast
  moreover have "\<exists>(i, n) \<in> pa_blocks al. i \<le> k \<and> k < i + n" if k: "k < pa_pages al" "\<not> pa_isfree al k" for k
  proof -
    obtain i where "i \<le> k" "k < i + pa_rsv al i" using b k unfolding pa_blocks_ok_def by blast
    then show ?thesis using k(1) by (intro bexI [of _ "(i, pa_rsv al i)"]) (auto simp: pa_blocks_def)
  qed
  ultimately have "(\<forall>(i, n) \<in> pa_blocks al. \<not> (i \<le> k \<and> k < i + n)) = pa_isfree al k" if "k < pa_pages al" for k
    using that by blast
  then show ?thesis by (auto simp: uncovered_def not_le not_less)
qed

lemma uncovered_count: "pa_wf al \<Longrightarrow> unat (page_free al) = card (uncovered al)"
  by (simp add: uncovered_free pa_wf_def pa_free_count_def pa_shape_def pa_isfree_def length_filter_conv_card)

text \<open>C11. In every allocator reached from initialisation by requests and releases, whatever the
  order of the calls, the byte ranges of any two different live blocks are disjoint, and the counter
  of free pages in the header equals the number of pages (of the page count in the header) that no
  live block covers.\<close>

theorem live_blocks_disjoint:
  assumes "kt_page_allocator_init dat sz psize = Inr (Some al0)" "pa_reach al0 al"
    and "unat (pa_data al0) + pa_pages al0 * unat psize \<le> 2 ^ 64"
  shows "(\<forall>(i, n) \<in> pa_blocks al. \<forall>(j, m) \<in> pa_blocks al. (i, n) \<noteq> (j, m) \<longrightarrow> pa_span al i n \<inter> pa_span al j m = {}) \<and>
    unat (page_free al) = card {k. k < unat (page_count al) \<and> (\<forall>(i, n) \<in> pa_blocks al. k < i \<or> i + n \<le> k)}"
proof -
  have r: "pa_wf al" "pa_pages al = pa_pages al0" "page_size al = psize" "pa_data al = pa_data al0"
    using reach_wf [OF assms(2) page_init_wf(1) [OF assms(1)]] init_some(5) [OF assms(1)] by auto
  have addr: "unat (pa_addr al k) = unat (pa_data al) + k * unat psize" if "k < pa_pages al" for k
    using that r assms(3) by (intro unat_pa_addr [where al = al, unfolded r(3)]) (auto simp: pa_wf_def pa_shape_def)
  have "pa_span al i n \<inter> pa_span al j m = {}"
    if b: "(i, n) \<in> pa_blocks al" "(j, m) \<in> pa_blocks al" "(i, n) \<noteq> (j, m)" for i n j m
  proof -
    have ai: "unat (pa_addr al i) = unat (pa_data al) + i * unat psize"
      and aj: "unat (pa_addr al j) = unat (pa_data al) + j * unat psize"
      using addr block_used(1) [OF r(1) b(1)] block_used(1) [OF r(1) b(2)] by auto
    from blocks_apart [OF r(1) b] have "(i + n) * unat psize \<le> j * unat psize \<or> (j + m) * unat psize \<le> i * unat psize"
      by (auto intro: mult_le_mono1)
    then show ?thesis using ai aj by (auto simp: pa_span_def r(3) add_mult_distrib)
  qed
  then have "\<forall>(i, n) \<in> pa_blocks al. \<forall>(j, m) \<in> pa_blocks al. (i, n) \<noteq> (j, m) \<longrightarrow> pa_span al i n \<inter> pa_span al j m = {}"
    by blast
  then show ?thesis using uncovered_count [OF r(1)] by (simp only: uncovered_def pa_pages_def simp_thms)
qed

theorem live_blocks_disjoint_witness:
  "\<exists>al al'. page_alloc_alloc demo_pa 5000 = Inr (al, Some 12288) \<and>
     page_alloc_alloc al 1 = Inr (al', Some 20480) \<and> pa_span al' 0 2 \<inter> pa_span al' 2 1 = {} \<and>
     unat (page_free al') = card {k. k < unat (page_count al') \<and> (\<forall>(i, n) \<in> pa_blocks al'. k < i \<or> i + n \<le> k)}"
proof -
  let ?al = "pa_take (pa_take demo_pa 0 2) 2 1"
  have "pa_reach demo_pa ?al"
    by (rule pa_alloc_step [OF pa_alloc_step [OF pa_start _ demo_alloc] _ demo_alloc2]) simp_all
  moreover have "unat (pa_data demo_pa) + pa_pages demo_pa * unat (4096 :: u32) \<le> 2 ^ 64"
    by (simp add: demo_pa_def pa_pages_def)
  ultimately have d: "(\<forall>(i, n) \<in> pa_blocks ?al. \<forall>(j, m) \<in> pa_blocks ?al. (i, n) \<noteq> (j, m) \<longrightarrow>
        pa_span ?al i n \<inter> pa_span ?al j m = {}) \<and>
      unat (page_free ?al) = card {k. k < unat (page_count ?al) \<and> (\<forall>(i, n) \<in> pa_blocks ?al. k < i \<or> i + n \<le> k)}"
    by (rule live_blocks_disjoint [OF demo_init])
  moreover have "(0, 2) \<in> pa_blocks ?al" "(2, 1) \<in> pa_blocks ?al" using demo_blocks2 by simp_all
  ultimately show ?thesis using demo_alloc demo_alloc2 by fastforce
qed

text \<open>Releasing a live block by its address removes exactly that block, makes its pages free
  again and adds them to the counter; releasing the same address again changes nothing.\<close>

theorem free_releases_block:
  assumes wf: "pa_wf al" and blk: "(i, n) \<in> pa_blocks al"
  shows "\<exists>al'. page_alloc_free al (pa_addr al i) = Inr al' \<and> pa_wf al' \<and>
    pa_blocks al' = pa_blocks al - {(i, n)} \<and> pa_run al' n i \<and>
    pa_free_count al' = pa_free_count al + n \<and> page_alloc_free al' (pa_addr al i) = Inr al'"
proof -
  note gs = pa_give_simps [OF wf blk] and gw = pa_give_wf [OF wf blk] and bl = block_used [OF wf blk]
  have run: "pa_run (pa_give al i) n i" using gs(1,5) bl(4) by (simp add: pa_run_def)
  have "pa_addr (pa_give al i) i = pa_addr al i" using gs(2,3) by (simp add: pa_addr_def)
  moreover have "page_alloc_free (pa_give al i) (pa_addr (pa_give al i) i) = Inr (pa_give al i)"
    using gw(1) gs(1,5) bl(1,2) by (intro free_page_ignored) auto
  ultimately show ?thesis using free_eq [OF wf blk] gw run give_count [OF wf blk] by auto
qed

theorem free_releases_block_witness:
  "\<exists>al'. page_alloc_free (pa_take demo_pa 0 2) (pa_addr (pa_take demo_pa 0 2) 0) = Inr al' \<and>
     pa_blocks al' = {} \<and> pa_run al' 2 0"
  using free_releases_block [OF demo_taken(1), of 0 2] demo_taken(2) by auto

text \<open>C31. A sequence of successful requests yields one address per request, each the start of
  a new block of its size, and releasing the addresses in reverse order restores the allocator
  exactly as it was: descriptors, mask and counter.\<close>

theorem alloc_free_roundtrip:
  assumes "pa_wf al" "alloc_all pa_alloc al szs = Some (al', as)"
  shows "release_all pa_free al' (rev as) = Some al \<and> pa_wf al' \<and> length as = length szs \<and>
    (\<forall>k < length szs. \<exists>i. as ! k = pa_addr al i \<and>
       (i, unat (pages_for al (szs ! k))) \<in> pa_blocks al' - pa_blocks al)"
  using pa.release_alloc_all [OF assms] pa.alloc_all_blocks [OF assms] by (simp add: pa_need_def)

theorem alloc_free_roundtrip_witness:
  "\<exists>al'. alloc_all pa_alloc demo_pa [5000, 1] = Some (al', [12288, 20480]) \<and>
     release_all pa_free al' [20480, 12288] = Some demo_pa"
proof -
  have "alloc_all pa_alloc demo_pa [5000, 1] =
      Some (pa_take (pa_take demo_pa 0 2) 2 1, [12288, 20480])"
    using demo_alloc demo_alloc2 by (simp add: pa_alloc_def)
  then show ?thesis using alloc_free_roundtrip [OF demo_wf] by fastforce
qed

lemma find_zero_never_returns:
  assumes "find_aligned_from al needed idx = Some r"
  shows "needed = 0 \<longrightarrow> pa_shape al \<longrightarrow> \<not> (\<exists>i \<ge> idx. i < pa_pages al \<and> pa_isfree al i)"
proof (rule find_aligned_from.raw_induct [OF _ assms, where P = "\<lambda>al needed idx r.
    needed = 0 \<longrightarrow> pa_shape al \<longrightarrow> \<not> (\<exists>i \<ge> idx. i < pa_pages al \<and> pa_isfree al i)"], intro impI notI)
  fix f al and needed idx :: nat and r
  assume IH: "\<And>al needed idx r. f al needed idx = Some r \<Longrightarrow> needed = 0 \<longrightarrow> pa_shape al \<longrightarrow>
      \<not> (\<exists>i \<ge> idx. i < pa_pages al \<and> pa_isfree al i)"
    and body: "(case search_first_free_page_from al idx of
        Inl e \<Rightarrow> Some (Inl e)
      | Inr None \<Rightarrow> Some (Inr None)
      | Inr (Some i) \<Rightarrow>
          if needed = 1 then Some (Inr (Some i))
          else case scan_pages al needed i 1 of
              Inl e \<Rightarrow> Some (Inl e)
            | Inr Connected \<Rightarrow> Some (Inr (Some i))
            | Inr (Blocked k) \<Rightarrow> f al needed k
            | Inr Undecided \<Rightarrow> f al needed i) = Some r"
    and z: "needed = 0" and sh: "pa_shape al" and ex: "\<exists>i \<ge> idx. i < pa_pages al \<and> pa_isfree al i"
  obtain i where i: "search_first_free_page_from al idx = Inr (Some i)" "i < pa_pages al" "pa_isfree al i"
    using search_spec [OF sh, of idx] ex by (auto split: sum.splits option.splits)
  have "scan_pages al 0 i 1 = Inr Undecided" by (simp add: scan_pages.simps [of al])
  then have "f al 0 i = Some r" using body i(1) z by simp
  then show False using IH [of al 0 i r] sh i(2,3) by blast
qed

text \<open>C39. A request of zero bytes never returns while a free page is left: the search keeps
  finding the same page and never decides.\<close>

theorem alloc_zero_diverges:
  assumes "pa_wf al" "i < pa_pages al" "pa_isfree al i"
  shows "page_alloc_alloc al 0 = Inl Diverges"
proof -
  have sh: "pa_shape al" and p: "page_size al \<noteq> 0" using assms(1) by (auto simp: pa_wf_def pa_shape_def)
  have "find_aligned_from al 0 0 = None"
    using find_zero_never_returns [of al 0 0] sh assms(2,3) by (cases "find_aligned_from al 0 0") auto
  then show ?thesis
    using p by (simp add: page_alloc_alloc_def pages_for_def find_aligned_pages_def Let_def)
qed

theorem alloc_zero_diverges_witness: "page_alloc_alloc demo_pa 0 = Inl Diverges"
  by (rule alloc_zero_diverges [OF demo_wf, of 0])
    (simp_all add: pa_isfree_def pa_pages_def demo_pa_def)

subsection \<open>The daemon's allocator\<close>

text \<open>The allocator of a 1 MiB segment at \<open>dat\<close> with 4 KiB pages, as initialisation leaves it.\<close>

definition daemon_pa :: "u64 \<Rightarrow> kt_page_allocator" where
  "daemon_pa dat = \<lparr>page_size = 4096, page_count = 255, page_free = 255,
    page_list = init_pages 255 4096, page_list_ptr = dat + 40, free_pages_mask = replicate 255 1,
    free_pages_mask_ptr = dat + 40 + 147456, pa_data = align_up (dat + 40 + 147456 + 256) 4096\<rparr>"

lemma daemon_pa_init: "kt_page_allocator_init dat 1048576 4096 = Inr (Some (daemon_pa dat))"
  by (simp add: kt_page_allocator_init_def fit_page_count.simps metadata_bytes_def
      page_list_bytes_def sizeof_kt_page_allocator_def sizeof_kt_page_def Let_def daemon_pa_def)

lemma daemon_pa_simps [simp]:
  "pa_pages (daemon_pa dat) = 255" "page_size (daemon_pa dat) = 4096"
  by (simp_all add: daemon_pa_def pa_pages_def)

lemma daemon_pa_data:
  assumes "unat dat mod 4096 = 0" "unat dat + 2 ^ 21 \<le> 2 ^ 64"
  shows "unat (pa_data (daemon_pa dat)) = unat dat + 151552"
proof -
  define x where "x = dat + 40 + 147456 + 256 + 4096 - 1"
  obtain q where q: "unat dat = 4096 * q" using assms(1) by (auto simp: mod_eq_0_iff_dvd)
  have d: "dat = of_nat (unat dat)" by simp
  have "x = dat + 151847" by (simp add: x_def)
  also have "\<dots> = of_nat (unat dat + 151847)" by (subst d) (simp only: of_nat_add of_nat_numeral)
  finally have "unat x = 4096 * q + 151847"
    unfolding q by (rule unat_of_nat_u64) (use assms(2) q in simp)
  then have "unat (x div 4096) = q + 37" by (simp add: unat_div)
  then have "x div 4096 = of_nat (q + 37)" by (metis of_unat_eq)
  then have "x div 4096 * 4096 = of_nat ((q + 37) * 4096)" by (simp only: of_nat_mult of_nat_numeral)
  then have "unat (x div 4096 * 4096) = (q + 37) * 4096"
    by (rule unat_of_nat_u64) (use assms(2) q in simp)
  then have "unat (x div 4096 * 4096) = unat dat + 151552" using q by simp
  then show ?thesis by (simp add: daemon_pa_def align_up_def x_def)
qed

lemma daemon_pa_addr:
  assumes "unat dat mod 4096 = 0" "unat dat + 2 ^ 21 \<le> 2 ^ 64" "k < 255"
  shows "unat (pa_addr (daemon_pa dat) k) = unat dat + 151552 + k * 4096"
  using assms(2,3) daemon_pa_data [OF assms(1,2)] unat_pa_addr [of "daemon_pa dat" k] by simp

text \<open>
  While nothing is released, allocation goes upwards: with exactly the pages from \<open>k\<close> on free, the
  next request of \<open>n\<close> pages gets pages \<open>k\<close> to \<open>k + n - 1\<close>.
\<close>

definition pa_bump :: "kt_page_allocator \<Rightarrow> nat \<Rightarrow> bool" where
  "pa_bump al k \<longleftrightarrow> pa_wf al \<and> (\<forall>i < pa_pages al. pa_isfree al i \<longleftrightarrow> k \<le> i)"

lemma bump_init: "kt_page_allocator_init dat sz psize = Inr (Some al) \<Longrightarrow> pa_bump al 0"
  using page_init_wf [of dat sz psize al] pa_runD [of al "pa_pages al" 0] by (simp add: pa_bump_def)

lemma bump_alloc:
  assumes "pa_bump al k" "sz \<noteq> 0" "n = unat (pages_for al sz)" "k + n \<le> pa_pages al"
  shows "\<exists>al'. page_alloc_alloc al sz = Inr (al', Some (pa_addr al k)) \<and> pa_bump al' (k + n) \<and>
    pa_pages al' = pa_pages al \<and> page_size al' = page_size al \<and> pa_addr al' = pa_addr al \<and>
    pages_for al' = pages_for al"
proof -
  have wf: "pa_wf al" and fr: "\<And>i. i < pa_pages al \<Longrightarrow> pa_isfree al i \<longleftrightarrow> k \<le> i"
    using assms(1) by (auto simp: pa_bump_def)
  have n: "0 < n" using alloc_positive [OF wf assms(2)] assms(3) by simp
  have sh: "pa_shape al" using wf by (simp add: pa_wf_def)
  have run: "pa_run al n k" using fr assms(4) by (auto simp: pa_run_def)
  have "\<not> pa_run al n j" if "j < k" for j
    using that fr [of j] n assms(4) pa_runD [of al n j j] by auto
  then have a: "page_alloc_alloc al sz = Inr (pa_take al k (pages_for al sz), Some (pa_addr al k))"
    using first_run_taken [OF wf assms(2), of k] run assms(3) by simp
  note ts = pa_take_simps [OF sh n [unfolded assms(3)], of k] and
    tw = pa_take_wf [OF wf n [unfolded assms(3)] run [unfolded assms(3)]]
  have "pa_bump (pa_take al k (pages_for al sz)) (k + n)"
    using tw ts(1,5) fr assms(3,4) by (auto simp: pa_bump_def)
  then show ?thesis
    using a ts(1,2) assms(3,4) by (auto simp: pa_addr_take pages_for_take)
qed

text \<open>C38. With the daemon's parameters, a page-aligned segment of 1 MiB and pages of 4 KiB, the
  allocator counts 255 pages but places the first one 37 pages into the segment, because the
  size of a descriptor is multiplied in twice: every page from 219 on lies past the end of the
  segment, and only the first 219 are backed by memory.\<close>

theorem daemon_segment_overrun:
  assumes "unat dat mod 4096 = 0" "unat dat + 2 ^ 21 \<le> 2 ^ 64"
  shows "\<exists>al. kt_page_allocator_init dat 1048576 4096 = Inr (Some al) \<and> pa_pages al = 255 \<and>
    (\<forall>i < 255. unat dat + 2 ^ 20 < unat (pa_addr al i) + 4096 \<longleftrightarrow> 219 \<le> i)"
  using daemon_pa_init [of dat] daemon_pa_addr [OF assms] by (intro exI [of _ "daemon_pa dat"]) auto

theorem daemon_segment_overrun_witness:
  "\<exists>al. kt_page_allocator_init 0x10000 1048576 4096 = Inr (Some al) \<and> pa_pages al = 255 \<and>
    0x10000 + 2 ^ 20 < unat (pa_addr al 219) + 4096"
  using daemon_segment_overrun [of "0x10000"] by auto

end
