(* ===== verification/KT_Memory.thy ===== *)
theory KT_Memory
  imports KT_Ringbuf
begin

section \<open>Shared memory segments (\<open>src/src/kt_memory.c\<close>, \<open>kt_memory.h\<close>) and time (\<open>kt_common.c\<close>)\<close>

text \<open>
  The segments are opened with calls to the operating system. The model takes the answers of
  these calls as arguments and records the calls, in order, as a trace. \<open>kt_shm\<close> is what lies
  in the data segment once the daemon has laid it out: the two rings, the packet buffers as
  one array of bytes, and their metadata. Buffer \<open>i\<close> is the bytes from \<open>2048 * i\<close> on, so a
  copy that is too long runs into the next buffer, as it does in C.

  Shown here: creating and destroying a segment releases all it acquired; a failure after
  \<open>shm_open\<close> leaves the descriptor open.
\<close>

subsection \<open>Data\<close>

record kt_memory =
  mem_name :: string
  mem_fd :: int
  mem_addr :: u64
  mem_size :: u32
  mem_used :: u32

record kt_metadata =
  md_transport :: u16
  md_txtime :: u64
  md_eth_src :: "u8 list"
  md_eth_dst :: "u8 list"
  md_ip_src :: u32
  md_ip_dst :: u32
  md_udp_dport :: u16
  md_size :: u64

definition KT_METADATA_TRANSPORT_ETHERNET :: u16 where "KT_METADATA_TRANSPORT_ETHERNET = 1"
definition KT_METADATA_TRANSPORT_UDP :: u16 where "KT_METADATA_TRANSPORT_UDP = 2"

record kt_mem_layout =
  tx_ring_offset :: u64
  free_ring_offset :: u64
  mbuf_pool_offset :: u64
  metadata_pool_offset :: u64

definition sizeof_kt_mbuf :: nat where "sizeof_kt_mbuf = 2048"
definition sizeof_kt_metadata :: nat where "sizeof_kt_metadata = 48"

definition KT_DEFAULT_MEMORY_SIZE :: u32 where "KT_DEFAULT_MEMORY_SIZE = 1048576"

definition KT_DEFAULT_SHARED_DATA_MEMORY_NAME :: string where
  "KT_DEFAULT_SHARED_DATA_MEMORY_NAME = ''ktsnd_data_memory''"

definition KT_DEFAULT_SHARED_CTRL_MEMORY_NAME :: string where
  "KT_DEFAULT_SHARED_CTRL_MEMORY_NAME = ''ktsnd_meta_memory''"

record kt_shm =
  shm_tx :: kt_ringbuf
  shm_free :: kt_ringbuf
  shm_mbufs :: "u8 list"
  shm_metadata :: "kt_metadata list"

subsection \<open>System calls and their answers\<close>

datatype oflag = O_CREAT | O_EXCL | O_RDWR

definition S_IRUSR :: nat where "S_IRUSR = 256"

text \<open>A call with its arguments and, where it matters, its answer (\<open>None\<close> for \<open>MAP_FAILED\<close>).\<close>

datatype posix_call =
    Malloc bool
  | ShmOpen string "oflag set" nat int
  | Ftruncate int u64 int
  | Mmap int u64 "u64 option"
  | Munmap u64 u64
  | ShmUnlink string
  | Close int
  | Free

record posix_answers =
  ans_malloc :: bool
  ans_fd :: int
  ans_ftruncate :: int
  ans_mmap :: "u64 option"

subsection \<open>Operations\<close>

text \<open>The name field holds 63 characters and the size field 32 bits.\<close>

definition kt_memory_alloc ::
  "posix_answers \<Rightarrow> string \<Rightarrow> u64 \<Rightarrow> oflag set \<Rightarrow> nat \<Rightarrow> kt_memory option \<times> posix_call list" where
  "kt_memory_alloc an name sz oflags omode =
     (if \<not> ans_malloc an then (None, [Malloc False])
      else
        let fd = ans_fd an;
            opened = [Malloc True, ShmOpen name oflags omode fd];
            sized = opened @ [Ftruncate fd sz (ans_ftruncate an)];
            mapped = sized @ [Mmap fd sz (ans_mmap an)]
        in if fd = - 1 then (None, opened @ [Free])
           else if ans_ftruncate an \<noteq> 0 then (None, sized @ [Free])
           else case ans_mmap an of
             None \<Rightarrow> (None, mapped @ [Free])
           | Some addr \<Rightarrow>
               (Some \<lparr>mem_name = take 63 name, mem_fd = fd, mem_addr = addr,
                      mem_size = ucast sz, mem_used = 0\<rparr>, mapped))"

definition kt_memory_attach ::
  "posix_answers \<Rightarrow> string \<Rightarrow> u64 \<Rightarrow> kt_memory option \<times> posix_call list" where
  "kt_memory_attach an name sz = kt_memory_alloc an name sz {O_RDWR} 0"

definition kt_memory_create ::
  "posix_answers \<Rightarrow> string \<Rightarrow> u64 \<Rightarrow> kt_memory option \<times> posix_call list" where
  "kt_memory_create an name sz = kt_memory_alloc an name sz {O_CREAT, O_EXCL, O_RDWR} S_IRUSR"

definition kt_memory_destroy :: "kt_memory \<Rightarrow> int \<times> posix_call list" where
  "kt_memory_destroy m =
     (0, [Munmap (mem_addr m) (ucast (mem_size m)), ShmUnlink (mem_name m), Close (mem_fd m), Free])"

text \<open>\<open>munmap_r\<close> and \<open>close_r\<close> are the results of \<open>munmap\<close> and of the given \<open>_close\<close>.\<close>

definition kt_memory_detach :: "int \<Rightarrow> int \<Rightarrow> kt_memory \<Rightarrow> int \<times> posix_call list" where
  "kt_memory_detach munmap_r close_r m =
     (let unmap = Munmap (mem_addr m) (ucast (mem_size m)) in
      if munmap_r < 0 then (- 1, [unmap])
      else if close_r < 0 then (- 1, [unmap, Close (mem_fd m)])
      else (0, [unmap, Close (mem_fd m), Free]))"

subsection \<open>Time (\<open>kt_common.c\<close>)\<close>

definition NSEC_PER_SEC :: int where "NSEC_PER_SEC = 1000000000"

text \<open>The arguments are the fields that \<open>clock_gettime\<close> stores.\<close>

definition kt_get_realtime_ns :: "int \<Rightarrow> int \<Rightarrow> int res" where
  "kt_get_realtime_ns tv_sec tv_nsec =
     rbind (i64_checked (tv_sec * NSEC_PER_SEC)) (\<lambda>s. i64_checked (s + tv_nsec))"

definition kt_get_time_diff_ns :: "int \<Rightarrow> int \<Rightarrow> int res" where
  "kt_get_time_diff_ns start stop = i64_checked (stop - start)"

lemma realtime_in_range:
  assumes "0 \<le> tv_sec" "tv_sec < 2 ^ 33" "0 \<le> tv_nsec" "tv_nsec < NSEC_PER_SEC"
  shows "kt_get_realtime_ns tv_sec tv_nsec = Inr (tv_sec * NSEC_PER_SEC + tv_nsec)"
proof -
  have "tv_sec * NSEC_PER_SEC \<le> (2 ^ 33 - 1) * NSEC_PER_SEC"
    using assms(2) by (intro mult_right_mono) (simp_all add: NSEC_PER_SEC_def)
  then have "is_i64 (tv_sec * NSEC_PER_SEC)" "is_i64 (tv_sec * NSEC_PER_SEC + tv_nsec)"
    using assms by (simp_all add: is_i64_def INT64_MAX_def INT64_MIN_def NSEC_PER_SEC_def)
  then show ?thesis by (simp add: kt_get_realtime_ns_def)
qed

text \<open>A clock reading between 1970 and 2242.\<close>

definition clock_ok :: "int \<times> int \<Rightarrow> bool" where
  "clock_ok clock \<longleftrightarrow> 0 \<le> fst clock \<and> fst clock < 2 ^ 33 \<and> 0 \<le> snd clock \<and> snd clock < NSEC_PER_SEC"

definition clock_ns :: "int \<times> int \<Rightarrow> int" where
  "clock_ns clock = fst clock * NSEC_PER_SEC + snd clock"

lemma clock_reading: "clock_ok clock \<Longrightarrow> kt_get_realtime_ns (fst clock) (snd clock) = Inr (clock_ns clock)"
  by (simp add: clock_ok_def clock_ns_def realtime_in_range)

lemma clock_bounds: "clock_ok clock \<Longrightarrow> 0 \<le> clock_ns clock \<and> clock_ns clock < 2 ^ 63"
  by (simp add: clock_ok_def clock_ns_def NSEC_PER_SEC_def)

subsection \<open>What a process holds after a sequence of calls\<close>

record held =
  held_blocks :: nat
  held_fds :: "int set"
  held_maps :: "(u64 \<times> u64) set"

fun after_call :: "held \<Rightarrow> posix_call \<Rightarrow> held" where
  "after_call h (Malloc got) = (if got then h\<lparr>held_blocks := held_blocks h + 1\<rparr> else h)"
| "after_call h (ShmOpen name fl mode fd) = (if fd = - 1 then h else h\<lparr>held_fds := insert fd (held_fds h)\<rparr>)"
| "after_call h (Mmap fd sz (Some addr)) = h\<lparr>held_maps := insert (addr, sz) (held_maps h)\<rparr>"
| "after_call h (Munmap addr sz) = h\<lparr>held_maps := held_maps h - {(addr, sz)}\<rparr>"
| "after_call h (Close fd) = h\<lparr>held_fds := held_fds h - {fd}\<rparr>"
| "after_call h Free = h\<lparr>held_blocks := held_blocks h - 1\<rparr>"
| "after_call h c = h"

definition after_calls :: "held \<Rightarrow> posix_call list \<Rightarrow> held" where
  "after_calls h cs = foldl after_call h cs"

lemma u32_size_roundtrip: "unat sz < 2 ^ 32 \<Longrightarrow> ucast (ucast (sz :: u64) :: u32) = sz"
  by (simp add: word_unat_eq_iff unsigned_ucast_eq unsigned_take_bit_eq take_bit_nat_eq_self)

lemmas memory_defs = kt_memory_create_def kt_memory_attach_def kt_memory_alloc_def
  kt_memory_destroy_def kt_memory_detach_def after_calls_def

text \<open>
  Creating a segment of less than 4 GiB and destroying it, or attaching to it and detaching
  successfully, leaves the process holding exactly what it held before: descriptor closed, mapping
  removed with the address and length it was made with, block freed; destroying also unlinks the
  name that was opened.
\<close>

theorem memory_release_balanced:
  assumes "unat sz < 2 ^ 32" "length name \<le> 63" "ans_fd an \<notin> held_fds h"
    and "\<forall>addr. (addr, sz) \<notin> held_maps h"
  shows "(kt_memory_create an name sz = (Some m, tr) \<longrightarrow>
      after_calls h (tr @ snd (kt_memory_destroy m)) = h \<and>
      ShmUnlink name \<in> set (snd (kt_memory_destroy m))) \<and>
    (kt_memory_attach an name sz = (Some m, tr) \<longrightarrow> 0 \<le> munmap_r \<longrightarrow> 0 \<le> close_r \<longrightarrow>
      after_calls h (tr @ snd (kt_memory_detach munmap_r close_r m)) = h)"
  using assms u32_size_roundtrip [OF assms(1)]
  by (auto simp: memory_defs Let_def split: if_splits option.splits)

theorem memory_release_balanced_witness:
  "\<exists>m tr. kt_memory_create \<lparr>ans_malloc = True, ans_fd = 3, ans_ftruncate = 0, ans_mmap = Some 4096\<rparr>
       ''ktsnd_data_memory'' 1048576 = (Some m, tr) \<and>
     after_calls \<lparr>held_blocks = 0, held_fds = {}, held_maps = {}\<rparr> (tr @ snd (kt_memory_destroy m)) =
       \<lparr>held_blocks = 0, held_fds = {}, held_maps = {}\<rparr>"
proof -
  let ?an = "\<lparr>ans_malloc = True, ans_fd = 3, ans_ftruncate = 0, ans_mmap = Some 4096\<rparr>"
  obtain m tr where c: "kt_memory_create ?an ''ktsnd_data_memory'' 1048576 = (Some m, tr)"
    by (simp add: kt_memory_create_def kt_memory_alloc_def)
  show ?thesis
    using memory_release_balanced [of 1048576 "''ktsnd_data_memory''" ?an
        "\<lparr>held_blocks = 0, held_fds = {}, held_maps = {}\<rparr>" m tr] c by auto
qed

text \<open>
  When \<open>ftruncate\<close> or \<open>mmap\<close> fails the call returns \<open>NULL\<close> and frees its block, but the
  descriptor that \<open>shm_open\<close> returned stays open, and nobody has it any more.
\<close>

theorem memory_failure_leaks_fd:
  assumes "ans_malloc an" "ans_fd an \<noteq> - 1" "ans_ftruncate an \<noteq> 0 \<or> ans_mmap an = None"
  shows "\<exists>tr. kt_memory_alloc an name sz oflags omode = (None, tr) \<and>
    held_fds (after_calls h tr) = insert (ans_fd an) (held_fds h) \<and>
    held_blocks (after_calls h tr) = held_blocks h \<and> held_maps (after_calls h tr) = held_maps h"
  using assms by (auto simp: memory_defs Let_def split: option.splits)

theorem memory_failure_leaks_fd_witness:
  "\<exists>tr. kt_memory_alloc \<lparr>ans_malloc = True, ans_fd = 3, ans_ftruncate = 0, ans_mmap = None\<rparr>
      ''ktsnd_data_memory'' 1048576 {O_RDWR} 0 = (None, tr) \<and>
    held_fds (after_calls \<lparr>held_blocks = 0, held_fds = {}, held_maps = {}\<rparr> tr) = {3}"
  using memory_failure_leaks_fd
    [of "\<lparr>ans_malloc = True, ans_fd = 3, ans_ftruncate = 0, ans_mmap = None\<rparr>" "''ktsnd_data_memory''"
      1048576 "{O_RDWR}" 0 "\<lparr>held_blocks = 0, held_fds = {}, held_maps = {}\<rparr>"]
  by auto

end
