(* ===== verification/KT_Packet.thy ===== *)
theory KT_Packet
  imports KT_Memory
begin

unbundle bit_operations_syntax

section \<open>Building the frame (\<open>prepare_packet\<close> in \<open>src/ktsnd.c\<close>)\<close>

text \<open>
  The daemon writes Ethernet, IPv4 and UDP headers and the payload into the data area of a DPDK
  buffer. The model writes the same bytes at the same offsets into a list of bytes; a write
  past the data area, or a read past the packet pool, is the fault \<open>OutOfBounds\<close>. The header
  checksum is DPDK's \<open>rte_ipv4_cksum\<close>, a parameter of the model. The structure of the headers
  is that of \<open>rte_ether_hdr\<close> (14 bytes), \<open>rte_ipv4_hdr\<close> (20) and \<open>rte_udp_hdr\<close> (8).

  Shown here: a receiver that parses the frame of a UDP packet gets back the addresses, ports
  and payload of the metadata; a raw Ethernet packet is the payload unchanged.
\<close>

subsection \<open>Data\<close>

text \<open>The fields of \<open>struct rte_mbuf\<close> that the daemon sets; \<open>mb_data\<close> starts at \<open>rte_pktmbuf_mtod\<close>.\<close>

record rte_mbuf =
  mb_data :: "u8 list"
  mb_data_len :: u16
  mb_pkt_len :: u32
  mb_next_null :: bool
  mb_nb_segs :: u16

definition SRC_PORT :: u16 where "SRC_PORT = 9999"
definition IP_UDP :: u8 where "IP_UDP = 17"
definition RTE_ETHER_ADDR_LEN :: nat where "RTE_ETHER_ADDR_LEN = 6"
definition RTE_ETHER_HDR_LEN :: u64 where "RTE_ETHER_HDR_LEN = 14"
definition sizeof_rte_ipv4_hdr :: u64 where "sizeof_rte_ipv4_hdr = 20"
definition sizeof_rte_udp_hdr :: u64 where "sizeof_rte_udp_hdr = 8"

text \<open>A 16-bit store in the byte order of the machine.\<close>

definition le16 :: "u16 \<Rightarrow> u8 list" where
  "le16 w = [ucast w, ucast (drop_bit 8 w)]"

subsection \<open>Operations\<close>

definition put_bytes :: "u8 list \<Rightarrow> nat \<times> u8 list \<Rightarrow> u8 list res" where
  "put_bytes d w = mem_write d (fst w) (snd w) (length (snd w))"

text \<open>The IPv4 header, in the order of the assignments, at offset 14; then the UDP header at 34.\<close>

definition put_ipv4 :: "(u8 list \<Rightarrow> u16) \<Rightarrow> kt_metadata \<Rightarrow> u8 list \<Rightarrow> u8 list res" where
  "put_ipv4 cksum md d =
     rbind (rfold put_bytes d
       [(30, be32 (md_ip_dst md)),
        (26, be32 (md_ip_src md)),
        (14, [0x45]),
        (15, [0]),
        (16, be16 (ucast (sizeof_rte_ipv4_hdr + of_nat RTE_ETHER_ADDR_LEN + 2 + md_size md))),
        (20, be16 0),
        (22, [64]),
        (23, [IP_UDP]),
        (24, be16 0)]) (\<lambda>d1.
     rbind (mem_read d1 18 2) (\<lambda>packet_id.
     rbind (put_bytes d1 (18, rev packet_id)) (\<lambda>d2.
     rbind (mem_read d2 14 20) (\<lambda>hdr.
     put_bytes d2 (24, le16 (cksum hdr))))))"

definition put_udp :: "kt_metadata \<Rightarrow> u8 list \<Rightarrow> u8 list res" where
  "put_udp md d =
     rfold put_bytes d
       [(36, be16 (md_udp_dport md)),
        (34, be16 SRC_PORT),
        (38, be16 (ucast (sizeof_rte_udp_hdr + md_size md))),
        (40, be16 0)]"

text \<open>\<open>pool\<close> and \<open>off\<close> are the packet pool and the offset of the buffer \<open>payload\<close> points to.\<close>

definition prepare_packet ::
  "(u8 list \<Rightarrow> u16) \<Rightarrow> rte_mbuf \<Rightarrow> u8 list \<Rightarrow> nat \<Rightarrow> kt_metadata \<Rightarrow> rte_mbuf res" where
  "prepare_packet cksum tx_buf pool off md =
     rbind (mem_write (mb_data tx_buf) 6 (md_eth_src md) RTE_ETHER_ADDR_LEN) (\<lambda>d1.
     rbind (mem_write d1 0 (md_eth_dst md) RTE_ETHER_ADDR_LEN) (\<lambda>d2.
     rbind (mem_read pool off (unat (md_size md))) (\<lambda>payload.
     rbind
       (if md_transport md = KT_METADATA_TRANSPORT_UDP then
          rbind (put_bytes d2 (12, be16 0x0800)) (\<lambda>d3.
          rbind (put_ipv4 cksum md d3) (\<lambda>d4.
          rbind (put_udp md d4) (\<lambda>d5.
          rbind (put_bytes d5 (42, payload)) (\<lambda>d6.
          let pkt_len = ucast (RTE_ETHER_HDR_LEN + sizeof_rte_ipv4_hdr + sizeof_rte_udp_hdr + md_size md)
          in Inr (tx_buf\<lparr>mb_data := d6, mb_pkt_len := pkt_len, mb_data_len := ucast pkt_len\<rparr>)))))
        else
          rbind (put_bytes d2 (0, payload)) (\<lambda>d3.
          let pkt_len = ucast (md_size md)
          in Inr (tx_buf\<lparr>mb_data := d3, mb_pkt_len := pkt_len, mb_data_len := ucast pkt_len\<rparr>)))
       (\<lambda>buf. Inr (buf\<lparr>mb_next_null := True, mb_nb_segs := 1\<rparr>)))))"

subsection \<open>The receiver's view\<close>

text \<open>What the device sends: the first \<open>data_len\<close> bytes of the only segment.\<close>

definition mbuf_frame :: "rte_mbuf \<Rightarrow> u8 list" where
  "mbuf_frame mb = take (unat (mb_data_len mb)) (mb_data mb)"

definition field :: "u8 list \<Rightarrow> nat \<Rightarrow> nat \<Rightarrow> u8 list" where
  "field f off n = take n (drop off f)"

record udp_view =
  v_eth_dst :: "u8 list"
  v_eth_src :: "u8 list"
  v_ip_src :: u32
  v_ip_dst :: u32
  v_sport :: u16
  v_dport :: u16
  v_payload :: "u8 list"

text \<open>
  Parsing a frame as RFC 894, 791 and 768 have it: an IPv4 packet without options or fragments,
  as long as the header says, whose UDP length agrees with the IPv4 length.
\<close>

definition parse_udp :: "u8 list \<Rightarrow> udp_view option" where
  "parse_udp f =
     (if 42 \<le> length f \<and> of_be16 (field f 12 2) = 0x0800 \<and> field f 14 1 = [0x45] \<and>
         of_be16 (field f 20 2) = 0 \<and> field f 23 1 = [17] \<and>
         14 + unat (of_be16 (field f 16 2)) = length f \<and>
         20 + unat (of_be16 (field f 38 2)) = unat (of_be16 (field f 16 2))
      then Some \<lparr>v_eth_dst = field f 0 6, v_eth_src = field f 6 6,
                 v_ip_src = of_be32 (field f 26 4), v_ip_dst = of_be32 (field f 30 4),
                 v_sport = of_be16 (field f 34 2), v_dport = of_be16 (field f 36 2),
                 v_payload = field f 42 (unat (of_be16 (field f 38 2)) - 8)\<rparr>
      else None)"

subsection \<open>Reading fields after writes\<close>

lemma field_write_same [simp]:
  "off + length bs \<le> length d \<Longrightarrow> n = length bs \<Longrightarrow> field (blit n d off bs 0) off n = bs"
  by (simp add: field_def blit_slices)

lemma field_write_other:
  assumes "off + n \<le> off' \<or> off' + m \<le> off" "off' + m \<le> length d" "m \<le> length bs"
  shows "field (blit m d off' bs 0) off n = field d off n"
  using assms
  by (intro nth_equalityI) (auto simp: field_def nth_blit)

lemma field_byte_same [simp]: "k < length d \<Longrightarrow> field (d[k := x]) k (Suc 0) = [x]"
  by (simp add: field_def take_Suc_conv_app_nth)

lemma field_byte_other: "k < off \<or> off + n \<le> k \<Longrightarrow> field (d[k := x]) off n = field d off n"
  by (intro nth_equalityI) (auto simp: field_def nth_list_update)

lemma field_take: "off + n \<le> k \<Longrightarrow> field (take k f) off n = field f off n"
  by (simp add: field_def drop_take min_def)

lemma put_bytes_in [simp]:
  "off + length bs \<le> length d \<Longrightarrow> put_bytes d (off, bs) = Inr (blit (length bs) d off bs 0)"
  by (simp add: put_bytes_def)

lemmas frame_simps = field_write_other field_byte_other field_take RTE_ETHER_ADDR_LEN_def IP_UDP_def SRC_PORT_def

lemma length_le16 [simp]: "length (le16 w) = 2"
  by (simp add: le16_def)

lemma put_ipv4_fields:
  assumes "34 \<le> length d"
  shows "\<exists>d'. put_ipv4 cksum md d = Inr d' \<and> length d' = length d \<and>
    field d' 14 1 = [0x45] \<and> field d' 16 2 = be16 (ucast (28 + md_size md)) \<and>
    field d' 20 2 = be16 0 \<and> field d' 23 1 = [17] \<and>
    field d' 26 4 = be32 (md_ip_src md) \<and> field d' 30 4 = be32 (md_ip_dst md) \<and>
    (\<forall>off n. off + n \<le> 14 \<or> 34 \<le> off \<longrightarrow> field d' off n = field d off n)"
  using assms
  by (simp add: put_ipv4_def frame_simps sizeof_rte_ipv4_hdr_def)

lemma put_udp_fields:
  assumes "42 \<le> length d"
  shows "\<exists>d'. put_udp md d = Inr d' \<and> length d' = length d \<and>
    field d' 34 2 = be16 SRC_PORT \<and> field d' 36 2 = be16 (md_udp_dport md) \<and>
    field d' 38 2 = be16 (ucast (8 + md_size md)) \<and>
    (\<forall>off n. off + n \<le> 34 \<or> 42 \<le> off \<longrightarrow> field d' off n = field d off n)"
  using assms
  by (simp add: put_udp_def frame_simps sizeof_rte_udp_hdr_def)

lemma put_headers_fields:
  assumes "42 \<le> length d" "length (md_eth_src md) = 6" "length (md_eth_dst md) = 6"
  shows "\<exists>d'. rbind (mem_write d 6 (md_eth_src md) RTE_ETHER_ADDR_LEN) (\<lambda>d1.
      rbind (mem_write d1 0 (md_eth_dst md) RTE_ETHER_ADDR_LEN) (\<lambda>d2.
      rbind (put_bytes d2 (12, be16 0x0800)) (\<lambda>d3.
      rbind (put_ipv4 cksum md d3) (put_udp md)))) = Inr d' \<and> length d' = length d \<and>
    field d' 0 6 = md_eth_dst md \<and> field d' 6 6 = md_eth_src md \<and> field d' 12 2 = be16 0x0800 \<and>
    field d' 14 1 = [0x45] \<and> field d' 16 2 = be16 (ucast (28 + md_size md)) \<and>
    field d' 20 2 = be16 0 \<and> field d' 23 1 = [17] \<and>
    field d' 26 4 = be32 (md_ip_src md) \<and> field d' 30 4 = be32 (md_ip_dst md) \<and>
    field d' 34 2 = be16 SRC_PORT \<and> field d' 36 2 = be16 (md_udp_dport md) \<and>
    field d' 38 2 = be16 (ucast (8 + md_size md))"
proof -
  define d3 where "d3 = blit 2 (blit 6 (blit 6 d 6 (md_eth_src md) 0) 0 (md_eth_dst md) 0) 12 (be16 0x0800) 0"
  have d3: "length d3 = length d" "field d3 0 6 = md_eth_dst md" "field d3 6 6 = md_eth_src md"
      "field d3 12 2 = be16 0x0800"
    using assms by (simp_all add: d3_def frame_simps)
  obtain d4 where d4: "put_ipv4 cksum md d3 = Inr d4" "length d4 = length d3"
      "field d4 14 1 = [0x45]" "field d4 16 2 = be16 (ucast (28 + md_size md))"
      "field d4 20 2 = be16 0" "field d4 23 1 = [17]" "field d4 26 4 = be32 (md_ip_src md)"
      "field d4 30 4 = be32 (md_ip_dst md)" "\<forall>off n. off + n \<le> 14 \<or> 34 \<le> off \<longrightarrow> field d4 off n = field d3 off n"
    using put_ipv4_fields [of d3 cksum md] d3(1) assms(1) by auto
  obtain d5 where d5: "put_udp md d4 = Inr d5" "length d5 = length d4"
      "field d5 34 2 = be16 SRC_PORT" "field d5 36 2 = be16 (md_udp_dport md)"
      "field d5 38 2 = be16 (ucast (8 + md_size md))"
      "\<forall>off n. off + n \<le> 34 \<or> 42 \<le> off \<longrightarrow> field d5 off n = field d4 off n"
    using put_udp_fields [of d4 md] d3(1) d4(2) assms(1) by auto
  have "rbind (mem_write d 6 (md_eth_src md) RTE_ETHER_ADDR_LEN) (\<lambda>d1.
      rbind (mem_write d1 0 (md_eth_dst md) RTE_ETHER_ADDR_LEN) (\<lambda>d2.
      rbind (put_bytes d2 (12, be16 0x0800)) (\<lambda>d3.
      rbind (put_ipv4 cksum md d3) (put_udp md)))) = Inr d5"
    using assms d4(1) d5(1) by (simp add: d3_def RTE_ETHER_ADDR_LEN_def)
  then show ?thesis using d3 d4 d5 by (intro exI [of _ d5]) simp
qed

lemma unat_len16:
  assumes "k + unat (x :: u64) < 65536"
  shows "unat (ucast (of_nat k + x) :: u16) = k + unat x"
proof -
  have "unat (of_nat k + x) = k + unat x" using assms by (intro unat_of_nat_u64) simp_all
  then show ?thesis using assms by (simp add: unsigned_ucast_eq unsigned_take_bit_eq take_bit_nat_eq_self)
qed

lemma ucast_pkt_len: "(ucast (ucast (x :: u64) :: u32) :: u16) = ucast x"
  by (rule bit_word_eqI) (simp add: bit_simps)

lemma parse_udp_intro:
  assumes "42 \<le> length f" "field f 12 2 = be16 0x0800" "field f 14 1 = [0x45]"
    "field f 20 2 = be16 0" "field f 23 1 = [17]" "field f 16 2 = be16 tot" "field f 38 2 = be16 dl"
    "14 + unat tot = length f" "20 + unat dl = unat tot"
  shows "parse_udp f = Some \<lparr>v_eth_dst = field f 0 6, v_eth_src = field f 6 6,
     v_ip_src = of_be32 (field f 26 4), v_ip_dst = of_be32 (field f 30 4),
     v_sport = of_be16 (field f 34 2), v_dport = of_be16 (field f 36 2),
     v_payload = field f 42 (unat dl - 8)\<rparr>"
  using assms by (simp add: parse_udp_def)

lemma prepare_udp_eq:
  assumes "md_transport md = KT_METADATA_TRANSPORT_UDP" "off + unat (md_size md) \<le> length pool"
  shows "prepare_packet cksum tx pool off md =
    rbind (rbind (mem_write (mb_data tx) 6 (md_eth_src md) RTE_ETHER_ADDR_LEN) (\<lambda>d1.
      rbind (mem_write d1 0 (md_eth_dst md) RTE_ETHER_ADDR_LEN) (\<lambda>d2.
      rbind (put_bytes d2 (12, be16 0x0800)) (\<lambda>d3.
      rbind (put_ipv4 cksum md d3) (put_udp md))))) (\<lambda>d5.
    rbind (put_bytes d5 (42, take (unat (md_size md)) (drop off pool))) (\<lambda>d6.
    Inr (tx\<lparr>mb_data := d6, mb_pkt_len := ucast (42 + md_size md), mb_data_len := ucast (42 + md_size md),
      mb_next_null := True, mb_nb_segs := 1\<rparr>)))"
  using assms
  by (simp add: prepare_packet_def rbind_assoc Let_def ucast_pkt_len RTE_ETHER_HDR_LEN_def
      sizeof_rte_ipv4_hdr_def sizeof_rte_udp_hdr_def)

lemma prepare_udp_parses:
  assumes "md_transport md = KT_METADATA_TRANSPORT_UDP"
    and "length (md_eth_src md) = 6" "length (md_eth_dst md) = 6"
    and "off + unat (md_size md) \<le> length pool" "42 + unat (md_size md) \<le> length (mb_data tx)"
    and "42 + unat (md_size md) < 65536"
  shows "\<exists>mb. prepare_packet cksum tx pool off md = Inr mb \<and> mb_nb_segs mb = 1 \<and> mb_next_null mb \<and>
    length (mbuf_frame mb) = 42 + unat (md_size md) \<and>
    parse_udp (mbuf_frame mb) = Some \<lparr>v_eth_dst = md_eth_dst md, v_eth_src = md_eth_src md,
      v_ip_src = md_ip_src md, v_ip_dst = md_ip_dst md, v_sport = 9999, v_dport = md_udp_dport md,
      v_payload = take (unat (md_size md)) (drop off pool)\<rparr>"
proof -
  let ?n = "unat (md_size md)"
  let ?p = "take ?n (drop off pool)"
  obtain d5 where d5: "rbind (mem_write (mb_data tx) 6 (md_eth_src md) RTE_ETHER_ADDR_LEN) (\<lambda>d1.
      rbind (mem_write d1 0 (md_eth_dst md) RTE_ETHER_ADDR_LEN) (\<lambda>d2.
      rbind (put_bytes d2 (12, be16 0x0800)) (\<lambda>d3.
      rbind (put_ipv4 cksum md d3) (put_udp md)))) = Inr d5" "length d5 = length (mb_data tx)"
    and f: "field d5 0 6 = md_eth_dst md" "field d5 6 6 = md_eth_src md" "field d5 12 2 = be16 0x0800"
      "field d5 14 1 = [0x45]" "field d5 16 2 = be16 (ucast (28 + md_size md))"
      "field d5 20 2 = be16 0" "field d5 23 1 = [17]"
      "field d5 26 4 = be32 (md_ip_src md)" "field d5 30 4 = be32 (md_ip_dst md)"
      "field d5 34 2 = be16 SRC_PORT" "field d5 36 2 = be16 (md_udp_dport md)"
      "field d5 38 2 = be16 (ucast (8 + md_size md))"
    using put_headers_fields [of "mb_data tx" md cksum] assms(2,3,5) by auto
  define d6 where "d6 = blit ?n d5 42 ?p 0"
  have p: "length ?p = ?n" using assms(4) by simp
  have hd: "field d6 k m = field d5 k m" if "k + m \<le> 42" for k m
    using that assms(5) d5(2) p by (simp add: d6_def field_write_other)
  have body: "field d6 42 ?n = ?p" using assms(5) d5(2) p by (simp add: d6_def)
  define fr where "fr = take (42 + ?n) d6"
  have len: "length fr = 42 + ?n" using assms(5) d5(2) by (simp add: fr_def d6_def)
  have fld: "field fr k m = field d6 k m" if "k + m \<le> 42 + ?n" for k m
    using that by (simp add: fr_def field_take)
  have u: "unat (ucast (42 + md_size md) :: u16) = 42 + ?n" "unat (ucast (28 + md_size md) :: u16) = 28 + ?n"
      "unat (ucast (8 + md_size md) :: u16) = 8 + ?n"
    using unat_len16 [of 42 "md_size md"] unat_len16 [of 28 "md_size md"] unat_len16 [of 8 "md_size md"]
      assms(6) by simp_all
  have "parse_udp fr = Some \<lparr>v_eth_dst = md_eth_dst md, v_eth_src = md_eth_src md,
      v_ip_src = md_ip_src md, v_ip_dst = md_ip_dst md, v_sport = 9999, v_dport = md_udp_dport md,
      v_payload = ?p\<rparr>"
    by (subst parse_udp_intro [where tot = "ucast (28 + md_size md)" and dl = "ucast (8 + md_size md)"])
      (simp_all add: len fld hd body f [unfolded One_nat_def] u SRC_PORT_def)
  moreover have "put_bytes d5 (42, ?p) = Inr d6" using assms(5) d5(2) p by (simp add: d6_def)
  ultimately show ?thesis
    using d5(1) u(1) len by (simp add: prepare_udp_eq [OF assms(1,4)] mbuf_frame_def fr_def)
qed

text \<open>
  C18. A receiver that parses the frame of a UDP packet by the standards gets back exactly the
  metadata: both Ethernet addresses, both IP addresses, the destination port, source port 9999, and
  as payload the bytes of the packet's buffer. Lengths in the IPv4 and UDP headers and of the frame
  agree, for every payload that fits the buffer and a 16-bit length.
\<close>

theorem udp_frame_roundtrip:
  assumes "md_transport md = KT_METADATA_TRANSPORT_UDP"
    and "length (md_eth_src md) = 6" "length (md_eth_dst md) = 6"
    and "off + unat (md_size md) \<le> length pool" "42 + unat (md_size md) \<le> length (mb_data tx)"
    and "42 + unat (md_size md) < 65536"
  shows "\<exists>mb. prepare_packet cksum tx pool off md = Inr mb \<and> mb_nb_segs mb = 1 \<and> mb_next_null mb \<and>
    length (mbuf_frame mb) = 42 + unat (md_size md) \<and>
    parse_udp (mbuf_frame mb) = Some \<lparr>v_eth_dst = md_eth_dst md, v_eth_src = md_eth_src md,
      v_ip_src = md_ip_src md, v_ip_dst = md_ip_dst md, v_sport = 9999, v_dport = md_udp_dport md,
      v_payload = take (unat (md_size md)) (drop off pool)\<rparr>"
  by (rule prepare_udp_parses [OF assms])

theorem udp_frame_roundtrip_witness:
  "\<exists>mb. prepare_packet (\<lambda>h. 0) \<lparr>mb_data = replicate 64 0xAA, mb_data_len = 0, mb_pkt_len = 0,
        mb_next_null = False, mb_nb_segs = 0\<rparr> [1, 2, 3, 4, 5, 6, 7, 8] 4
      \<lparr>md_transport = KT_METADATA_TRANSPORT_UDP, md_txtime = 0, md_eth_src = [0, 1, 2, 3, 4, 5],
       md_eth_dst = replicate 6 0xFF, md_ip_src = 0x0A000001, md_ip_dst = 0x0A000002,
       md_udp_dport = 4840, md_size = 3\<rparr> = Inr mb \<and>
    parse_udp (mbuf_frame mb) = Some \<lparr>v_eth_dst = replicate 6 0xFF, v_eth_src = [0, 1, 2, 3, 4, 5],
      v_ip_src = 0x0A000001, v_ip_dst = 0x0A000002, v_sport = 9999, v_dport = 4840, v_payload = [5, 6, 7]\<rparr>"
  using udp_frame_roundtrip [of "\<lparr>md_transport = KT_METADATA_TRANSPORT_UDP, md_txtime = 0,
       md_eth_src = [0, 1, 2, 3, 4, 5], md_eth_dst = replicate 6 0xFF, md_ip_src = 0x0A000001,
       md_ip_dst = 0x0A000002, md_udp_dport = 4840, md_size = 3\<rparr>" 4 "[1, 2, 3, 4, 5, 6, 7, 8]"
       "\<lparr>mb_data = replicate 64 0xAA, mb_data_len = 0, mb_pkt_len = 0, mb_next_null = False, mb_nb_segs = 0\<rparr>"
       "\<lambda>h. 0"]
  by auto

text \<open>
  A packet of a raw Ethernet socket goes out as the payload itself, length and bytes: the
  addresses written before it are overwritten, as the application's frame brings its own header.
\<close>

theorem raw_frame_is_payload:
  assumes "md_transport md \<noteq> KT_METADATA_TRANSPORT_UDP"
    and "length (md_eth_src md) = 6" "length (md_eth_dst md) = 6"
    and "off + unat (md_size md) \<le> length pool" "unat (md_size md) \<le> length (mb_data tx)"
    and "12 \<le> length (mb_data tx)" "unat (md_size md) < 65536"
  shows "\<exists>mb. prepare_packet cksum tx pool off md = Inr mb \<and> mb_nb_segs mb = 1 \<and> mb_next_null mb \<and>
    mbuf_frame mb = take (unat (md_size md)) (drop off pool)"
proof -
  have "unat (ucast (md_size md) :: u16) = unat (md_size md)"
    using unat_len16 [of 0 "md_size md"] assms(7) by simp
  then show ?thesis
    using assms by (simp add: prepare_packet_def RTE_ETHER_ADDR_LEN_def Let_def ucast_pkt_len
        mbuf_frame_def blit_slices)
qed

theorem raw_frame_is_payload_witness:
  "\<exists>mb. prepare_packet (\<lambda>h. 0) \<lparr>mb_data = replicate 64 0xAA, mb_data_len = 0, mb_pkt_len = 0,
        mb_next_null = False, mb_nb_segs = 0\<rparr> [1, 2, 3, 4, 5, 6, 7, 8] 4
      \<lparr>md_transport = KT_METADATA_TRANSPORT_ETHERNET, md_txtime = 0, md_eth_src = [0, 1, 2, 3, 4, 5],
       md_eth_dst = replicate 6 0xFF, md_ip_src = 0, md_ip_dst = 0, md_udp_dport = 0, md_size = 3\<rparr> = Inr mb \<and>
    mbuf_frame mb = [5, 6, 7]"
  using raw_frame_is_payload [of "\<lparr>md_transport = KT_METADATA_TRANSPORT_ETHERNET, md_txtime = 0,
       md_eth_src = [0, 1, 2, 3, 4, 5], md_eth_dst = replicate 6 0xFF, md_ip_src = 0, md_ip_dst = 0,
       md_udp_dport = 0, md_size = 3\<rparr>" 4 "[1, 2, 3, 4, 5, 6, 7, 8]"
       "\<lparr>mb_data = replicate 64 0xAA, mb_data_len = 0, mb_pkt_len = 0, mb_next_null = False, mb_nb_segs = 0\<rparr>"
       "\<lambda>h. 0"]
  by (auto simp: KT_METADATA_TRANSPORT_ETHERNET_def KT_METADATA_TRANSPORT_UDP_def)

text \<open>
  The headers take 42 bytes of the DPDK buffer, which nothing checks: a UDP payload that fits
  the 2048 bytes of a packet buffer but is longer than 2006 bytes is written past the end of a
  DPDK buffer of the default size (2048 bytes of data).
\<close>

theorem udp_payload_overruns_dpdk_buffer:
  assumes "md_transport md = KT_METADATA_TRANSPORT_UDP"
    and "length (md_eth_src md) = 6" "length (md_eth_dst md) = 6"
    and "length (mb_data tx) = 2048" "2006 < unat (md_size md)" "off + unat (md_size md) \<le> length pool"
  shows "prepare_packet cksum tx pool off md = Inl OutOfBounds"
proof -
  obtain d5 where d5: "rbind (mem_write (mb_data tx) 6 (md_eth_src md) RTE_ETHER_ADDR_LEN) (\<lambda>d1.
      rbind (mem_write d1 0 (md_eth_dst md) RTE_ETHER_ADDR_LEN) (\<lambda>d2.
      rbind (put_bytes d2 (12, be16 0x0800)) (\<lambda>d3.
      rbind (put_ipv4 cksum md d3) (put_udp md)))) = Inr d5" "length d5 = length (mb_data tx)"
    using put_headers_fields [of "mb_data tx" md cksum] assms(2-4) by auto
  then show ?thesis
    using assms(4-6) by (simp add: prepare_udp_eq [OF assms(1,6)] put_bytes_def mem_write_def)
qed

theorem udp_payload_overruns_dpdk_buffer_witness:
  "prepare_packet (\<lambda>h. 0) \<lparr>mb_data = replicate 2048 0, mb_data_len = 0, mb_pkt_len = 0,
        mb_next_null = False, mb_nb_segs = 0\<rparr> (replicate 4096 1) 2048
      \<lparr>md_transport = KT_METADATA_TRANSPORT_UDP, md_txtime = 0, md_eth_src = [0, 1, 2, 3, 4, 5],
       md_eth_dst = replicate 6 0xFF, md_ip_src = 0, md_ip_dst = 0, md_udp_dport = 4840, md_size = 2048\<rparr> =
   Inl OutOfBounds"
  by (rule udp_payload_overruns_dpdk_buffer) simp_all

end
