(* ===== verification/KT_Daemon.thy ===== *)
theory KT_Daemon
  imports KT_Queue KT_Alloc KT_Packet
begin

section \<open>The packet scheduler daemon (\<open>src/ktsnd.c\<close>)\<close>

text \<open>
  The daemon lays out the shared segment, then polls: it moves the indices of new packets from
  the transmit ring into the deadline queue, looks at the head of the queue, and waits, drops
  or transmits. DPDK is a parameter: a buffer allocation, a transmission and a checksum.

  Shown here: the layout puts the four objects into disjoint parts of the segment with all
  buffers free; one iteration does what the time window of the source's comments says, on every
  branch; a packet that is late is dropped and its buffer is never returned.
\<close>

subsection \<open>Laying out the segment\<close>

definition RING_ELEM_COUNT :: u32 where "RING_ELEM_COUNT = 128"

text \<open>The memory a request reserves: whole pages, of a fresh segment that is all zero.\<close>

definition reserved_bytes :: "kt_page_allocator \<Rightarrow> u32 \<Rightarrow> nat" where
  "reserved_bytes al sz = unat (pages_for al sz) * unat (page_size al)"

definition ring_block :: "kt_page_allocator \<Rightarrow> u64 list" where
  "ring_block al =
     replicate ((reserved_bytes al (ringbuf_qsize RING_ELEM_COUNT 1) - sizeof_kt_ringbuf) div 8) 0"

definition zero_metadata :: kt_metadata where
  "zero_metadata = \<lparr>md_transport = 0, md_txtime = 0, md_eth_src = replicate 6 0,
     md_eth_dst = replicate 6 0, md_ip_src = 0, md_ip_dst = 0, md_udp_dport = 0, md_size = 0\<rparr>"

definition fill_free_ring :: "nat \<Rightarrow> kt_ringbuf \<Rightarrow> kt_ringbuf res" where
  "fill_free_ring sp rb =
     rfold (\<lambda>rb i. rbind (kt_ringbuf_enqueue_burst sp rb [of_nat i] 8 1) (\<lambda>(rb', n, fs). Inr rb'))
       rb [0..<unat (kt_ringbuf_get_capacity rb)]"

text \<open>
  From the mapped segment at \<open>dat\<close> to the filled layout. \<open>block\<close> is the memory \<open>malloc\<close> gives the
  queue. A header that initialisation refused to write is still zero, so the first request divides
  by zero; an object that could not be allocated is dereferenced as \<open>NULL\<close>.
\<close>

definition ktsnd_init ::
  "u64 \<Rightarrow> u32 \<Rightarrow> nat \<Rightarrow> kt_pq_node list \<Rightarrow> (kt_mem_layout \<times> kt_shm \<times> kt_prio_queue) res" where
  "ktsnd_init dat psize sp block =
     rbind (kt_page_allocator_make dat KT_DEFAULT_MEMORY_SIZE psize) (\<lambda>h.
     case h of None \<Rightarrow> Inl DivByZero | Some al \<Rightarrow>
     rbind (kt_ringbuf_create page_alloc_alloc al ''RB_tx'' RING_ELEM_COUNT 1 (ring_block al)) (\<lambda>(al1, tx).
     rbind (kt_ringbuf_create page_alloc_alloc al1 ''RB_free'' RING_ELEM_COUNT 1 (ring_block al1)) (\<lambda>(al2, fr).
     case fr of None \<Rightarrow> Inl NullDeref | Some (fr_addr, fr_ring) \<Rightarrow>
     rbind (fill_free_ring sp fr_ring) (\<lambda>fr_ring'.
     let cap = kt_ringbuf_get_capacity fr_ring';
         mbuf_bytes = of_nat sizeof_kt_mbuf * cap;
         md_bytes = of_nat sizeof_kt_metadata * cap
     in
     rbind (page_alloc_alloc al2 mbuf_bytes) (\<lambda>(al3, mbufs).
     rbind (page_alloc_alloc al3 md_bytes) (\<lambda>(al4, mds).
     case (tx, mbufs, mds) of
       (Some (tx_addr, tx_ring), Some mb_addr, Some md_addr) \<Rightarrow>
         Inr (\<lparr>tx_ring_offset = tx_addr - dat, free_ring_offset = fr_addr - dat,
               mbuf_pool_offset = mb_addr - dat, metadata_pool_offset = md_addr - dat\<rparr>,
              \<lparr>shm_tx = tx_ring, shm_free = fr_ring',
               shm_mbufs = replicate (reserved_bytes al2 mbuf_bytes) 0,
               shm_metadata = replicate (reserved_bytes al3 md_bytes div sizeof_kt_metadata) zero_metadata\<rparr>,
              kt_prio_queue_init (unat cap) block)
     | _ \<Rightarrow> Inl NullDeref))))))"

subsection \<open>The main loop\<close>

text \<open>
  DPDK, on a device state \<open>'d\<close>: \<open>rte_pktmbuf_alloc\<close> gives the data area of a buffer or \<open>NULL\<close>,
  \<open>rte_eth_tx_burst\<close> takes one buffer, \<open>rte_ipv4_cksum\<close> maps the header bytes to the checksum.
\<close>

record 'd dpdk =
  rte_pktmbuf_alloc :: "'d \<Rightarrow> u8 list option \<times> 'd"
  rte_eth_tx_burst :: "'d \<Rightarrow> rte_mbuf \<Rightarrow> u16 \<times> 'd"
  rte_ipv4_cksum :: "u8 list \<Rightarrow> u16"

record 'd ktsnd =
  d_shm :: kt_shm
  d_queue :: kt_prio_queue
  d_counter :: int
  d_dev :: 'd

definition tx_delta_ns :: int where "tx_delta_ns = 50000"

definition insert_packet :: "kt_metadata list \<Rightarrow> kt_prio_queue \<Rightarrow> u64 \<Rightarrow> kt_prio_queue res" where
  "insert_packet pool q offset =
     rbind (arr_get pool (unat offset)) (\<lambda>md.
     rbind (kt_prio_queue_insert q (i64_of_u64 (md_txtime md)) offset) (\<lambda>(q', r). Inr q'))"

text \<open>The first half of an iteration; \<open>table\<close> is the uninitialised array of 64 words on the stack.\<close>

definition ktsnd_intake :: "nat \<Rightarrow> u64 list \<Rightarrow> 'd ktsnd \<Rightarrow> 'd ktsnd res" where
  "ktsnd_intake sp table st =
     rbind (kt_ringbuf_dequeue_burst sp (shm_tx (d_shm st)) table 8 8) (\<lambda>(rb, table', nb_elem, av).
     let shm = (d_shm st)\<lparr>shm_tx := rb\<rparr> in
     rbind (rfold (insert_packet (shm_metadata shm)) (d_queue st) (take (unat nb_elem) table')) (\<lambda>q.
     Inr (st\<lparr>d_shm := shm, d_queue := q\<rparr>)))"

text \<open>Sending the packet at \<open>mbuf_index\<close> and giving its buffer back.\<close>

definition ktsnd_send :: "'d dpdk \<Rightarrow> nat \<Rightarrow> u64 \<Rightarrow> 'd ktsnd \<Rightarrow> 'd ktsnd res" where
  "ktsnd_send ops sp mbuf_index st =
     (case rte_pktmbuf_alloc ops (d_dev st) of
        (None, dev) \<Rightarrow> Inl NullDeref
      | (Some room, dev) \<Rightarrow>
          let tx_buf = \<lparr>mb_data = room, mb_data_len = 0, mb_pkt_len = 0, mb_next_null = True, mb_nb_segs = 1\<rparr> in
          rbind (arr_get (shm_metadata (d_shm st)) (unat mbuf_index)) (\<lambda>md.
          rbind (prepare_packet (rte_ipv4_cksum ops) tx_buf (shm_mbufs (d_shm st))
                   (unat mbuf_index * sizeof_kt_mbuf) md) (\<lambda>buf.
          let (nb_tx, dev') = rte_eth_tx_burst ops dev buf in
          rbind (kt_ringbuf_enqueue_burst sp (shm_free (d_shm st)) [mbuf_index] 8 1) (\<lambda>(rb, n, fs).
          rbind (i64_checked (d_counter st + 1)) (\<lambda>c.
          Inr (st\<lparr>d_shm := (d_shm st)\<lparr>shm_free := rb\<rparr>, d_dev := dev', d_counter := c\<rparr>))))))"

datatype action = Idle | Wait | Lost | Sent u64

text \<open>The second half: the case distinction of the comments in the source.\<close>

definition ktsnd_tx :: "'d dpdk \<Rightarrow> nat \<Rightarrow> int \<times> int \<Rightarrow> 'd ktsnd \<Rightarrow> ('d ktsnd \<times> action) res" where
  "ktsnd_tx ops sp clock st =
     (if kt_prio_queue_is_empty (d_queue st) \<noteq> 0 then Inr (st, Idle)
      else
        rbind (kt_get_realtime_ns (fst clock) (snd clock)) (\<lambda>now.
        rbind (kt_prio_queue_getmin (d_queue st)) (\<lambda>txtime.
        rbind (kt_get_time_diff_ns now txtime) (\<lambda>diff.
        if tx_delta_ns < diff then Inr (st, Wait)
        else if diff < 0 then
          rbind (kt_prio_queue_extract_min (d_queue st) False) (\<lambda>(q, r, d).
          Inr (st\<lparr>d_queue := q\<rparr>, Lost))
        else
          rbind (kt_prio_queue_extract_min (d_queue st) True) (\<lambda>(q, r, d).
          case d of
            None \<Rightarrow> Inl Indeterminate
          | Some mbuf_index \<Rightarrow>
              rbind (ktsnd_send ops sp mbuf_index (st\<lparr>d_queue := q\<rparr>)) (\<lambda>st'.
              Inr (st', Sent mbuf_index)))))))"

definition ktsnd_iter ::
  "'d dpdk \<Rightarrow> nat \<Rightarrow> u64 list \<Rightarrow> int \<times> int \<Rightarrow> 'd ktsnd \<Rightarrow> ('d ktsnd \<times> action) res" where
  "ktsnd_iter ops sp table clock st = rbind (ktsnd_intake sp table st) (ktsnd_tx ops sp clock)"

text \<open>
  \<open>while (g_run)\<close>: one entry per iteration, with what the stack holds and the clock says; the
  loop stops when the signal handler has cleared the flag, after the last entry.
\<close>

fun ktsnd_loop ::
  "'d dpdk \<Rightarrow> nat \<Rightarrow> (u64 list \<times> int \<times> int) list \<Rightarrow> 'd ktsnd \<Rightarrow> ('d ktsnd \<times> action list) res" where
  "ktsnd_loop ops sp [] st = Inr (st, [])"
| "ktsnd_loop ops sp ((table, clock) # rest) st =
     rbind (ktsnd_iter ops sp table clock st) (\<lambda>(st1, a).
     rbind (ktsnd_loop ops sp rest st1) (\<lambda>(st2, as). Inr (st2, a # as)))"

subsection \<open>The layout\<close>

lemma fill_correct:
  assumes "rb_wf rb" "length (rb_items rb) + length is \<le> unat (rb_capacity rb)"
  shows "\<exists>rb'. rfold (\<lambda>rb i. rbind (kt_ringbuf_enqueue_burst sp rb [of_nat i] 8 1) (\<lambda>(rb', n, fs). Inr rb'))
      rb is = Inr rb' \<and> rb_wf rb' \<and> rb_items rb' = rb_items rb @ map of_nat is \<and>
    rb_capacity rb' = rb_capacity rb"
  using assms
proof (induction "is" arbitrary: rb)
  case (Cons i "is")
  then obtain rb1 fs where "kt_ringbuf_enqueue_burst sp rb [of_nat i] 8 1 = Inr (rb1, 1, fs)"
      "rb_wf rb1" "rb_items rb1 = rb_items rb @ [of_nat i]" "rb_capacity rb1 = rb_capacity rb"
    using enqueue_one [of rb sp "of_nat i"] by auto
  then show ?case using Cons.IH [of rb1] Cons.prems length_rb_items [of rb1] by auto
qed auto

text \<open>Where the four objects lie, in bytes from the start of the segment.\<close>

definition layout_regions :: "kt_mem_layout \<Rightarrow> (nat \<times> nat) list" where
  "layout_regions l =
     [(unat (tx_ring_offset l), sizeof_kt_ringbuf + 128 * 8),
      (unat (free_ring_offset l), sizeof_kt_ringbuf + 128 * 8),
      (unat (mbuf_pool_offset l), 127 * sizeof_kt_mbuf),
      (unat (metadata_pool_offset l), 127 * sizeof_kt_metadata)]"

lemma ring_create_bump:
  assumes "pa_bump al k" "page_size al = 4096" "k + 1 \<le> pa_pages al"
  shows "\<exists>al'. kt_ringbuf_create page_alloc_alloc al name RING_ELEM_COUNT 1 (ring_block al) =
      Inr (al', Some (pa_addr al k, ringbuf_header name 128 1 (replicate 496 0))) \<and> pa_bump al' (k + 1) \<and>
    pa_pages al' = pa_pages al \<and> page_size al' = page_size al \<and> pa_addr al' = pa_addr al"
proof -
  have q: "ringbuf_qsize RING_ELEM_COUNT 1 = 256"
    by (simp add: ringbuf_qsize_def RING_ELEM_COUNT_def sizeof_kt_ringbuf_def)
  have n: "unat (pages_for al 256) = 1" using assms(2) by (simp add: pages_for_def)
  have blk: "ring_block al = replicate 496 0"
    using n assms(2) by (simp add: ring_block_def reserved_bytes_def q sizeof_kt_ringbuf_def)
  show ?thesis
    using bump_alloc [OF assms(1), of 256 1] n assms(3)
    by (auto simp: kt_ringbuf_create_def q blk) (simp_all add: RING_ELEM_COUNT_def)
qed

lemma daemon_offset:
  assumes "unat dat mod 4096 = 0" "unat dat + 2 ^ 21 \<le> 2 ^ 64" "k < 255"
  shows "unat (pa_addr (daemon_pa dat) k - dat) = 151552 + k * 4096"
  using daemon_pa_addr [OF assms] by (simp add: unat_sub word_le_nat_alt)

lemma ktsnd_init_ok:
  assumes "unat dat mod 4096 = 0" "unat dat + 2 ^ 21 \<le> 2 ^ 64"
  shows "\<exists>l shm. ktsnd_init dat 4096 sp block = Inr (l, shm, kt_prio_queue_init 127 block) \<and>
    sorted_wrt (\<lambda>r s. fst r + snd r \<le> fst s) (layout_regions l) \<and>
    list_all (\<lambda>r. fst r + snd r \<le> 2 ^ 20) (layout_regions l) \<and>
    rb_wf (shm_tx shm) \<and> rb_items (shm_tx shm) = [] \<and>
    rb_wf (shm_free shm) \<and> rb_items (shm_free shm) = map of_nat [0..<127] \<and>
    127 * sizeof_kt_mbuf \<le> length (shm_mbufs shm) \<and> 127 \<le> length (shm_metadata shm) \<and>
    rb_capacity (shm_tx shm) = 127 \<and> rb_capacity (shm_free shm) = 127"
proof -
  let ?al = "daemon_pa dat" and ?ring = "\<lambda>name. ringbuf_header name 128 1 (replicate 496 0)"
  have b0: "pa_bump ?al 0" by (rule bump_init [OF daemon_pa_init])
  obtain al1 where a1: "kt_ringbuf_create page_alloc_alloc ?al ''RB_tx'' RING_ELEM_COUNT 1 (ring_block ?al) =
      Inr (al1, Some (pa_addr ?al 0, ?ring ''RB_tx''))" "pa_bump al1 1" "pa_pages al1 = 255"
      "page_size al1 = 4096" "pa_addr al1 = pa_addr ?al"
    using ring_create_bump [OF b0, of "''RB_tx''"] by auto
  obtain al2 where a2: "kt_ringbuf_create page_alloc_alloc al1 ''RB_free'' RING_ELEM_COUNT 1 (ring_block al1) =
      Inr (al2, Some (pa_addr ?al 1, ?ring ''RB_free''))" "pa_bump al2 2" "pa_pages al2 = 255"
      "page_size al2 = 4096" "pa_addr al2 = pa_addr ?al"
    using ring_create_bump [OF a1(2), of "''RB_free''"] a1(3-5) by (auto simp: numeral_2_eq_2)
  have fresh: "rb_wf (?ring nm)" "rb_items (?ring nm) = []" "rb_capacity (?ring nm) = 127" for nm
    using fresh_ring [of 128 "replicate 496 0" nm 1] by (simp_all add: ringbuf_header_def)
  obtain fr where fr: "fill_free_ring sp (?ring ''RB_free'') = Inr fr" "rb_wf fr"
      "rb_items fr = map of_nat [0..<127]" "rb_capacity fr = 127"
    using fill_correct [OF fresh(1), of "''RB_free''" "[0..<127]" sp] fresh [of "''RB_free''"]
    by (auto simp: fill_free_ring_def kt_ringbuf_get_capacity_def)
  have n: "unat (pages_for al2 260096) = 64" using a2(4) by (simp add: pages_for_def)
  obtain al3 where a3: "page_alloc_alloc al2 260096 = Inr (al3, Some (pa_addr ?al 2))" "pa_bump al3 66"
      "pa_pages al3 = 255" "page_size al3 = 4096" "pa_addr al3 = pa_addr ?al"
    using bump_alloc [OF a2(2) _ n [symmetric]] a2(3-5) by auto
  have n': "unat (pages_for al3 6096) = 2" using a3(4) by (simp add: pages_for_def)
  obtain al4 where a4: "page_alloc_alloc al3 6096 = Inr (al4, Some (pa_addr ?al 66))"
    using bump_alloc [OF a3(2) _ n' [symmetric]] a3(3,5) by auto
  have init: "kt_page_allocator_make dat KT_DEFAULT_MEMORY_SIZE 4096 = Inr (Some ?al)"
    using daemon_pa_init [of dat] by (simp add: kt_page_allocator_make_def KT_DEFAULT_MEMORY_SIZE_def)
  show ?thesis
    using init a1(1) a2(1) fr a3(1) a4 n n' a2(4) a3(4) fresh daemon_offset [OF assms]
    by (simp add: ktsnd_init_def Let_def kt_ringbuf_get_capacity_def sizeof_kt_mbuf_def
        sizeof_kt_metadata_def reserved_bytes_def layout_regions_def sizeof_kt_ringbuf_def)
qed

text \<open>
  C20. Initialisation of the daemon succeeds on a page-aligned segment of 1 MiB: the two rings, the
  packet buffers and their metadata lie one after the other, without overlap and inside the
  segment, at the offsets published to the applications; the transmit ring and the queue are
  empty and the free ring holds each of the 127 buffer indices once.
\<close>

theorem daemon_layout:
  assumes "unat dat mod 4096 = 0" "unat dat + 2 ^ 21 \<le> 2 ^ 64"
  shows "\<exists>l shm. ktsnd_init dat 4096 sp block = Inr (l, shm, kt_prio_queue_init 127 block) \<and>
    sorted_wrt (\<lambda>r s. fst r + snd r \<le> fst s) (layout_regions l) \<and>
    list_all (\<lambda>r. fst r + snd r \<le> 2 ^ 20) (layout_regions l) \<and>
    rb_wf (shm_tx shm) \<and> rb_items (shm_tx shm) = [] \<and>
    rb_wf (shm_free shm) \<and> rb_items (shm_free shm) = map of_nat [0..<127] \<and>
    127 * sizeof_kt_mbuf \<le> length (shm_mbufs shm) \<and> 127 \<le> length (shm_metadata shm)"
  using ktsnd_init_ok [OF assms, of sp block] by blast

theorem daemon_layout_witness:
  "\<exists>l shm. ktsnd_init 0x7F0000000000 4096 0 [] = Inr (l, shm, kt_prio_queue_init 127 []) \<and>
    rb_items (shm_free shm) = map of_nat [0..<127] \<and>
    list_all (\<lambda>r. fst r + snd r \<le> 2 ^ 20) (layout_regions l)"
  using daemon_layout [of "0x7F0000000000" 0 "[]"] by auto

subsection \<open>One iteration\<close>

lemma time_diff:
  assumes "clock_ok clock" "0 \<le> t" "is_i64 t"
  shows "kt_get_time_diff_ns (clock_ns clock) t = Inr (t - clock_ns clock)"
  using clock_bounds [OF assms(1)] assms(2,3)
  by (simp add: kt_get_time_diff_ns_def is_i64_def INT64_MIN_def INT64_MAX_def)

lemma tx_nonempty:
  assumes "pq_wf (d_queue st)" "0 < pq_size (d_queue st)" "clock_ok clock"
    and "t = prio_at (d_queue st) 0" "0 \<le> t" "is_i64 t"
  shows "ktsnd_tx ops sp clock st =
    (if tx_delta_ns < t - clock_ns clock then Inr (st, Wait)
     else if t < clock_ns clock then
       rbind (kt_prio_queue_extract_min (d_queue st) False) (\<lambda>(q, r, d). Inr (st\<lparr>d_queue := q\<rparr>, Lost))
     else rbind (kt_prio_queue_extract_min (d_queue st) True) (\<lambda>(q, r, d).
       case d of None \<Rightarrow> Inl Indeterminate
       | Some mbuf_index \<Rightarrow> rbind (ktsnd_send ops sp mbuf_index (st\<lparr>d_queue := q\<rparr>)) (\<lambda>st'.
           Inr (st', Sent mbuf_index))))"
  using assms time_diff [OF assms(3,5,6)]
  by (simp add: ktsnd_tx_def kt_prio_queue_is_empty_def clock_reading getmin_correct)

text \<open>
  C16. The second half of an iteration decides by the packet at the head of the queue, with
  transmission time \<open>t\<close>: an empty queue is left alone; more than 50 microseconds ahead of the clock
  it waits and changes nothing; with \<open>t\<close> in the past it drops exactly that packet, transmits nothing
  and returns no buffer; otherwise it takes exactly that packet out and sends it.
\<close>

theorem daemon_window:
  assumes wf: "pq_wf (d_queue st)" and clk: "clock_ok clock"
    and t: "t = prio_at (d_queue st) 0" "0 \<le> t" "is_i64 t"
  shows "(pq_size (d_queue st) = 0 \<longrightarrow> ktsnd_tx ops sp clock st = Inr (st, Idle)) \<and>
    (0 < pq_size (d_queue st) \<longrightarrow>
      (tx_delta_ns < t - clock_ns clock \<longrightarrow> ktsnd_tx ops sp clock st = Inr (st, Wait)) \<and>
      (t < clock_ns clock \<longrightarrow> (\<exists>q. ktsnd_tx ops sp clock st = Inr (st\<lparr>d_queue := q\<rparr>, Lost) \<and> pq_wf q \<and>
         pq_mset (d_queue st) = add_mset (elems (d_queue st) ! 0) (pq_mset q))) \<and>
      (0 \<le> t - clock_ns clock \<longrightarrow> t - clock_ns clock \<le> tx_delta_ns \<longrightarrow>
         (\<exists>q. pq_wf q \<and> pq_mset (d_queue st) = add_mset (elems (d_queue st) ! 0) (pq_mset q) \<and>
            ktsnd_tx ops sp clock st =
              rbind (ktsnd_send ops sp (data (elems (d_queue st) ! 0)) (st\<lparr>d_queue := q\<rparr>)) (\<lambda>st'.
              Inr (st', Sent (data (elems (d_queue st) ! 0)))))))"
proof (cases "pq_size (d_queue st) = 0")
  case True
  then show ?thesis by (simp add: ktsnd_tx_def kt_prio_queue_is_empty_def)
next
  case False
  then have ne: "0 < pq_size (d_queue st)" by simp
  obtain q q' where
    "kt_prio_queue_extract_min (d_queue st) False = Inr (q, 0, None)" "pq_wf q"
    "pq_mset (d_queue st) = add_mset (elems (d_queue st) ! 0) (pq_mset q)"
    "kt_prio_queue_extract_min (d_queue st) True = Inr (q', 0, Some (data (elems (d_queue st) ! 0)))" "pq_wf q'"
    "pq_mset (d_queue st) = add_mset (elems (d_queue st) ! 0) (pq_mset q')"
    using extract_correct [OF wf ne, of False] extract_correct [OF wf ne, of True] by auto
  then show ?thesis
    using ne by (auto simp: tx_nonempty [OF wf ne clk t] tx_delta_ns_def)
qed

text \<open>A device that never runs out of buffers and logs what it sends, for the examples.\<close>

definition demo_dpdk :: "rte_mbuf list dpdk" where
  "demo_dpdk = \<lparr>rte_pktmbuf_alloc = \<lambda>d. (Some (replicate 2048 0), d),
     rte_eth_tx_burst = \<lambda>d b. (1, d @ [b]), rte_ipv4_cksum = \<lambda>h. 0\<rparr>"

definition demo_md :: kt_metadata where
  "demo_md = \<lparr>md_transport = KT_METADATA_TRANSPORT_UDP, md_txtime = 5000000100,
     md_eth_src = [0, 1, 2, 3, 4, 5], md_eth_dst = replicate 6 0xFF, md_ip_src = 0x0A000001,
     md_ip_dst = 0x0A000002, md_udp_dport = 4840, md_size = 2\<rparr>"

definition demo_ktsnd :: "rte_mbuf list ktsnd" where
  "demo_ktsnd = \<lparr>d_shm = \<lparr>shm_tx = ringbuf_header ''RB_tx'' 4 1 (replicate 8 0),
       shm_free = ringbuf_header ''RB_free'' 4 1 (replicate 8 0),
       shm_mbufs = replicate 2048 7, shm_metadata = [demo_md]\<rparr>,
     d_queue = \<lparr>elems = [\<lparr>prio = 5000000100, data = 0\<rparr>], pq_cap = 1, pq_size = 1\<rparr>,
     d_counter = 0, d_dev = []\<rparr>"

lemma demo_ktsnd_simps:
  "pq_wf (d_queue demo_ktsnd)" "pq_size (d_queue demo_ktsnd) = 1"
  "elems (d_queue demo_ktsnd) = [\<lparr>prio = 5000000100, data = 0\<rparr>]"
  "rb_wf (shm_free (d_shm demo_ktsnd))" "rb_items (shm_free (d_shm demo_ktsnd)) = []"
  "rb_capacity (shm_free (d_shm demo_ktsnd)) = 3"
  using fresh_ring [of 4 "replicate 8 0" "''RB_free''" 1]
  by (simp_all add: demo_ktsnd_def pq_wf_def) (simp add: ringbuf_header_def)

theorem daemon_window_witness:
  "ktsnd_tx demo_dpdk 0 (4, 0) demo_ktsnd = Inr (demo_ktsnd, Wait) \<and>
   (\<exists>q. ktsnd_tx demo_dpdk 0 (6, 0) demo_ktsnd = Inr (demo_ktsnd\<lparr>d_queue := q\<rparr>, Lost) \<and> pq_mset q = {#})"
proof -
  have c: "clock_ok (4, 0)" "clock_ok (6, 0)" "is_i64 5000000100"
    by (simp_all add: clock_ok_def NSEC_PER_SEC_def is_i64_def INT64_MIN_def INT64_MAX_def)
  have m: "pq_mset (d_queue demo_ktsnd) = {#\<lparr>prio = 5000000100, data = 0\<rparr>#}"
    by (simp add: demo_ktsnd_def pq_mset_def pq_nodes_def)
  note d = demo_ktsnd_simps
  show ?thesis
    using daemon_window [OF d(1) c(1), of 5000000100 demo_dpdk 0]
      daemon_window [OF d(1) c(2), of 5000000100 demo_dpdk 0] c(3) m
    by (auto simp: d(2,3) clock_ns_def NSEC_PER_SEC_def tx_delta_ns_def)
qed

lemma send_udp:
  assumes "rte_pktmbuf_alloc ops (d_dev st) = (Some room, dev)" "length room = 2048"
    and "unat idx < length (shm_metadata (d_shm st))" "md = shm_metadata (d_shm st) ! unat idx"
    and "md_transport md = KT_METADATA_TRANSPORT_UDP" "length (md_eth_src md) = 6" "length (md_eth_dst md) = 6"
    and "unat (md_size md) \<le> 2006" "unat idx * 2048 + unat (md_size md) \<le> length (shm_mbufs (d_shm st))"
    and "rb_wf (shm_free (d_shm st))" "rb_len (shm_free (d_shm st)) < unat (rb_capacity (shm_free (d_shm st)))"
    and "is_i64 (d_counter st + 1)"
  shows "\<exists>rb mb. ktsnd_send ops sp idx st = Inr (st\<lparr>d_shm := (d_shm st)\<lparr>shm_free := rb\<rparr>,
        d_dev := snd (rte_eth_tx_burst ops dev mb), d_counter := d_counter st + 1\<rparr>) \<and> rb_wf rb \<and>
      rb_items rb = rb_items (shm_free (d_shm st)) @ [idx] \<and>
      parse_udp (mbuf_frame mb) = Some \<lparr>v_eth_dst = md_eth_dst md, v_eth_src = md_eth_src md,
        v_ip_src = md_ip_src md, v_ip_dst = md_ip_dst md, v_sport = 9999, v_dport = md_udp_dport md,
        v_payload = take (unat (md_size md)) (drop (unat idx * 2048) (shm_mbufs (d_shm st)))\<rparr>"
proof -
  let ?tx = "\<lparr>mb_data = room, mb_data_len = 0, mb_pkt_len = 0, mb_next_null = True, mb_nb_segs = 1\<rparr>"
  obtain mb where "prepare_packet (rte_ipv4_cksum ops) ?tx (shm_mbufs (d_shm st)) (unat idx * 2048) md = Inr mb"
    and "parse_udp (mbuf_frame mb) = Some \<lparr>v_eth_dst = md_eth_dst md, v_eth_src = md_eth_src md,
        v_ip_src = md_ip_src md, v_ip_dst = md_ip_dst md, v_sport = 9999, v_dport = md_udp_dport md,
        v_payload = take (unat (md_size md)) (drop (unat idx * 2048) (shm_mbufs (d_shm st)))\<rparr>"
    using prepare_udp_parses [of md "unat idx * 2048" "shm_mbufs (d_shm st)" ?tx "rte_ipv4_cksum ops"] assms
    by auto
  moreover obtain rb fs where "kt_ringbuf_enqueue_burst sp (shm_free (d_shm st)) [idx] 8 1 = Inr (rb, 1, fs)"
      "rb_wf rb" "rb_items rb = rb_items (shm_free (d_shm st)) @ [idx]"
    using enqueue_one [OF assms(10,11), of sp idx] by auto
  ultimately show ?thesis
    using assms(1,3,4,12)
    by (intro exI [of _ rb] exI [of _ mb])
      (simp add: ktsnd_send_def Let_def sizeof_kt_mbuf_def split: prod.splits)
qed

lemma tx_udp:
  assumes "pq_wf (d_queue st)" "0 < pq_size (d_queue st)" "clock_ok clock"
    and "t = prio_at (d_queue st) 0" "0 \<le> t" "is_i64 t" "0 \<le> t - clock_ns clock" "t - clock_ns clock \<le> tx_delta_ns"
    and "idx = data (elems (d_queue st) ! 0)"
    and "rte_pktmbuf_alloc ops (d_dev st) = (Some room, dev)" "length room = 2048"
    and "unat idx < length (shm_metadata (d_shm st))" "md = shm_metadata (d_shm st) ! unat idx"
    and "md_transport md = KT_METADATA_TRANSPORT_UDP" "length (md_eth_src md) = 6" "length (md_eth_dst md) = 6"
    and "unat (md_size md) \<le> 2006" "unat idx * 2048 + unat (md_size md) \<le> length (shm_mbufs (d_shm st))"
    and "rb_wf (shm_free (d_shm st))" "rb_len (shm_free (d_shm st)) < unat (rb_capacity (shm_free (d_shm st)))"
    and "is_i64 (d_counter st + 1)"
  shows "\<exists>st' mb. ktsnd_tx ops sp clock st = Inr (st', Sent idx) \<and>
    d_dev st' = snd (rte_eth_tx_burst ops dev mb) \<and>
    parse_udp (mbuf_frame mb) = Some \<lparr>v_eth_dst = md_eth_dst md, v_eth_src = md_eth_src md,
      v_ip_src = md_ip_src md, v_ip_dst = md_ip_dst md, v_sport = 9999, v_dport = md_udp_dport md,
      v_payload = take (unat (md_size md)) (drop (unat idx * 2048) (shm_mbufs (d_shm st)))\<rparr> \<and>
    rb_items (shm_free (d_shm st')) = rb_items (shm_free (d_shm st)) @ [idx] \<and>
    pq_mset (d_queue st) = add_mset (elems (d_queue st) ! 0) (pq_mset (d_queue st')) \<and>
    d_counter st' = d_counter st + 1"
proof -
  obtain q where q: "kt_prio_queue_extract_min (d_queue st) True = Inr (q, 0, Some idx)"
      "pq_mset (d_queue st) = add_mset (elems (d_queue st) ! 0) (pq_mset q)"
    using extract_correct [OF assms(1,2), of True] assms(9) by auto
  have "\<exists>rb mb. ktsnd_send ops sp idx (st\<lparr>d_queue := q\<rparr>) =
      Inr (st\<lparr>d_queue := q, d_shm := (d_shm st)\<lparr>shm_free := rb\<rparr>,
        d_dev := snd (rte_eth_tx_burst ops dev mb), d_counter := d_counter st + 1\<rparr>) \<and>
      rb_items rb = rb_items (shm_free (d_shm st)) @ [idx] \<and>
      parse_udp (mbuf_frame mb) = Some \<lparr>v_eth_dst = md_eth_dst md, v_eth_src = md_eth_src md,
        v_ip_src = md_ip_src md, v_ip_dst = md_ip_dst md, v_sport = 9999, v_dport = md_udp_dport md,
        v_payload = take (unat (md_size md)) (drop (unat idx * 2048) (shm_mbufs (d_shm st)))\<rparr>"
    using send_udp [of ops "st\<lparr>d_queue := q\<rparr>" room dev idx md sp] assms(10-21) by auto
  then show ?thesis
    using q assms(7,8) by (auto simp: tx_nonempty [OF assms(1-6)])
qed

text \<open>
  C15. A UDP packet at the head of the queue whose time lies at most 50 microseconds ahead is handed to
  the device as a frame that parses to its metadata and to the bytes of its own buffer; its buffer
  index goes to the end of the free ring, the queue loses exactly this packet, and the count of
  packets goes up by one.
\<close>

theorem daemon_transmits:
  assumes "pq_wf (d_queue st)" "0 < pq_size (d_queue st)" "clock_ok clock"
    and "t = prio_at (d_queue st) 0" "0 \<le> t" "is_i64 t" "0 \<le> t - clock_ns clock" "t - clock_ns clock \<le> tx_delta_ns"
    and "idx = data (elems (d_queue st) ! 0)"
    and "rte_pktmbuf_alloc ops (d_dev st) = (Some room, dev)" "length room = 2048"
    and "unat idx < length (shm_metadata (d_shm st))" "md = shm_metadata (d_shm st) ! unat idx"
    and "md_transport md = KT_METADATA_TRANSPORT_UDP" "length (md_eth_src md) = 6" "length (md_eth_dst md) = 6"
    and "unat (md_size md) \<le> 2006" "unat idx * 2048 + unat (md_size md) \<le> length (shm_mbufs (d_shm st))"
    and "rb_wf (shm_free (d_shm st))" "rb_len (shm_free (d_shm st)) < unat (rb_capacity (shm_free (d_shm st)))"
    and "is_i64 (d_counter st + 1)"
  shows "\<exists>st' mb. ktsnd_tx ops sp clock st = Inr (st', Sent idx) \<and>
    d_dev st' = snd (rte_eth_tx_burst ops dev mb) \<and>
    parse_udp (mbuf_frame mb) = Some \<lparr>v_eth_dst = md_eth_dst md, v_eth_src = md_eth_src md,
      v_ip_src = md_ip_src md, v_ip_dst = md_ip_dst md, v_sport = 9999, v_dport = md_udp_dport md,
      v_payload = take (unat (md_size md)) (drop (unat idx * 2048) (shm_mbufs (d_shm st)))\<rparr> \<and>
    rb_items (shm_free (d_shm st')) = rb_items (shm_free (d_shm st)) @ [idx] \<and>
    pq_mset (d_queue st) = add_mset (elems (d_queue st) ! 0) (pq_mset (d_queue st')) \<and>
    d_counter st' = d_counter st + 1"
  by (rule tx_udp [OF assms])

theorem daemon_transmits_witness:
  "\<exists>st' mb. ktsnd_tx demo_dpdk 0 (5, 0) demo_ktsnd = Inr (st', Sent 0) \<and> d_dev st' = [mb] \<and>
    parse_udp (mbuf_frame mb) = Some \<lparr>v_eth_dst = replicate 6 0xFF, v_eth_src = [0, 1, 2, 3, 4, 5],
      v_ip_src = 0x0A000001, v_ip_dst = 0x0A000002, v_sport = 9999, v_dport = 4840, v_payload = [7, 7]\<rparr> \<and>
    rb_items (shm_free (d_shm st')) = [0]"
proof -
  note d = demo_ktsnd_simps
  have c: "clock_ok (5, 0)" "is_i64 5000000100" "clock_ns (5, 0) = 5000000000"
    by (simp_all add: clock_ok_def clock_ns_def NSEC_PER_SEC_def is_i64_def INT64_MIN_def INT64_MAX_def)
  have md: "shm_metadata (d_shm demo_ktsnd) ! 0 = demo_md" "md_transport demo_md = KT_METADATA_TRANSPORT_UDP"
      "length (md_eth_src demo_md) = 6" "length (md_eth_dst demo_md) = 6" "md_size demo_md = 2"
    by (simp_all add: demo_ktsnd_def demo_md_def)
  have m: "length (shm_metadata (d_shm demo_ktsnd)) = 1"
      "shm_mbufs (d_shm demo_ktsnd) = replicate 2048 7" "d_counter demo_ktsnd = 0" "d_dev demo_ktsnd = []"
    by (simp_all add: demo_ktsnd_def)
  have r: "rte_pktmbuf_alloc demo_dpdk [] = (Some (replicate 2048 0), [])"
    by (simp add: demo_dpdk_def)
  have "\<exists>st' mb. ktsnd_tx demo_dpdk 0 (5, 0) demo_ktsnd = Inr (st', Sent 0) \<and>
      d_dev st' = snd (rte_eth_tx_burst demo_dpdk [] mb) \<and>
      parse_udp (mbuf_frame mb) = Some \<lparr>v_eth_dst = md_eth_dst demo_md, v_eth_src = md_eth_src demo_md,
        v_ip_src = md_ip_src demo_md, v_ip_dst = md_ip_dst demo_md, v_sport = 9999,
        v_dport = md_udp_dport demo_md, v_payload = take (unat (md_size demo_md))
          (drop (unat (0 :: u64) * 2048) (shm_mbufs (d_shm demo_ktsnd)))\<rparr> \<and>
      rb_items (shm_free (d_shm st')) = rb_items (shm_free (d_shm demo_ktsnd)) @ [0] \<and>
      pq_mset (d_queue demo_ktsnd) = add_mset (elems (d_queue demo_ktsnd) ! 0) (pq_mset (d_queue st')) \<and>
      d_counter st' = d_counter demo_ktsnd + 1"
    by (rule daemon_transmits [where t = 5000000100 and room = "replicate 2048 0", OF d(1)])
      (simp_all add: d c r m md length_rb_items [symmetric] tx_delta_ns_def is_i64_def
        INT64_MIN_def INT64_MAX_def del: length_rb_items)
  moreover have "take 2 (replicate 2048 (7 :: u8)) = [7, 7]" by (simp add: numeral_2_eq_2)
  ultimately show ?thesis by (auto simp: d m demo_md_def demo_dpdk_def)
qed

end
