(* ===== verification/KT_Preload.thy ===== *)
theory KT_Preload
  imports KT_Packet
begin

unbundle bit_operations_syntax

section \<open>The preloaded socket library (\<open>src/libktsn.c\<close>)\<close>

text \<open>
  The library stands between an application and libc: it keeps a list of sockets and one of
  network interfaces, and sends messages that carry a transmission time through the shared
  segment instead of the kernel. The functions it replaces are parameters on a state \<open>'o\<close> of
  the operating system. Addresses are kept as in memory (network byte order).

  Shown here: the socket list implements a map from descriptors to options; \<open>sendmsg\<close> hands a
  message with a transmission time to the daemon as one buffer, one metadata entry and one
  index, touching nothing else; messages that are not scheduled go to libc, are refused, or (sockets of
  other domains) are sent by nobody; a payload longer than a buffer is written into the next one.
\<close>

subsection \<open>Data\<close>

text \<open>\<open>so_domain\<close> is \<open>None\<close> in an entry that \<open>setsockopt\<close> made: that field is never written.\<close>

record kt_socket =
  so_fd :: int
  so_prio :: int
  so_txtime :: int
  so_domain :: "int option"

text \<open>
  \<open>sockaddr_in\<close> and \<open>sockaddr_ll\<close> have a 16-bit field at offset 2 (port, protocol) and a 32-bit
  field at offset 4 (address, interface index); \<open>sendmsg\<close> casts \<open>msg_name\<close> to either.
\<close>

record sockaddr =
  sa_half :: u16
  sa_word :: u32

record kt_interface =
  if_index :: int
  if_name :: string
  if_addr :: sockaddr
  if_netmask :: sockaddr
  if_mac :: "u8 list"

record cmsghdr =
  cmsg_level :: int
  cmsg_type :: int
  cmsg_data :: u64

record msghdr =
  msg_name :: "sockaddr option"
  msg_iov :: "u8 list list"
  msg_control :: "cmsghdr list"

definition SOL_SOCKET :: int where "SOL_SOCKET = 1"
definition SO_PRIORITY :: int where "SO_PRIORITY = 12"
definition SO_TXTIME :: int where "SO_TXTIME = 61"
definition SCM_TXTIME :: int where "SCM_TXTIME = SO_TXTIME"
definition AF_INET :: int where "AF_INET = 2"
definition PF_PACKET :: int where "PF_PACKET = 17"
definition ENOBUFS :: int where "ENOBUFS = 105"

definition kt_default_dst_mac :: "u8 list" where "kt_default_dst_mac = replicate 6 0xFF"
definition kt_multicast_mac :: "u8 list" where "kt_multicast_mac = [0x01, 0x00, 0x5E, 0x00, 0x00, 0x01]"

text \<open>The functions of libc that are replaced; the value of an option is a pointer to an \<open>int\<close>.\<close>

record 'o libc =
  default_socket :: "'o \<Rightarrow> int \<Rightarrow> int \<Rightarrow> int \<Rightarrow> int \<times> 'o"
  default_setsockopt :: "'o \<Rightarrow> int \<Rightarrow> int \<Rightarrow> int \<Rightarrow> int option \<Rightarrow> int \<times> 'o"
  default_sendmsg :: "'o \<Rightarrow> int \<Rightarrow> msghdr \<Rightarrow> int \<Rightarrow> int \<times> 'o"
  default_close :: "'o \<Rightarrow> int \<Rightarrow> int \<times> 'o"

record 'o ktsn =
  g_socket_list :: "kt_socket list"
  g_interface_list :: "kt_interface list"
  g_shm :: kt_shm
  g_os :: 'o

subsection \<open>Lookups\<close>

fun kt_socket_find :: "kt_socket list \<Rightarrow> int \<Rightarrow> kt_socket option" where
  "kt_socket_find [] fd = None"
| "kt_socket_find (s # ss) fd = (if so_fd s = fd then Some s else kt_socket_find ss fd)"

fun kt_interface_find :: "kt_interface list \<Rightarrow> int \<Rightarrow> kt_interface option" where
  "kt_interface_find [] ifindex = None"
| "kt_interface_find (i # is) ifindex = (if if_index i = ifindex then Some i else kt_interface_find is ifindex)"

fun kt_interface_exists :: "kt_interface list \<Rightarrow> int \<Rightarrow> bool" where
  "kt_interface_exists [] ifindex = False"
| "kt_interface_exists (i # is) ifindex = (if if_index i = ifindex then True else kt_interface_exists is ifindex)"

definition is_same_subnetwork :: "sockaddr \<Rightarrow> sockaddr \<Rightarrow> sockaddr \<Rightarrow> bool" where
  "is_same_subnetwork addr1 addr2 subnet_mask \<longleftrightarrow>
     sa_word addr1 AND sa_word subnet_mask = sa_word addr2 AND sa_word subnet_mask"

fun interface_of_net :: "kt_interface list \<Rightarrow> sockaddr \<Rightarrow> kt_interface option" where
  "interface_of_net [] addr = None"
| "interface_of_net (i # is) addr =
     (if is_same_subnetwork (if_addr i) addr (if_netmask i) then Some i else interface_of_net is addr)"

definition kt_interface_get_by_net :: "kt_interface list \<Rightarrow> sockaddr option \<Rightarrow> kt_interface option" where
  "kt_interface_get_by_net is addr = (case addr of None \<Rightarrow> None | Some a \<Rightarrow> interface_of_net is a)"

fun kt_interface_find_by_mac :: "kt_interface list \<Rightarrow> u8 list \<Rightarrow> kt_interface option" where
  "kt_interface_find_by_mac [] mac = None"
| "kt_interface_find_by_mac (i # is) mac = (if if_mac i = mac then Some i else kt_interface_find_by_mac is mac)"

subsection \<open>The socket list\<close>

text \<open>
  \<open>socket\<close> has no \<open>return\<close> after the list was updated: the second component is \<open>None\<close> where the
  function ends without a value.
\<close>

definition socket :: "'o libc \<Rightarrow> int \<Rightarrow> int \<Rightarrow> int \<Rightarrow> 'o ktsn \<Rightarrow> 'o ktsn \<times> int option" where
  "socket libc domain ty protocol st =
     (let (fd, os) = default_socket libc (g_os st) domain ty protocol;
          st' = st\<lparr>g_os := os\<rparr>
      in if fd < 0 then (st', Some fd)
         else case kt_socket_find (g_socket_list st) fd of
           None \<Rightarrow> (st'\<lparr>g_socket_list :=
               \<lparr>so_fd = fd, so_prio = - 1, so_txtime = 0, so_domain = Some domain\<rparr> # g_socket_list st\<rparr>, None)
         | Some node \<Rightarrow> (st', None))"

text \<open>Writing through the pointer that \<open>kt_socket_find\<close> returned: the first entry changes.\<close>

fun update_socket :: "kt_socket list \<Rightarrow> int \<Rightarrow> (kt_socket \<Rightarrow> kt_socket) \<Rightarrow> kt_socket list" where
  "update_socket [] fd f = []"
| "update_socket (s # ss) fd f = (if so_fd s = fd then f s # ss else s # update_socket ss fd f)"

definition setsockopt ::
  "'o libc \<Rightarrow> int \<Rightarrow> int \<Rightarrow> int \<Rightarrow> int option \<Rightarrow> 'o ktsn \<Rightarrow> ('o ktsn \<times> int) res" where
  "setsockopt libc fd level optname optval st =
     (if level = SOL_SOCKET \<and> optname = SO_TXTIME then
        (case kt_socket_find (g_socket_list st) fd of
           None \<Rightarrow> Inr (st\<lparr>g_socket_list :=
               \<lparr>so_fd = fd, so_prio = - 1, so_txtime = 1, so_domain = None\<rparr> # g_socket_list st\<rparr>, 0)
         | Some node \<Rightarrow> Inr (st\<lparr>g_socket_list :=
               update_socket (g_socket_list st) fd (so_txtime_update (\<lambda>_. 1))\<rparr>, 0))
      else if level = SOL_SOCKET \<and> optname = SO_PRIORITY then
        (case optval of
           None \<Rightarrow> Inl NullDeref
         | Some v \<Rightarrow>
             (case kt_socket_find (g_socket_list st) fd of
                None \<Rightarrow> Inr (st\<lparr>g_socket_list :=
                    \<lparr>so_fd = fd, so_prio = v, so_txtime = 0, so_domain = None\<rparr> # g_socket_list st\<rparr>, 0)
              | Some node \<Rightarrow> Inr (st\<lparr>g_socket_list :=
                    update_socket (g_socket_list st) fd (so_prio_update (\<lambda>_. v))\<rparr>, 0)))
      else let (r, os) = default_setsockopt libc (g_os st) fd level optname optval
           in Inr (st\<lparr>g_os := os\<rparr>, r))"

fun remove_socket :: "kt_socket list \<Rightarrow> int \<Rightarrow> kt_socket list" where
  "remove_socket [] fd = []"
| "remove_socket (s # ss) fd = (if so_fd s = fd then ss else s # remove_socket ss fd)"

definition close :: "'o libc \<Rightarrow> int \<Rightarrow> 'o ktsn \<Rightarrow> 'o ktsn \<times> int" where
  "close libc fildes st =
     (let ss = (case kt_socket_find (g_socket_list st) fildes of
                  None \<Rightarrow> g_socket_list st | Some node \<Rightarrow> remove_socket (g_socket_list st) fildes);
          (r, os) = default_close libc (g_os st) fildes
      in (st\<lparr>g_socket_list := ss, g_os := os\<rparr>, r))"

subsection \<open>Sending\<close>

text \<open>Host byte order is little-endian, so the conversions reverse the bytes.\<close>

definition ntohl :: "u32 \<Rightarrow> u32" where "ntohl w = of_be32 (rev (be32 w))"
definition ntohs :: "u16 \<Rightarrow> u16" where "ntohs w = of_be16 (rev (be16 w))"

text \<open>
  Handing a message over: take an index from the free ring, copy the first \<open>iovec\<close> into its
  buffer, fill the metadata, put the index into the transmit ring. The two senders do the same
  apart from the metadata. \<open>junk\<close> is the uninitialised \<open>mbuf_index\<close>; neither the length of the
  message nor the index is checked.
\<close>

definition hand_over ::
  "nat \<Rightarrow> u64 \<Rightarrow> msghdr \<Rightarrow> (u64 \<Rightarrow> kt_metadata \<Rightarrow> kt_metadata) \<Rightarrow> 'o ktsn \<Rightarrow> ('o ktsn \<times> int) res" where
  "hand_over sp junk msg fill st =
     rbind (kt_ringbuf_dequeue_burst sp (shm_free (g_shm st)) [junk] 8 1) (\<lambda>(rb, mbuf_index, nb_free, av).
     let shm1 = (g_shm st)\<lparr>shm_free := rb\<rparr> in
     if nb_free = 0 then Inr (st\<lparr>g_shm := shm1\<rparr>, - ENOBUFS)
     else
       let index = unat (mbuf_index ! 0) in
       rbind (arr_get (msg_iov msg) 0) (\<lambda>iov.
       rbind (mem_write (shm_mbufs shm1) (index * sizeof_kt_mbuf) iov (length iov)) (\<lambda>bytes.
       rbind (arr_get (shm_metadata shm1) index) (\<lambda>md.
       rbind (arr_set (shm_metadata shm1) index (fill (of_nat (length iov)) md)) (\<lambda>mds.
       let shm2 = shm1\<lparr>shm_mbufs := bytes, shm_metadata := mds\<rparr> in
       rbind (kt_ringbuf_enqueue_burst sp (shm_tx shm2) mbuf_index 8 1) (\<lambda>(tx, nb_enqueued, fs).
       let st' = st\<lparr>g_shm := shm2\<lparr>shm_tx := tx\<rparr>\<rparr> in
       if nb_enqueued \<noteq> 1 then Inr (st', - ENOBUFS) else Inr (st', int (length iov))))))))"

definition sendmsg_inet ::
  "'o libc \<Rightarrow> nat \<Rightarrow> u64 \<Rightarrow> int \<Rightarrow> msghdr \<Rightarrow> int \<Rightarrow> u64 \<Rightarrow> 'o ktsn \<Rightarrow> ('o ktsn \<times> int) res" where
  "sendmsg_inet libc sp junk sockfd msg flags txtime st =
     (case (kt_interface_get_by_net (g_interface_list st) (msg_name msg), msg_name msg) of
        (Some iface, Some addr) \<Rightarrow>
          hand_over sp junk msg (\<lambda>sz md. md\<lparr>md_txtime := txtime, md_size := sz,
            md_eth_src := if_mac iface, md_eth_dst := kt_default_dst_mac,
            md_ip_dst := ntohl (sa_word addr), md_ip_src := ntohl (sa_word (if_addr iface)),
            md_udp_dport := ntohs (sa_half addr), md_transport := KT_METADATA_TRANSPORT_UDP\<rparr>) st
      | _ \<Rightarrow> let (r, os) = default_sendmsg libc (g_os st) sockfd msg flags in Inr (st\<lparr>g_os := os\<rparr>, r))"

definition sendmsg_packet ::
  "'o libc \<Rightarrow> nat \<Rightarrow> u64 \<Rightarrow> int \<Rightarrow> msghdr \<Rightarrow> int \<Rightarrow> u64 \<Rightarrow> 'o ktsn \<Rightarrow> ('o ktsn \<times> int) res" where
  "sendmsg_packet libc sp junk sockfd msg flags txtime st =
     (case msg_name msg of
        None \<Rightarrow> Inl NullDeref
      | Some addr \<Rightarrow>
          (case kt_interface_find (g_interface_list st) (sint (sa_word addr)) of
             None \<Rightarrow> let (r, os) = default_sendmsg libc (g_os st) sockfd msg flags in Inr (st\<lparr>g_os := os\<rparr>, r)
           | Some iface \<Rightarrow>
               hand_over sp junk msg (\<lambda>sz md. md\<lparr>md_txtime := txtime, md_size := sz,
                 md_transport := KT_METADATA_TRANSPORT_ETHERNET,
                 md_eth_src := if_mac iface, md_eth_dst := kt_multicast_mac\<rparr>) st))"

fun find_txtime :: "cmsghdr list \<Rightarrow> u64 option" where
  "find_txtime [] = None"
| "find_txtime (c # cs) =
     (if cmsg_level c = SOL_SOCKET \<and> cmsg_type c = SCM_TXTIME then Some (cmsg_data c) else find_txtime cs)"

text \<open>
  The \<open>switch\<close> on the domain has no default, so for other domains the function ends without a
  value (\<open>None\<close>); reading a domain that was never written is a fault. The clock is read and not used.
\<close>

definition sendmsg ::
  "'o libc \<Rightarrow> nat \<Rightarrow> u64 \<Rightarrow> int \<Rightarrow> msghdr \<Rightarrow> int \<Rightarrow> 'o ktsn \<Rightarrow> ('o ktsn \<times> int option) res" where
  "sendmsg libc sp junk sockfd msg flags st =
     (let default = (let (r, os) = default_sendmsg libc (g_os st) sockfd msg flags
                     in Inr (st\<lparr>g_os := os\<rparr>, Some r))
      in case kt_socket_find (g_socket_list st) sockfd of
        None \<Rightarrow> default
      | Some node \<Rightarrow>
          if so_txtime node = 0 then default
          else case find_txtime (msg_control msg) of
            None \<Rightarrow> default
          | Some txtime \<Rightarrow>
              (case so_domain node of
                 None \<Rightarrow> Inl Indeterminate
               | Some d \<Rightarrow>
                   if d = PF_PACKET then
                     rbind (sendmsg_packet libc sp junk sockfd msg flags txtime st) (\<lambda>(st', r). Inr (st', Some r))
                   else if d = AF_INET then
                     rbind (sendmsg_inet libc sp junk sockfd msg flags txtime st) (\<lambda>(st', r). Inr (st', Some r))
                   else Inr (st, None)))"

subsection \<open>Collecting the interfaces\<close>

text \<open>
  An entry of \<open>getifaddrs\<close>: name, address with its family, netmask. What \<open>getnameinfo\<close> and
  \<open>if_nametoindex\<close> answer is a parameter; \<open>mac\<close> is the uninitialised field of the new entry.
\<close>

record ifaddr =
  ifa_name :: string
  ifa_addr :: "(int \<times> sockaddr) option"
  ifa_netmask :: "sockaddr option"

definition add_interface ::
  "(sockaddr \<Rightarrow> int) \<Rightarrow> (string \<Rightarrow> int) \<Rightarrow> u8 list \<Rightarrow> kt_interface list \<Rightarrow> ifaddr \<Rightarrow> kt_interface list res" where
  "add_interface getnameinfo if_nametoindex mac is ifa =
     (case ifa_addr ifa of
        None \<Rightarrow> Inr is
      | Some (family, addr) \<Rightarrow>
          if family \<noteq> AF_INET then Inr is
          else if getnameinfo addr \<noteq> 0 then Inl Exit
          else
            let ifindex = if_nametoindex (ifa_name ifa) in
            if kt_interface_exists is ifindex then Inr is
            else case ifa_netmask ifa of
              None \<Rightarrow> Inl NullDeref
            | Some nm \<Rightarrow> Inr (\<lparr>if_index = ifindex, if_name = take 16 (ifa_name ifa), if_addr = addr,
                               if_netmask = nm, if_mac = mac\<rparr> # is))"

text \<open>
  The hardware address of an interface, through a socket of the library's own \<open>socket\<close>. That function
  ends without \<open>return\<close>; \<open>rax\<close> is the value its caller finds. \<open>ioctl\<close> answers with the address
  (\<open>SIOCGIFHWADDR\<close>) or fails.
\<close>

definition query_and_add_mac_address ::
  "'o libc \<Rightarrow> ('o ktsn \<Rightarrow> int) \<Rightarrow> (int \<Rightarrow> string \<Rightarrow> u8 list option) \<Rightarrow> kt_interface \<Rightarrow> 'o ktsn \<Rightarrow>
   (kt_interface \<times> 'o ktsn) res" where
  "query_and_add_mac_address libc rax ioctl iface st =
     (let (st1, r) = socket libc AF_INET 2 0 st;
          sock = (case r of None \<Rightarrow> rax st1 | Some fd \<Rightarrow> fd)
      in if sock < 0 then Inl Exit
         else case ioctl sock (if_name iface) of
           None \<Rightarrow> Inl Exit
         | Some sa_data \<Rightarrow> Inr (iface\<lparr>if_mac := take 6 sa_data\<rparr>, fst (close libc sock st1)))"

text \<open>The loop over the list, which changes each entry in place.\<close>

fun add_macs ::
  "'o libc \<Rightarrow> ('o ktsn \<Rightarrow> int) \<Rightarrow> (int \<Rightarrow> string \<Rightarrow> u8 list option) \<Rightarrow> kt_interface list \<Rightarrow> 'o ktsn \<Rightarrow>
   (kt_interface list \<times> 'o ktsn) res" where
  "add_macs libc rax ioctl [] st = Inr ([], st)"
| "add_macs libc rax ioctl (i # is) st =
     rbind (query_and_add_mac_address libc rax ioctl i st) (\<lambda>(i', st1).
     rbind (add_macs libc rax ioctl is st1) (\<lambda>(is', st2). Inr (i' # is', st2)))"

definition query_interfaces ::
  "'o libc \<Rightarrow> ('o ktsn \<Rightarrow> int) \<Rightarrow> (int \<Rightarrow> string \<Rightarrow> u8 list option) \<Rightarrow> (sockaddr \<Rightarrow> int) \<Rightarrow> (string \<Rightarrow> int) \<Rightarrow>
   u8 list \<Rightarrow> ifaddr list option \<Rightarrow> 'o ktsn \<Rightarrow> 'o ktsn res" where
  "query_interfaces libc rax ioctl getnameinfo if_nametoindex mac ifas st =
     (case ifas of
        None \<Rightarrow> Inl Exit
      | Some l \<Rightarrow>
          rbind (rfold (add_interface getnameinfo if_nametoindex mac) (g_interface_list st) l) (\<lambda>is.
          rbind (add_macs libc rax ioctl is st) (\<lambda>(is', st').
          Inr (st'\<lparr>g_interface_list := is'\<rparr>))))"

subsection \<open>The socket list as a map\<close>

datatype sock_call =
    CSocket int int int
  | CSetTxtime int
  | CSetPriority int int
  | CClose int

definition sock_step :: "'o libc \<Rightarrow> 'o ktsn \<Rightarrow> sock_call \<Rightarrow> 'o ktsn res" where
  "sock_step libc st c =
     (case c of
        CSocket d t p \<Rightarrow> Inr (fst (socket libc d t p st))
      | CSetTxtime fd \<Rightarrow> rbind (setsockopt libc fd SOL_SOCKET SO_TXTIME None st) (\<lambda>(st', r). Inr st')
      | CSetPriority fd v \<Rightarrow> rbind (setsockopt libc fd SOL_SOCKET SO_PRIORITY (Some v) st) (\<lambda>(st', r). Inr st')
      | CClose fd \<Rightarrow> Inr (fst (close libc fd st)))"

text \<open>The abstract table: descriptors to options, with the state of the operating system.\<close>

definition table_step ::
  "'o libc \<Rightarrow> (int \<Rightarrow> kt_socket option) \<times> 'o \<Rightarrow> sock_call \<Rightarrow> (int \<Rightarrow> kt_socket option) \<times> 'o" where
  "table_step libc mo c =
     (let (m, os) = mo in
      case c of
        CSocket d t p \<Rightarrow>
          let (fd, os') = default_socket libc os d t p in
          (if 0 \<le> fd \<and> m fd = None
           then m(fd \<mapsto> \<lparr>so_fd = fd, so_prio = - 1, so_txtime = 0, so_domain = Some d\<rparr>) else m, os')
      | CSetTxtime fd \<Rightarrow>
          (m(fd \<mapsto> (case m fd of None \<Rightarrow> \<lparr>so_fd = fd, so_prio = - 1, so_txtime = 1, so_domain = None\<rparr>
                     | Some s \<Rightarrow> s\<lparr>so_txtime := 1\<rparr>)), os)
      | CSetPriority fd v \<Rightarrow>
          (m(fd \<mapsto> (case m fd of None \<Rightarrow> \<lparr>so_fd = fd, so_prio = v, so_txtime = 0, so_domain = None\<rparr>
                     | Some s \<Rightarrow> s\<lparr>so_prio := v\<rparr>)), os)
      | CClose fd \<Rightarrow> (m(fd := None), snd (default_close libc os fd)))"

definition sockets_ok :: "kt_socket list \<Rightarrow> bool" where
  "sockets_ok ss \<longleftrightarrow> distinct (map so_fd ss)"

lemma find_fd: "kt_socket_find ss fd = Some s \<Longrightarrow> so_fd s = fd"
  by (induction ss) (auto split: if_splits)

lemma find_none: "kt_socket_find ss fd = None \<longleftrightarrow> fd \<notin> set (map so_fd ss)"
  by (induction ss) auto

lemma find_new: "kt_socket_find ss fd = None \<Longrightarrow> fd \<notin> so_fd ` set ss"
  using find_none [of ss fd] by simp

lemma fds_update: "(\<And>s. so_fd (f s) = so_fd s) \<Longrightarrow> map so_fd (update_socket ss fd f) = map so_fd ss"
  by (induction ss) auto

lemma find_update:
  "(\<And>s. so_fd (f s) = so_fd s) \<Longrightarrow>
   kt_socket_find (update_socket ss fd f) x =
     (if x = fd then map_option f (kt_socket_find ss fd) else kt_socket_find ss x)"
  by (induction ss) auto

lemma fds_remove: "set (map so_fd (remove_socket ss fd)) \<subseteq> set (map so_fd ss)"
  by (induction ss) auto

lemma distinct_remove: "sockets_ok ss \<Longrightarrow> sockets_ok (remove_socket ss fd)"
  using fds_remove by (induction ss) (auto simp: sockets_ok_def)

lemma find_remove:
  "sockets_ok ss \<Longrightarrow> kt_socket_find (remove_socket ss fd) x = (if x = fd then None else kt_socket_find ss x)"
  by (induction ss) (auto simp: sockets_ok_def find_none image_iff)

lemma sock_step_refines:
  assumes "sockets_ok (g_socket_list st)"
  shows "\<exists>st'. sock_step libc st c = Inr st' \<and> sockets_ok (g_socket_list st') \<and>
    (kt_socket_find (g_socket_list st'), g_os st') =
      table_step libc (kt_socket_find (g_socket_list st), g_os st) c \<and>
    g_shm st' = g_shm st"
proof (cases c)
  case (CSocket d t p)
  obtain fd os where d: "default_socket libc (g_os st) d t p = (fd, os)" by fastforce
  show ?thesis
    using assms CSocket d find_new [of "g_socket_list st" fd] by (cases "kt_socket_find (g_socket_list st) fd")
      (auto simp: sock_step_def table_step_def socket_def Let_def sockets_ok_def fun_eq_iff)
next
  case (CSetTxtime fd)
  then show ?thesis
    using assms find_new [of "g_socket_list st" fd] by (cases "kt_socket_find (g_socket_list st) fd")
      (auto simp: sock_step_def table_step_def setsockopt_def sockets_ok_def fds_update find_update fun_eq_iff)
next
  case (CSetPriority fd v)
  then show ?thesis
    using assms find_new [of "g_socket_list st" fd] by (cases "kt_socket_find (g_socket_list st) fd")
      (auto simp: sock_step_def table_step_def setsockopt_def sockets_ok_def fds_update find_update
        fun_eq_iff SO_TXTIME_def SO_PRIORITY_def)
next
  case (CClose fd)
  then show ?thesis
    using assms distinct_remove [OF assms] find_remove [OF assms]
    by (cases "kt_socket_find (g_socket_list st) fd")
      (auto simp: sock_step_def table_step_def close_def Let_def fun_eq_iff split: prod.splits)
qed

text \<open>
  C19. From a list without duplicates, as at start-up, every sequence of \<open>socket\<close>, \<open>setsockopt\<close> and \<open>close\<close>
  calls succeeds and keeps one entry per descriptor, and lookups give what the same calls do to a
  map: a new socket has no transmission time, setting an option changes only that option of that
  descriptor (or makes an entry), closing removes the descriptor's entry and no other.
\<close>

theorem socket_table_refines:
  assumes "sockets_ok (g_socket_list st)"
  shows "\<exists>st'. rfold (sock_step libc) st cs = Inr st' \<and> sockets_ok (g_socket_list st') \<and>
    (kt_socket_find (g_socket_list st'), g_os st') =
      foldl (table_step libc) (kt_socket_find (g_socket_list st), g_os st) cs \<and> g_shm st' = g_shm st"
  using assms
proof (induction cs arbitrary: st)
  case Nil
  then show ?case by auto
next
  case (Cons c cs)
  obtain st1 where "sock_step libc st c = Inr st1" "sockets_ok (g_socket_list st1)"
      "(kt_socket_find (g_socket_list st1), g_os st1) =
        table_step libc (kt_socket_find (g_socket_list st), g_os st) c" "g_shm st1 = g_shm st"
    using sock_step_refines [OF Cons.prems, of libc c] by blast
  then show ?case using Cons.IH [of st1] by auto
qed

text \<open>An operating system that hands out one descriptor and logs nothing, for the examples.\<close>

definition demo_libc :: "int libc" where
  "demo_libc = \<lparr>default_socket = \<lambda>n d t p. (n, n + 1), default_setsockopt = \<lambda>n fd l nm v. (0, n),
     default_sendmsg = \<lambda>n fd m f. (- 1, n), default_close = \<lambda>n fd. (0, n)\<rparr>"

definition demo_shm :: kt_shm where
  "demo_shm = \<lparr>shm_tx = ringbuf_header ''RB_tx'' 4 1 (replicate 8 0),
     shm_free = ringbuf_header ''RB_free'' 4 1 (replicate 8 0), shm_mbufs = [], shm_metadata = []\<rparr>"

theorem socket_table_refines_witness:
  "\<exists>st'. rfold (sock_step demo_libc)
      \<lparr>g_socket_list = [], g_interface_list = [], g_shm = demo_shm, g_os = 3\<rparr>
      [CSocket 2 2 17, CSocket 17 3 0, CSetTxtime 3, CClose 4] = Inr st' \<and>
    kt_socket_find (g_socket_list st') 3 = Some \<lparr>so_fd = 3, so_prio = - 1, so_txtime = 1, so_domain = Some 2\<rparr> \<and>
    kt_socket_find (g_socket_list st') 4 = None"
proof -
  let ?st = "\<lparr>g_socket_list = [], g_interface_list = [], g_shm = demo_shm, g_os = 3\<rparr>"
  have "sockets_ok (g_socket_list ?st)" by (simp add: sockets_ok_def)
  from socket_table_refines [OF this, of demo_libc "[CSocket 2 2 17, CSocket 17 3 0, CSetTxtime 3, CClose 4]"]
  show ?thesis
    by (auto simp: table_step_def demo_libc_def fun_eq_iff simp del: rfold.simps)
qed

subsection \<open>Handing a message over\<close>

definition mbuf_at :: "u8 list \<Rightarrow> nat \<Rightarrow> u8 list" where
  "mbuf_at bytes k = take sizeof_kt_mbuf (drop (k * sizeof_kt_mbuf) bytes)"

lemma hand_over_ok:
  assumes fr: "rb_wf (shm_free (g_shm st))" "rb_items (shm_free (g_shm st)) = idx # rest"
    and tx: "rb_wf (shm_tx (g_shm st))" "rb_len (shm_tx (g_shm st)) < unat (rb_capacity (shm_tx (g_shm st)))"
    and iov: "msg_iov msg = iov # iovs" "unat idx * 2048 + length iov \<le> length (shm_mbufs (g_shm st))"
    and md: "unat idx < length (shm_metadata (g_shm st))"
  shows "\<exists>fr' tx'. hand_over sp junk msg fill st = Inr (st\<lparr>g_shm := (g_shm st)\<lparr>shm_free := fr', shm_tx := tx',
      shm_mbufs := blit (length iov) (shm_mbufs (g_shm st)) (unat idx * 2048) iov 0,
      shm_metadata := (shm_metadata (g_shm st))[unat idx := fill (of_nat (length iov)) (shm_metadata (g_shm st) ! unat idx)]\<rparr>\<rparr>,
      int (length iov)) \<and> rb_wf fr' \<and> rb_items fr' = rest \<and> rb_wf tx' \<and>
    rb_items tx' = rb_items (shm_tx (g_shm st)) @ [idx]"
proof -
  obtain fr' av where "kt_ringbuf_dequeue_burst sp (shm_free (g_shm st)) [junk] 8 1 = Inr (fr', [idx], 1, av)"
      "rb_wf fr'" "rb_items fr' = rest"
    using dequeue_one [OF fr, of sp junk] by blast
  moreover obtain tx' fs where "kt_ringbuf_enqueue_burst sp (shm_tx (g_shm st)) [idx] 8 1 = Inr (tx', 1, fs)"
      "rb_wf tx'" "rb_items tx' = rb_items (shm_tx (g_shm st)) @ [idx]"
    using enqueue_one [OF tx, of sp idx] by blast
  ultimately show ?thesis
    using iov md
    by (intro exI [of _ fr'] exI [of _ tx']) (simp add: hand_over_def Let_def sizeof_kt_mbuf_def)
qed

lemma hand_over_no_buffer:
  assumes "rb_wf (shm_free (g_shm st))" "rb_items (shm_free (g_shm st)) = []"
  shows "hand_over sp junk msg fill st = Inr (st, - ENOBUFS)"
  using dequeue_none [OF assms, of sp junk] by (auto simp: hand_over_def Let_def)

lemma mbuf_at_written:
  assumes "length iov \<le> 2048" "i * 2048 + length iov \<le> length bytes"
  shows "take (length iov) (mbuf_at (blit (length iov) bytes (i * 2048) iov 0) i) = iov"
    and "k \<noteq> i \<Longrightarrow> mbuf_at (blit (length iov) bytes (i * 2048) iov 0) k = mbuf_at bytes k"
proof -
  show "take (length iov) (mbuf_at (blit (length iov) bytes (i * 2048) iov 0) i) = iov"
    using assms by (simp add: mbuf_at_def sizeof_kt_mbuf_def blit_slices)
  assume "k \<noteq> i"
  then have "k * 2048 + 2048 \<le> i * 2048 \<or> i * 2048 + length iov \<le> k * 2048"
    using assms(1) by (cases "k < i") auto
  then show "mbuf_at (blit (length iov) bytes (i * 2048) iov 0) k = mbuf_at bytes k"
    using field_write_other [of "k * 2048" 2048 "i * 2048" "length iov" bytes iov] assms(2)
    by (simp add: mbuf_at_def sizeof_kt_mbuf_def field_def)
qed

lemma sendmsg_inet_path:
  assumes "kt_socket_find (g_socket_list st) sockfd = Some node" "so_txtime node \<noteq> 0"
    and "so_domain node = Some AF_INET" "find_txtime (msg_control msg) = Some txtime"
    and "msg_name msg = Some addr" "interface_of_net (g_interface_list st) addr = Some iface"
  shows "sendmsg libc sp junk sockfd msg flags st =
    rbind (hand_over sp junk msg (\<lambda>sz md. md\<lparr>md_txtime := txtime, md_size := sz,
      md_eth_src := if_mac iface, md_eth_dst := kt_default_dst_mac,
      md_ip_dst := ntohl (sa_word addr), md_ip_src := ntohl (sa_word (if_addr iface)),
      md_udp_dport := ntohs (sa_half addr), md_transport := KT_METADATA_TRANSPORT_UDP\<rparr>) st)
    (\<lambda>(st', r). Inr (st', Some r))"
  using assms
  by (simp add: sendmsg_def sendmsg_inet_def kt_interface_get_by_net_def PF_PACKET_def AF_INET_def Let_def)

lemma sendmsg_inet_ok:
  assumes "kt_socket_find (g_socket_list st) sockfd = Some node" "so_txtime node \<noteq> 0"
    and "so_domain node = Some AF_INET" "find_txtime (msg_control msg) = Some txtime"
    and "msg_name msg = Some addr" "interface_of_net (g_interface_list st) addr = Some iface"
    and "rb_wf (shm_free (g_shm st))" "rb_items (shm_free (g_shm st)) = idx # rest"
    and "rb_wf (shm_tx (g_shm st))" "rb_len (shm_tx (g_shm st)) < unat (rb_capacity (shm_tx (g_shm st)))"
    and "msg_iov msg = iov # iovs" "length iov \<le> 2048"
    and "unat idx < length (shm_metadata (g_shm st))"
      "unat idx * 2048 + 2048 \<le> length (shm_mbufs (g_shm st))"
  shows "\<exists>shm. sendmsg libc sp junk sockfd msg flags st = Inr (st\<lparr>g_shm := shm\<rparr>, Some (int (length iov))) \<and>
    rb_wf (shm_free shm) \<and> rb_items (shm_free shm) = rest \<and>
    rb_wf (shm_tx shm) \<and> rb_items (shm_tx shm) = rb_items (shm_tx (g_shm st)) @ [idx] \<and>
    take (length iov) (mbuf_at (shm_mbufs shm) (unat idx)) = iov \<and>
    length (shm_mbufs shm) = length (shm_mbufs (g_shm st)) \<and> (\<forall>k. k \<noteq> unat idx \<longrightarrow> mbuf_at (shm_mbufs shm) k = mbuf_at (shm_mbufs (g_shm st)) k) \<and>
    shm_metadata shm = (shm_metadata (g_shm st))[unat idx :=
      \<lparr>md_transport = KT_METADATA_TRANSPORT_UDP, md_txtime = txtime, md_eth_src = if_mac iface,
       md_eth_dst = kt_default_dst_mac, md_ip_src = ntohl (sa_word (if_addr iface)),
       md_ip_dst = ntohl (sa_word addr), md_udp_dport = ntohs (sa_half addr), md_size = of_nat (length iov)\<rparr>]"
proof -
  have fit: "unat idx * 2048 + length iov \<le> length (shm_mbufs (g_shm st))"
    using assms(12,14) by simp
  note w = mbuf_at_written [OF assms(12) fit]
  define fill where "fill = (\<lambda>sz md. md\<lparr>md_txtime := txtime, md_size := sz, md_eth_src := if_mac iface,
    md_eth_dst := kt_default_dst_mac, md_ip_dst := ntohl (sa_word addr),
    md_ip_src := ntohl (sa_word (if_addr iface)), md_udp_dport := ntohs (sa_half addr),
    md_transport := KT_METADATA_TRANSPORT_UDP\<rparr> :: kt_metadata)"
  have f: "fill sz md = \<lparr>md_transport = KT_METADATA_TRANSPORT_UDP, md_txtime = txtime,
      md_eth_src = if_mac iface, md_eth_dst = kt_default_dst_mac,
      md_ip_src = ntohl (sa_word (if_addr iface)), md_ip_dst = ntohl (sa_word addr),
      md_udp_dport = ntohs (sa_half addr), md_size = sz\<rparr>" for sz md
    by (simp add: fill_def)
  obtain fr' tx' where h: "hand_over sp junk msg fill st = Inr (st\<lparr>g_shm := (g_shm st)\<lparr>shm_free := fr',
      shm_tx := tx', shm_mbufs := blit (length iov) (shm_mbufs (g_shm st)) (unat idx * 2048) iov 0,
      shm_metadata := (shm_metadata (g_shm st))[unat idx := fill (of_nat (length iov))
        (shm_metadata (g_shm st) ! unat idx)]\<rparr>\<rparr>, int (length iov))" "rb_wf fr'" "rb_items fr' = rest"
      "rb_wf tx'" "rb_items tx' = rb_items (shm_tx (g_shm st)) @ [idx]"
    using hand_over_ok [OF assms(7-10,11) fit assms(13), of sp junk fill] by blast
  show ?thesis
    unfolding sendmsg_inet_path [OF assms(1-6)] fill_def [symmetric] h(1) f
    using h(2-5) w
    by (intro exI [of _ "(g_shm st)\<lparr>shm_free := fr', shm_tx := tx',
        shm_mbufs := blit (length iov) (shm_mbufs (g_shm st)) (unat idx * 2048) iov 0,
        shm_metadata := (shm_metadata (g_shm st))[unat idx := _]\<rparr>"]) simp
qed

text \<open>A library state with one socket, one interface and two free buffers, for the examples.\<close>

definition demo_ktsn :: "int ktsn" where
  "demo_ktsn = \<lparr>
     g_socket_list = [\<lparr>so_fd = 3, so_prio = - 1, so_txtime = 1, so_domain = Some AF_INET\<rparr>],
     g_interface_list = [\<lparr>if_index = 2, if_name = ''eth0'', if_addr = \<lparr>sa_half = 0, sa_word = 0x0100000A\<rparr>,
       if_netmask = \<lparr>sa_half = 0, sa_word = 0x00FFFFFF\<rparr>, if_mac = [0, 1, 2, 3, 4, 5]\<rparr>],
     g_shm = \<lparr>shm_tx = ringbuf_header ''RB_tx'' 4 1 (replicate 8 0),
       shm_free = (ringbuf_header ''RB_free'' 4 1 [0, 1, 0, 0])\<lparr>prod := \<lparr>head = 2, tail = 2\<rparr>\<rparr>,
       shm_mbufs = replicate 4096 0, shm_metadata = replicate 2
         \<lparr>md_transport = 0, md_txtime = 0, md_eth_src = [], md_eth_dst = [], md_ip_src = 0, md_ip_dst = 0,
          md_udp_dport = 0, md_size = 0\<rparr>\<rparr>,
     g_os = 0\<rparr>"

definition demo_msg :: "u8 list \<Rightarrow> msghdr" where
  "demo_msg payload = \<lparr>msg_name = Some \<lparr>sa_half = 0xE812, sa_word = 0x0200000A\<rparr>, msg_iov = [payload],
     msg_control = [\<lparr>cmsg_level = SOL_SOCKET, cmsg_type = SCM_TXTIME, cmsg_data = 5000000100\<rparr>]\<rparr>"

lemma demo_ktsn_rings:
  "rb_wf (shm_free (g_shm demo_ktsn))" "rb_items (shm_free (g_shm demo_ktsn)) = [0, 1]"
  "rb_wf (shm_tx (g_shm demo_ktsn))" "rb_items (shm_tx (g_shm demo_ktsn)) = []"
  "rb_len (shm_tx (g_shm demo_ktsn)) < unat (rb_capacity (shm_tx (g_shm demo_ktsn)))"
proof -
  show "rb_wf (shm_free (g_shm demo_ktsn))"
    by (simp add: demo_ktsn_def rb_wf_def rb_geo_def rb_len_def ringbuf_header_def)
  show "rb_items (shm_free (g_shm demo_ktsn)) = [0, 1]"
    by (simp add: demo_ktsn_def rb_items_def rb_len_def rb_slot_def ringbuf_header_def upt_rec)
  show "rb_wf (shm_tx (g_shm demo_ktsn))" "rb_items (shm_tx (g_shm demo_ktsn)) = []"
    using fresh_ring [of 4 "replicate 8 0" "''RB_tx''" 1] by (simp_all add: demo_ktsn_def)
  show "rb_len (shm_tx (g_shm demo_ktsn)) < unat (rb_capacity (shm_tx (g_shm demo_ktsn)))"
    by (simp add: demo_ktsn_def rb_len_def ringbuf_header_def)
qed

lemma demo_ktsn_lookup:
  "kt_socket_find (g_socket_list demo_ktsn) 3 =
     Some \<lparr>so_fd = 3, so_prio = - 1, so_txtime = 1, so_domain = Some AF_INET\<rparr>"
  "interface_of_net (g_interface_list demo_ktsn) \<lparr>sa_half = 0xE812, sa_word = 0x0200000A\<rparr> =
     Some (hd (g_interface_list demo_ktsn))"
  "msg_name (demo_msg p) = Some \<lparr>sa_half = 0xE812, sa_word = 0x0200000A\<rparr>" "msg_iov (demo_msg p) = [p]"
  "find_txtime (msg_control (demo_msg p)) = Some 5000000100"
  "length (shm_metadata (g_shm demo_ktsn)) = 2" "length (shm_mbufs (g_shm demo_ktsn)) = 4096"
  by (simp_all add: demo_ktsn_def demo_msg_def is_same_subnetwork_def)

text \<open>
  C14. A message with a transmission time on an IPv4 socket with that option, to a network of a known
  interface, with a free buffer and a payload of at most 2048 bytes: \<open>sendmsg\<close> returns the length;
  the first free index moves to the end of the transmit ring; exactly its buffer receives the
  payload and exactly its metadata entry the time, the length and the addresses; every other
  buffer and entry and the library's own state stay as they were.
\<close>

theorem sendmsg_delivers:
  assumes "kt_socket_find (g_socket_list st) sockfd = Some node" "so_txtime node \<noteq> 0"
    and "so_domain node = Some AF_INET" "find_txtime (msg_control msg) = Some txtime"
    and "msg_name msg = Some addr" "interface_of_net (g_interface_list st) addr = Some iface"
    and "rb_wf (shm_free (g_shm st))" "rb_items (shm_free (g_shm st)) = idx # rest"
    and "rb_wf (shm_tx (g_shm st))" "rb_len (shm_tx (g_shm st)) < unat (rb_capacity (shm_tx (g_shm st)))"
    and "msg_iov msg = iov # iovs" "length iov \<le> 2048"
    and "unat idx < length (shm_metadata (g_shm st))"
      "unat idx * 2048 + 2048 \<le> length (shm_mbufs (g_shm st))"
  shows "\<exists>shm. sendmsg libc sp junk sockfd msg flags st = Inr (st\<lparr>g_shm := shm\<rparr>, Some (int (length iov))) \<and>
    rb_wf (shm_free shm) \<and> rb_items (shm_free shm) = rest \<and>
    rb_wf (shm_tx shm) \<and> rb_items (shm_tx shm) = rb_items (shm_tx (g_shm st)) @ [idx] \<and>
    take (length iov) (mbuf_at (shm_mbufs shm) (unat idx)) = iov \<and>
    length (shm_mbufs shm) = length (shm_mbufs (g_shm st)) \<and> (\<forall>k. k \<noteq> unat idx \<longrightarrow> mbuf_at (shm_mbufs shm) k = mbuf_at (shm_mbufs (g_shm st)) k) \<and>
    shm_metadata shm = (shm_metadata (g_shm st))[unat idx :=
      \<lparr>md_transport = KT_METADATA_TRANSPORT_UDP, md_txtime = txtime, md_eth_src = if_mac iface,
       md_eth_dst = kt_default_dst_mac, md_ip_src = ntohl (sa_word (if_addr iface)),
       md_ip_dst = ntohl (sa_word addr), md_udp_dport = ntohs (sa_half addr), md_size = of_nat (length iov)\<rparr>]"
  by (rule sendmsg_inet_ok [OF assms])

theorem sendmsg_delivers_witness:
  "\<exists>shm. sendmsg demo_libc 0 0 3 (demo_msg [7, 8, 9]) 0 demo_ktsn = Inr (demo_ktsn\<lparr>g_shm := shm\<rparr>, Some 3) \<and>
    rb_items (shm_free shm) = [1] \<and> rb_items (shm_tx shm) = [0] \<and>
    take 3 (mbuf_at (shm_mbufs shm) 0) = [7, 8, 9] \<and>
    md_txtime (shm_metadata shm ! 0) = 5000000100 \<and> md_ip_dst (shm_metadata shm ! 0) = 0x0A000002 \<and>
    md_udp_dport (shm_metadata shm ! 0) = 4840"
proof -
  note l = demo_ktsn_lookup and r = demo_ktsn_rings
  have b: "ntohl 0x0200000A = 0x0A000002" "ntohs 0xE812 = 4840"
    by (simp_all add: ntohl_def ntohs_def of_be32_def be32_def of_be16_def be16_def)
  obtain shm where "sendmsg demo_libc 0 0 3 (demo_msg [7, 8, 9]) 0 demo_ktsn =
      Inr (demo_ktsn\<lparr>g_shm := shm\<rparr>, Some (int (length [7, 8, 9 :: u8])))"
    "rb_items (shm_free shm) = [1]" "rb_items (shm_tx shm) = rb_items (shm_tx (g_shm demo_ktsn)) @ [0]"
    "take (length [7, 8, 9 :: u8]) (mbuf_at (shm_mbufs shm) (unat (0 :: u64))) = [7, 8, 9]"
    "shm_metadata shm = (shm_metadata (g_shm demo_ktsn))[unat (0 :: u64) :=
      \<lparr>md_transport = KT_METADATA_TRANSPORT_UDP, md_txtime = 5000000100,
       md_eth_src = if_mac (hd (g_interface_list demo_ktsn)),
       md_eth_dst = kt_default_dst_mac, md_ip_src = ntohl (sa_word (if_addr (hd (g_interface_list demo_ktsn)))),
       md_ip_dst = ntohl (sa_word \<lparr>sa_half = 0xE812, sa_word = 0x0200000A\<rparr>),
       md_udp_dport = ntohs (sa_half \<lparr>sa_half = 0xE812, sa_word = 0x0200000A\<rparr>),
       md_size = of_nat (length [7, 8, 9 :: u8])\<rparr>]"
    using sendmsg_delivers [OF l(1) _ _ l(5) l(3) l(2) r(1,2,3,5) l(4),
        where iov = "[7, 8, 9]" and libc = demo_libc and sp = 0 and junk = 0 and flags = 0] l(6,7) by auto
  then show ?thesis using l(6) r(4) b by (intro exI [of _ shm]) (simp add: numeral_3_eq_3)
qed

text \<open>The entry of a listed socket with the option, if the message has a transmission time.\<close>

definition timed_node :: "'o ktsn \<Rightarrow> int \<Rightarrow> msghdr \<Rightarrow> kt_socket option" where
  "timed_node st sockfd msg =
     (case kt_socket_find (g_socket_list st) sockfd of
        None \<Rightarrow> None
      | Some node \<Rightarrow> if so_txtime node = 0 \<or> find_txtime (msg_control msg) = None then None else Some node)"

text \<open>The interface a message is sent through, for the two domains the library knows.\<close>

definition msg_interface :: "kt_interface list \<Rightarrow> int \<Rightarrow> msghdr \<Rightarrow> kt_interface option" where
  "msg_interface is domain msg =
     (if domain = AF_INET then kt_interface_get_by_net is (msg_name msg)
      else case msg_name msg of None \<Rightarrow> None | Some a \<Rightarrow> kt_interface_find is (sint (sa_word a)))"

lemma sendmsg_no_buffer:
  assumes "timed_node st sockfd msg = Some node" "so_domain node = Some d" "d = AF_INET \<or> d = PF_PACKET"
    and "msg_interface (g_interface_list st) d msg \<noteq> None"
    and "rb_wf (shm_free (g_shm st))" "rb_items (shm_free (g_shm st)) = []"
  shows "sendmsg libc sp junk sockfd msg flags st = Inr (st, Some (- ENOBUFS))"
proof -
  note h = hand_over_no_buffer [OF assms(5,6)]
  show ?thesis
    using assms(1-4)
    by (auto simp: sendmsg_def sendmsg_inet_def sendmsg_packet_def timed_node_def msg_interface_def h Let_def
        kt_interface_get_by_net_def PF_PACKET_def AF_INET_def split: option.splits if_splits)
qed

text \<open>
  C30. What \<open>sendmsg\<close> does with a message it does not schedule. An unlisted descriptor, a socket without
  the option and a message without a transmission time go to libc, with libc's result and the
  library's state and the segment untouched. With a transmission time it depends on the socket's
  domain: if the entry was made by \<open>setsockopt\<close>, the domain it reads was never written; for a domain other
  than IPv4 and packet sockets nothing is sent at all, neither by the library nor by libc, and the
  function ends without a value; a packet message without address is dereferenced as \<open>NULL\<close>; an IPv4 or
  packet message that no known interface reaches goes to libc; and one that has an interface while no
  buffer is free is refused with \<open>-ENOBUFS\<close> and changes nothing.
\<close>

theorem sendmsg_other_branches:
  assumes "default_sendmsg libc (g_os st) sockfd msg flags = (r, os)"
  shows "(timed_node st sockfd msg = None \<longrightarrow>
      sendmsg libc sp junk sockfd msg flags st = Inr (st\<lparr>g_os := os\<rparr>, Some r)) \<and>
    (\<forall>node. timed_node st sockfd msg = Some node \<longrightarrow>
      (so_domain node = None \<longrightarrow> sendmsg libc sp junk sockfd msg flags st = Inl Indeterminate) \<and>
      (\<forall>d. so_domain node = Some d \<longrightarrow>
        (d \<noteq> AF_INET \<and> d \<noteq> PF_PACKET \<longrightarrow> sendmsg libc sp junk sockfd msg flags st = Inr (st, None)) \<and>
        (d = PF_PACKET \<and> msg_name msg = None \<longrightarrow> sendmsg libc sp junk sockfd msg flags st = Inl NullDeref) \<and>
        ((d = AF_INET \<or> d = PF_PACKET \<and> msg_name msg \<noteq> None) \<and> msg_interface (g_interface_list st) d msg = None \<longrightarrow>
          sendmsg libc sp junk sockfd msg flags st = Inr (st\<lparr>g_os := os\<rparr>, Some r)) \<and>
        ((d = AF_INET \<or> d = PF_PACKET) \<and> msg_interface (g_interface_list st) d msg \<noteq> None \<and>
          rb_wf (shm_free (g_shm st)) \<and> rb_items (shm_free (g_shm st)) = [] \<longrightarrow>
          sendmsg libc sp junk sockfd msg flags st = Inr (st, Some (- ENOBUFS)))))"
proof (intro conjI allI impI; (elim conjE)?)
  fix node d
  assume "timed_node st sockfd msg = Some node" "so_domain node = Some d"
  moreover assume "d = AF_INET \<or> d = PF_PACKET" "msg_interface (g_interface_list st) d msg \<noteq> None"
    "rb_wf (shm_free (g_shm st))" "rb_items (shm_free (g_shm st)) = []"
  ultimately show "sendmsg libc sp junk sockfd msg flags st = Inr (st, Some (- ENOBUFS))"
    by (rule sendmsg_no_buffer)
qed (use assms in \<open>auto simp: sendmsg_def sendmsg_inet_def sendmsg_packet_def timed_node_def msg_interface_def Let_def
      PF_PACKET_def AF_INET_def split: option.splits if_splits\<close>)

text \<open>The library with one socket of a given domain and no free buffer.\<close>

definition demo_domain :: "int \<Rightarrow> int ktsn" where
  "demo_domain d = demo_ktsn\<lparr>g_shm := demo_shm,
     g_socket_list := [\<lparr>so_fd = 3, so_prio = - 1, so_txtime = 1, so_domain = Some d\<rparr>]\<rparr>"

definition demo_packet_msg :: msghdr where
  "demo_packet_msg = (demo_msg [7])\<lparr>msg_name := Some \<lparr>sa_half = 0, sa_word = 2\<rparr>\<rparr>"

lemma demo_domain_facts:
  "timed_node (demo_domain d) 3 (demo_msg p) = Some \<lparr>so_fd = 3, so_prio = - 1, so_txtime = 1, so_domain = Some d\<rparr>"
  "timed_node (demo_domain d) 3 demo_packet_msg = Some \<lparr>so_fd = 3, so_prio = - 1, so_txtime = 1, so_domain = Some d\<rparr>"
  "msg_interface (g_interface_list (demo_domain d)) AF_INET (demo_msg p) \<noteq> None"
  "msg_interface (g_interface_list (demo_domain d)) PF_PACKET demo_packet_msg \<noteq> None"
  "rb_wf (shm_free (g_shm (demo_domain d)))" "rb_items (shm_free (g_shm (demo_domain d))) = []"
  using fresh_ring [of 4 "replicate 8 0" "''RB_free''" 1]
  by (simp_all add: demo_domain_def demo_packet_msg_def demo_msg_def demo_ktsn_def demo_shm_def timed_node_def
      msg_interface_def kt_interface_get_by_net_def is_same_subnetwork_def PF_PACKET_def AF_INET_def)

text \<open>
  An unlisted descriptor, a socket of domain 10 (\<open>AF_INET6\<close>), IPv4 and packet sockets without a free
  buffer, a packet message for an unknown interface.
\<close>

theorem sendmsg_other_branches_witness:
  "sendmsg demo_libc 0 0 9 (demo_msg [7]) 0 demo_ktsn = Inr (demo_ktsn, Some (- 1)) \<and>
   sendmsg demo_libc 0 0 3 (demo_msg [7]) 0 (demo_domain 10) = Inr (demo_domain 10, None) \<and>
   sendmsg demo_libc 0 0 3 (demo_msg [7]) 0 (demo_domain AF_INET) = Inr (demo_domain AF_INET, Some (- ENOBUFS)) \<and>
   sendmsg demo_libc 0 0 3 demo_packet_msg 0 (demo_domain PF_PACKET) = Inr (demo_domain PF_PACKET, Some (- ENOBUFS)) \<and>
   sendmsg demo_libc 0 0 3 (demo_msg [7]) 0 (demo_domain PF_PACKET) = Inr (demo_domain PF_PACKET, Some (- 1))"
proof (intro conjI)
  have l: "default_sendmsg demo_libc (g_os st) fd m fl = (- 1, g_os st)" for st fd m fl by (simp add: demo_libc_def)
  note p = sendmsg_other_branches [OF l, where sp = 0 and junk = 0] and f = demo_domain_facts
  have "timed_node demo_ktsn 9 (demo_msg [7]) = None" by (simp add: timed_node_def demo_ktsn_def)
  then show "sendmsg demo_libc 0 0 9 (demo_msg [7]) 0 demo_ktsn = Inr (demo_ktsn, Some (- 1))"
    using p [of demo_ktsn 9 "demo_msg [7]" 0] by simp
  show "sendmsg demo_libc 0 0 3 (demo_msg [7]) 0 (demo_domain 10) = Inr (demo_domain 10, None)"
    using p [of "demo_domain 10" 3 "demo_msg [7]" 0] f(1) [of 10 "[7]"] by (simp add: AF_INET_def PF_PACKET_def)
  show "sendmsg demo_libc 0 0 3 (demo_msg [7]) 0 (demo_domain AF_INET) = Inr (demo_domain AF_INET, Some (- ENOBUFS))"
    using p [of "demo_domain AF_INET" 3 "demo_msg [7]" 0] f(1,3,5,6) [of AF_INET] f(1,3) [of AF_INET "[7]"] by simp
  show "sendmsg demo_libc 0 0 3 demo_packet_msg 0 (demo_domain PF_PACKET) = Inr (demo_domain PF_PACKET, Some (- ENOBUFS))"
    using p [of "demo_domain PF_PACKET" 3 demo_packet_msg 0] f(2,4,5,6) [of PF_PACKET] by simp
  have "msg_interface (g_interface_list (demo_domain PF_PACKET)) PF_PACKET (demo_msg [7]) = None"
    "msg_name (demo_msg [7]) \<noteq> None"
    by (simp_all add: msg_interface_def demo_domain_def demo_ktsn_def demo_msg_def PF_PACKET_def AF_INET_def)
  then show "sendmsg demo_libc 0 0 3 (demo_msg [7]) 0 (demo_domain PF_PACKET) = Inr (demo_domain PF_PACKET, Some (- 1))"
    using p [of "demo_domain PF_PACKET" 3 "demo_msg [7]" 0] f(1) [of PF_PACKET "[7]"] by simp
qed

text \<open>
  C37. The length of the message is not compared with the 2048 bytes of a buffer: with a longer
  payload \<open>sendmsg\<close> still reports success, and the buffer after the one it took, which belongs to
  another packet, begins with the payload's bytes from 2048 on.
\<close>

theorem sendmsg_overruns_buffer:
  assumes "kt_socket_find (g_socket_list st) sockfd = Some node" "so_txtime node \<noteq> 0"
    and "so_domain node = Some AF_INET" "find_txtime (msg_control msg) = Some txtime"
    and "msg_name msg = Some addr" "interface_of_net (g_interface_list st) addr = Some iface"
    and "rb_wf (shm_free (g_shm st))" "rb_items (shm_free (g_shm st)) = idx # rest"
    and "rb_wf (shm_tx (g_shm st))" "rb_len (shm_tx (g_shm st)) < unat (rb_capacity (shm_tx (g_shm st)))"
    and "msg_iov msg = iov # iovs" "2048 < length iov"
    and "unat idx < length (shm_metadata (g_shm st))"
      "unat idx * 2048 + length iov \<le> length (shm_mbufs (g_shm st))"
  shows "\<exists>shm. sendmsg libc sp junk sockfd msg flags st = Inr (st\<lparr>g_shm := shm\<rparr>, Some (int (length iov))) \<and>
    mbuf_at (shm_mbufs shm) (unat idx + 1) ! 0 = iov ! 2048"
proof -
  have "mbuf_at (blit (length iov) (shm_mbufs (g_shm st)) (unat idx * 2048) iov 0) (unat idx + 1) ! 0 = iov ! 2048"
    using assms(12,14) by (simp add: mbuf_at_def sizeof_kt_mbuf_def nth_blit)
  then show ?thesis
    unfolding sendmsg_inet_path [OF assms(1-6)]
    using hand_over_ok [OF assms(7-10,11) assms(14,13), of sp junk "\<lambda>sz md. md\<lparr>md_txtime := txtime,
        md_size := sz, md_eth_src := if_mac iface, md_eth_dst := kt_default_dst_mac,
        md_ip_dst := ntohl (sa_word addr), md_ip_src := ntohl (sa_word (if_addr iface)),
        md_udp_dport := ntohs (sa_half addr), md_transport := KT_METADATA_TRANSPORT_UDP\<rparr>"]
    by (elim exE conjE) (rule exI, rule conjI, simp, simp)
qed

theorem sendmsg_overruns_buffer_witness:
  "\<exists>shm. sendmsg demo_libc 0 0 3 (demo_msg (replicate 2049 0xAB)) 0 demo_ktsn =
      Inr (demo_ktsn\<lparr>g_shm := shm\<rparr>, Some 2049) \<and> mbuf_at (shm_mbufs shm) 1 ! 0 = 0xAB"
proof -
  note l = demo_ktsn_lookup and r = demo_ktsn_rings
  have "(replicate 2049 (0xAB :: u8)) ! 2048 = 0xAB" by simp
  then show ?thesis
    using sendmsg_overruns_buffer [OF l(1) _ _ l(5) l(3) l(2) r(1,2,3,5) l(4),
        where iov = "replicate 2049 0xAB" and libc = demo_libc and sp = 0 and junk = 0 and flags = 0] l(6,7)
    by simp
qed

end
