(* ===== verification/KT_System.thy ===== *)
theory KT_System
  imports KT_Daemon KT_Preload
begin

section \<open>Applications and daemon over the shared segment\<close>

text \<open>
  Any number of application processes, each with its own library state, and the daemon share one
  segment. A step is one call of \<open>sendmsg\<close> by one application or one iteration of the daemon, in
  any order. Reachability counts the packets dropped as late and the polls whose burst crosses the end
  of the transmit ring (the ring then returns what lies behind the array, see \<open>KT_Daemon_Faults\<close>).

  Shown here: as long as no poll has crossed, a buffer index is never in two places, so two packets
  never share a buffer, and each index is lost exactly when its packet was late; when all are lost
  every later message is refused; a message accepted from an application leaves the machine with its own payload.
\<close>

subsection \<open>State and steps\<close>

record ('o, 'd) system =
  apps :: "'o ktsn list"
  daemon :: "'d ktsnd"

text \<open>The application's view: its own state with the segment mapped.\<close>

definition app_view :: "('o, 'd) system \<Rightarrow> nat \<Rightarrow> 'o ktsn" where
  "app_view s i = (apps s ! i)\<lparr>g_shm := d_shm (daemon s)\<rparr>"

definition app_store :: "('o, 'd) system \<Rightarrow> nat \<Rightarrow> 'o ktsn \<Rightarrow> ('o, 'd) system" where
  "app_store s i a = s\<lparr>apps := (apps s)[i := a], daemon := (daemon s)\<lparr>d_shm := g_shm a\<rparr>\<rparr>"

definition no_crossing :: "kt_ringbuf \<Rightarrow> bool" where
  "no_crossing rb \<longleftrightarrow> rb_slot rb (tail (cons rb)) + min 8 (rb_len rb) \<le> unat (rb_size rb)"

text \<open>Reachability, counting the packets that were dropped as late and the polls that crossed.\<close>

inductive sys_reach ::
  "'o libc \<Rightarrow> 'd dpdk \<Rightarrow> ('o, 'd) system \<Rightarrow> nat \<Rightarrow> nat \<Rightarrow> ('o, 'd) system \<Rightarrow> bool"
  for libc ops s0 where
  sys_start: "sys_reach libc ops s0 0 0 s0"
| sys_send: "sys_reach libc ops s0 k c s \<Longrightarrow> i < length (apps s) \<Longrightarrow>
    sendmsg libc sp junk fd msg flags (app_view s i) = Inr (a, r) \<Longrightarrow>
    sys_reach libc ops s0 k c (app_store s i a)"
| sys_poll: "sys_reach libc ops s0 k c s \<Longrightarrow> length table = 64 \<Longrightarrow>
    ktsnd_iter ops sp table clock (daemon s) = Inr (d, act) \<Longrightarrow>
    sys_reach libc ops s0 (if act = Lost then k + 1 else k)
      (if no_crossing (shm_tx (d_shm (daemon s))) then c else c + 1) (s\<lparr>daemon := d\<rparr>)"

subsection \<open>Invariant\<close>

text \<open>All indices that are somewhere: in the transmit ring, in the free ring, in the queue.\<close>

definition ring_indices :: "kt_shm \<Rightarrow> u64 multiset" where
  "ring_indices shm = mset (rb_items (shm_tx shm)) + mset (rb_items (shm_free shm))"

definition queue_indices :: "kt_prio_queue \<Rightarrow> u64 multiset" where
  "queue_indices q = image_mset data (pq_mset q)"

definition sys_indices :: "'d ktsnd \<Rightarrow> u64 multiset" where
  "sys_indices d = ring_indices (d_shm d) + queue_indices (d_queue d)"

definition all_indices :: "u64 multiset" where
  "all_indices = mset (map of_nat [0..<127])"

definition shm_ok :: "kt_shm \<Rightarrow> bool" where
  "shm_ok shm \<longleftrightarrow> rb_wf (shm_tx shm) \<and> rb_wf (shm_free shm) \<and> rb_capacity (shm_tx shm) = 127 \<and>
     rb_capacity (shm_free shm) = 127 \<and> 127 \<le> length (shm_metadata shm)"

definition daemon_inv :: "'d ktsnd \<Rightarrow> bool" where
  "daemon_inv d \<longleftrightarrow> shm_ok (d_shm d) \<and> pq_wf (d_queue d) \<and> pq_cap (d_queue d) = 127 \<and>
     sys_indices d \<subseteq># all_indices"

lemma all_indices_size: "size all_indices = 127"
  by (simp add: all_indices_def)

lemma all_indices_unique: "count all_indices x \<le> 1"
proof -
  have inv: "unat (of_nat m :: u64) = m" if "m < 127" for m
    by (rule unat_of_nat_u64 [OF refl]) (use that in simp)
  have "m = n" if "of_nat m = (of_nat n :: u64)" "m < 127" "n < 127" for m n
    using that(1) inv [OF that(2)] inv [OF that(3)] by metis
  then have "distinct (map (of_nat :: nat \<Rightarrow> u64) [0..<127])"
    by (auto simp: distinct_map inj_on_def)
  then show ?thesis unfolding all_indices_def distinct_count_atmost_1 by simp
qed

lemma all_indices_bound:
  assumes "x \<in># all_indices"
  shows "unat x < 127"
proof -
  obtain n where "n < 127" "x = of_nat n" using assms by (auto simp: all_indices_def)
  then have "unat x = n" by (intro unat_of_nat_u64) simp_all
  then show ?thesis using \<open>n < 127\<close> by simp
qed

lemma daemon_inv_size: "daemon_inv d \<Longrightarrow> size (sys_indices d) \<le> 127"
  using size_mset_mono [of "sys_indices d" all_indices] by (simp add: daemon_inv_def all_indices_size)

subsection \<open>A call of \<open>sendmsg\<close>\<close>

lemma hand_over_rings:
  assumes ok: "shm_ok (g_shm st)" and sz: "size (ring_indices (g_shm st)) \<le> 127"
    and call: "hand_over sp junk msg fill st = Inr (st', r)"
  shows "shm_ok (g_shm st') \<and> ring_indices (g_shm st') = ring_indices (g_shm st)"
proof (cases "rb_items (shm_free (g_shm st))")
  case Nil
  then show ?thesis using hand_over_no_buffer [of st sp junk msg fill] ok call by (simp add: shm_ok_def)
next
  case (Cons idx rest)
  obtain fr av where fr: "kt_ringbuf_dequeue_burst sp (shm_free (g_shm st)) [junk] 8 1 = Inr (fr, [idx], 1, av)"
      "rb_wf fr" "rb_items fr = rest" "rb_capacity fr = rb_capacity (shm_free (g_shm st))"
    using dequeue_one [OF _ Cons, of sp junk] ok by (auto simp: shm_ok_def)
  have "rb_len (shm_tx (g_shm st)) < unat (rb_capacity (shm_tx (g_shm st)))"
    using sz Cons ok by (simp add: ring_indices_def shm_ok_def)
  then obtain tx fs where tx: "kt_ringbuf_enqueue_burst sp (shm_tx (g_shm st)) [idx] 8 1 = Inr (tx, 1, fs)"
      "rb_wf tx" "rb_items tx = rb_items (shm_tx (g_shm st)) @ [idx]"
      "rb_capacity tx = rb_capacity (shm_tx (g_shm st))"
    using enqueue_one [of "shm_tx (g_shm st)" sp idx] ok by (auto simp: shm_ok_def)
  show ?thesis
    using call fr tx Cons ok
    by (auto simp: hand_over_def Let_def rbind_eq_Inr shm_ok_def ring_indices_def arr_set_eq_Inr)
qed

lemma sendmsg_rings:
  assumes "shm_ok (g_shm st)" "size (ring_indices (g_shm st)) \<le> 127"
    and "sendmsg libc sp junk fd msg flags st = Inr (st', r)"
  shows "shm_ok (g_shm st') \<and> ring_indices (g_shm st') = ring_indices (g_shm st)"
proof -
  consider os x where "st' = st\<lparr>g_os := os\<rparr>" | "st' = st"
    | fill x where "hand_over sp junk msg fill st = Inr (st', x)"
    using assms(3) unfolding sendmsg_def sendmsg_inet_def sendmsg_packet_def Let_def
    by (auto simp: rbind_eq_Inr split: option.splits if_splits prod.splits)
  then show ?thesis
    using hand_over_rings [OF assms(1,2)] assms(1) by cases auto
qed

subsection \<open>An iteration of the daemon\<close>

lemma intake_step:
  assumes wf: "rb_wf rb" and nc: "no_crossing rb" and tbl: "length table = 64"
  shows "\<exists>rb' table' av m. kt_ringbuf_dequeue_burst sp rb table 8 8 = Inr (rb', table', of_nat m, av) \<and>
    m = min 8 (rb_len rb) \<and> rb_wf rb' \<and> rb_capacity rb' = rb_capacity rb \<and>
    rb_items rb = take m table' @ rb_items rb' \<and> length (take m table') = m"
proof -
  let ?m = "min 8 (rb_len rb)"
  have m: "?m = min (unat (8 :: u32)) (rb_len rb)" by simp
  have geo: "rb_geo rb" using wf by (simp add: rb_wf_def)
  have inside: "rb_slot rb (tail (cons rb)) + ?m \<le> unat (rb_size rb)" using nc by (simp add: no_crossing_def)
  then have fit: "rb_slot rb (tail (cons rb)) + ?m \<le> length (ring rb)" using geo by (simp add: rb_geo_def)
  have le: "?m \<le> rb_len rb" by simp
  note g = rb_items_get [OF wf le]
  have "take ?m (blit ?m table 0 (ring rb) (rb_slot rb (tail (cons rb)))) = take ?m (rb_items rb)"
    using rb_items_read [OF wf le inside] fit tbl by (subst blit_from_0) auto
  then show ?thesis
    using dequeue_burst_eq [OF wf m _ fit, of table sp] g tbl
    by (intro exI [of _ "rb\<lparr>cons := \<lparr>head = tail (cons rb) + of_nat ?m, tail = tail (cons rb) + of_nat ?m\<rparr>\<rparr>"]
        exI [of _ "blit ?m table 0 (ring rb) (rb_slot rb (tail (cons rb)))"]
        exI [of _ "of_nat (rb_len rb - ?m)"] exI [of _ ?m]) simp
qed

text \<open>The queue entry of a packet.\<close>

definition packet_node :: "kt_metadata list \<Rightarrow> u64 \<Rightarrow> kt_pq_node" where
  "packet_node pool x = \<lparr>prio = i64_of_u64 (md_txtime (pool ! unat x)), data = x\<rparr>"

lemma insert_all:
  assumes "pq_wf q" "pq_size q + length xs \<le> pq_cap q" "\<forall>x \<in> set xs. unat x < length pool"
  shows "\<exists>q'. rfold (insert_packet pool) q xs = Inr q' \<and> pq_wf q' \<and> pq_cap q' = pq_cap q \<and>
    pq_mset q' = pq_mset q + image_mset (packet_node pool) (mset xs) \<and> (pq_heap q \<longrightarrow> pq_heap q')"
  using assms
proof (induction xs arbitrary: q)
  case (Cons x xs)
  let ?p = "i64_of_u64 (md_txtime (pool ! unat x))"
  obtain q1 where q1: "kt_prio_queue_insert q ?p x = Inr (q1, 0)" "pq_wf q1" "pq_size q1 = pq_size q + 1"
      "pq_cap q1 = pq_cap q" "pq_mset q1 = add_mset \<lparr>prio = ?p, data = x\<rparr> (pq_mset q)" "pq_heap q \<longrightarrow> pq_heap q1"
    using insert_correct [of q ?p x] Cons.prems by auto
  then have "insert_packet pool q x = Inr q1" using Cons.prems by (simp add: insert_packet_def)
  then show ?case using Cons.IH [of q1] q1 Cons.prems by (auto simp: packet_node_def)
qed simp

lemma queue_indices_nodes:
  "pq_mset q' = pq_mset q + image_mset (packet_node pool) (mset xs) \<Longrightarrow>
   queue_indices q' = queue_indices q + mset xs"
  by (simp add: queue_indices_def packet_node_def multiset.map_comp o_def)

lemma size_queue_indices: "pq_wf q \<Longrightarrow> size (queue_indices q) = pq_size q"
  by (simp add: queue_indices_def pq_mset_def)

text \<open>One poll moves a prefix of the transmit ring into the queue.\<close>

lemma intake_result:
  assumes ok: "shm_ok (d_shm d)" "pq_wf (d_queue d)" "pq_cap (d_queue d) = 127"
    and sub: "mset (rb_items (shm_tx (d_shm d))) + queue_indices (d_queue d) \<subseteq># all_indices"
    and tbl: "length table = 64" and nc: "no_crossing (shm_tx (d_shm d))"
  shows "\<exists>rb q xs. ktsnd_intake sp table d = Inr (d\<lparr>d_shm := (d_shm d)\<lparr>shm_tx := rb\<rparr>, d_queue := q\<rparr>) \<and>
    shm_ok ((d_shm d)\<lparr>shm_tx := rb\<rparr>) \<and> rb_items (shm_tx (d_shm d)) = xs @ rb_items rb \<and> pq_wf q \<and> pq_cap q = 127 \<and>
    pq_mset q = pq_mset (d_queue d) + image_mset (packet_node (shm_metadata (d_shm d))) (mset xs) \<and>
    length xs = min 8 (rb_len (shm_tx (d_shm d))) \<and> (pq_heap (d_queue d) \<longrightarrow> pq_heap q)"
proof -
  obtain rb table' av m where r: "kt_ringbuf_dequeue_burst sp (shm_tx (d_shm d)) table 8 8 =
        Inr (rb, table', of_nat m, av)" "m = min 8 (rb_len (shm_tx (d_shm d)))" "rb_wf rb" "rb_capacity rb = rb_capacity (shm_tx (d_shm d))"
      "rb_items (shm_tx (d_shm d)) = take m table' @ rb_items rb" "length (take m table') = m"
    using intake_step [OF _ nc tbl, of sp] ok(1) by (auto simp: shm_ok_def)
  have um: "unat (of_nat m :: u32) = m" using r(2) by (intro unat_of_nat_u32) simp_all
  have "size (mset (rb_items (shm_tx (d_shm d))) + queue_indices (d_queue d)) \<le> 127"
    using size_mset_mono [OF sub] by (simp add: all_indices_size)
  then have room: "pq_size (d_queue d) + length (take m table') \<le> pq_cap (d_queue d)"
    using ok(2,3) size_queue_indices [OF ok(2)] unfolding r(5) by simp
  have "x \<in># all_indices" if "x \<in> set (take m table')" for x
    using that by (intro mset_subset_eqD [OF sub]) (simp add: r(5))
  then have "\<forall>x \<in> set (take m table'). unat x < length (shm_metadata (d_shm d))"
    using all_indices_bound ok(1) by (fastforce simp: shm_ok_def)
  then obtain q where q: "rfold (insert_packet (shm_metadata (d_shm d))) (d_queue d) (take m table') = Inr q"
      "pq_wf q" "pq_cap q = 127"
      "pq_mset q = pq_mset (d_queue d) + image_mset (packet_node (shm_metadata (d_shm d))) (mset (take m table'))"
      "pq_heap (d_queue d) \<longrightarrow> pq_heap q"
    using insert_all [OF ok(2) room] ok(3) by auto
  then show ?thesis
    using r um ok(1)
    by (intro exI [of _ rb] exI [of _ q] exI [of _ "take m table'"])
      (simp add: ktsnd_intake_def Let_def shm_ok_def)
qed

lemma intake_inv:
  assumes inv: "daemon_inv d" and tbl: "length table = 64" and nc: "no_crossing (shm_tx (d_shm d))"
  shows "\<exists>d'. ktsnd_intake sp table d = Inr d' \<and> daemon_inv d' \<and> sys_indices d' = sys_indices d"
proof -
  have ok: "shm_ok (d_shm d)" "pq_wf (d_queue d)" "pq_cap (d_queue d) = 127" "sys_indices d \<subseteq># all_indices"
    using inv by (auto simp: daemon_inv_def)
  have "mset (rb_items (shm_tx (d_shm d))) + queue_indices (d_queue d) \<subseteq># all_indices"
    using ok(4) by (rule subset_mset.order_trans [rotated]) (simp add: sys_indices_def ring_indices_def)
  from intake_result [OF ok(1-3) this tbl nc, of sp] obtain rb q xs where
    r: "ktsnd_intake sp table d = Inr (d\<lparr>d_shm := (d_shm d)\<lparr>shm_tx := rb\<rparr>, d_queue := q\<rparr>)"
      "shm_ok ((d_shm d)\<lparr>shm_tx := rb\<rparr>)" "rb_items (shm_tx (d_shm d)) = xs @ rb_items rb" "pq_wf q" "pq_cap q = 127"
      "pq_mset q = pq_mset (d_queue d) + image_mset (packet_node (shm_metadata (d_shm d))) (mset xs)"
    by auto
  let ?d = "d\<lparr>d_shm := (d_shm d)\<lparr>shm_tx := rb\<rparr>, d_queue := q\<rparr>"
  have "sys_indices ?d = sys_indices d"
    using r(3) queue_indices_nodes [OF r(6)] by (simp add: sys_indices_def ring_indices_def)
  then show ?thesis using r ok(4) by (simp add: daemon_inv_def)
qed

lemma send_inv:
  assumes "daemon_inv d" "add_mset idx (sys_indices d) \<subseteq># all_indices" "ktsnd_send ops sp idx d = Inr d'"
  shows "daemon_inv d' \<and> sys_indices d' = add_mset idx (sys_indices d)"
proof -
  have ok: "shm_ok (d_shm d)" using assms(1) by (simp add: daemon_inv_def)
  have "size (add_mset idx (sys_indices d)) \<le> 127"
    using size_mset_mono [OF assms(2)] by (simp add: all_indices_size)
  then have "rb_len (shm_free (d_shm d)) < unat (rb_capacity (shm_free (d_shm d)))"
    using ok by (simp add: sys_indices_def ring_indices_def shm_ok_def)
  then obtain rb fs where rb: "kt_ringbuf_enqueue_burst sp (shm_free (d_shm d)) [idx] 8 1 = Inr (rb, 1, fs)"
      "rb_wf rb" "rb_items rb = rb_items (shm_free (d_shm d)) @ [idx]"
      "rb_capacity rb = rb_capacity (shm_free (d_shm d))"
    using enqueue_one [of "shm_free (d_shm d)" sp idx] ok by (auto simp: shm_ok_def)
  obtain dev c where "d' = d\<lparr>d_shm := (d_shm d)\<lparr>shm_free := rb\<rparr>, d_dev := dev, d_counter := c\<rparr>"
    using assms(3) rb(1)
    by (auto simp: ktsnd_send_def Let_def rbind_eq_Inr case_prod_unfold split: option.splits)
  then show ?thesis
    using assms(1,2) rb(2-4) by (auto simp: daemon_inv_def shm_ok_def sys_indices_def ring_indices_def)
qed

lemma extract_indices:
  assumes "pq_wf q" "kt_prio_queue_extract_min q want = Inr (q', r, d)" "pq_size q \<noteq> 0"
  shows "pq_wf q' \<and> pq_cap q' = pq_cap q \<and> queue_indices q = add_mset (data (elems q ! 0)) (queue_indices q') \<and>
    d = (if want then Some (data (elems q ! 0)) else None)"
  using extract_correct [OF assms(1), of want] assms(2,3) by (auto simp: queue_indices_def)

lemma tx_cases:
  assumes step: "ktsnd_tx ops sp clock d = Inr (d', act)"
  obtains "d' = d" "act \<noteq> Lost"
    | q r x where "pq_size (d_queue d) \<noteq> 0" "kt_prio_queue_extract_min (d_queue d) False = Inr (q, r, x)"
        "d' = d\<lparr>d_queue := q\<rparr>" "act = Lost"
    | q r idx where "pq_size (d_queue d) \<noteq> 0" "kt_prio_queue_extract_min (d_queue d) True = Inr (q, r, Some idx)"
        "ktsnd_send ops sp idx (d\<lparr>d_queue := q\<rparr>) = Inr d'" "act = Sent idx"
proof (cases "pq_size (d_queue d) = 0")
  case True
  then show ?thesis using step that(1) by (auto simp: ktsnd_tx_def kt_prio_queue_is_empty_def)
next
  case False
  let ?lost = "rbind (kt_prio_queue_extract_min (d_queue d) False) (\<lambda>(q, r, x). Inr (d\<lparr>d_queue := q\<rparr>, Lost))"
    and ?sent = "rbind (kt_prio_queue_extract_min (d_queue d) True) (\<lambda>(q, r, x).
      case x of None \<Rightarrow> Inl Indeterminate
      | Some mbuf_index \<Rightarrow> rbind (ktsnd_send ops sp mbuf_index (d\<lparr>d_queue := q\<rparr>)) (\<lambda>st'.
          Inr (st', Sent mbuf_index)))"
  have "ktsnd_tx ops sp clock d \<in> {Inr (d, Wait), ?lost, ?sent} \<or> (\<exists>e. ktsnd_tx ops sp clock d = Inl e)"
    using False unfolding ktsnd_tx_def kt_prio_queue_is_empty_def
    by (cases "kt_get_realtime_ns (fst clock) (snd clock)"; cases "kt_prio_queue_getmin (d_queue d)")
      (auto simp: kt_get_time_diff_ns_def i64_checked_def)
  then consider "ktsnd_tx ops sp clock d = Inr (d, Wait)" | "?lost = Inr (d', act)" | "?sent = Inr (d', act)"
    using step by auto
  then show ?thesis
  proof cases
    case 1
    then show ?thesis using step that(1) by simp
  next
    case 2
    then show ?thesis using False that(2) by (auto simp: rbind_eq_Inr)
  next
    case 3
    then show ?thesis using False that(3) by (auto simp: rbind_eq_Inr split: option.splits)
  qed
qed

lemma tx_inv:
  assumes inv: "daemon_inv d" and step: "ktsnd_tx ops sp clock d = Inr (d', act)"
  shows "daemon_inv d' \<and> (if act = Lost then \<exists>x. sys_indices d = add_mset x (sys_indices d')
    else sys_indices d' = sys_indices d)"
proof -
  have wf: "pq_wf (d_queue d)" using inv by (simp add: daemon_inv_def)
  from step show ?thesis
  proof (cases rule: tx_cases)
    case 1
    then show ?thesis using inv by simp
  next
    case (2 q r x)
    note e = extract_indices [OF wf 2(2,1)]
    have "sys_indices d = add_mset (data (elems (d_queue d) ! 0)) (sys_indices d')"
      using e 2(3) by (simp add: sys_indices_def)
    moreover from this have "sys_indices d' \<subseteq># all_indices"
      using inv mset_subset_eq_insertD [of _ "sys_indices d'"] by (auto simp: daemon_inv_def subset_mset_def)
    ultimately show ?thesis using e 2(3,4) inv by (auto simp: daemon_inv_def)
  next
    case (3 q r idx)
    note e = extract_indices [OF wf 3(2,1)]
    let ?d = "d\<lparr>d_queue := q\<rparr>"
    have tot: "sys_indices d = add_mset idx (sys_indices ?d)" using e by (simp add: sys_indices_def)
    have sub: "add_mset idx (sys_indices ?d) \<subseteq># all_indices" using inv tot by (simp add: daemon_inv_def)
    then have "sys_indices ?d \<subseteq># all_indices"
      using mset_subset_eq_insertD [OF sub] by (simp add: subset_mset_def)
    then have "daemon_inv ?d" using e inv by (simp add: daemon_inv_def)
    from send_inv [OF this sub 3(3)] show ?thesis using tot 3(4) by simp
  qed
qed

subsection \<open>Reachable states\<close>

lemma subset_add_mset_self: "M \<subseteq># add_mset x M"
  by simp

lemma iter_inv:
  assumes "daemon_inv d" "length table = 64" "no_crossing (shm_tx (d_shm d))"
    and "ktsnd_iter ops sp table clock d = Inr (d', act)"
  shows "daemon_inv d' \<and> (if act = Lost then \<exists>x. sys_indices d = add_mset x (sys_indices d')
    else sys_indices d' = sys_indices d)"
proof -
  obtain d1 where "ktsnd_intake sp table d = Inr d1" "daemon_inv d1" "sys_indices d1 = sys_indices d"
    using intake_inv [OF assms(1-3), of sp] by blast
  then show ?thesis using tx_inv [of d1 ops sp clock d' act] assms(4) by (auto simp: ktsnd_iter_def)
qed

lemma send_step_inv:
  assumes inv: "daemon_inv (daemon s)" and call: "sendmsg libc sp junk fd msg flags (app_view s i) = Inr (a, r)"
  shows "daemon_inv (daemon (app_store s i a)) \<and>
    sys_indices (daemon (app_store s i a)) = sys_indices (daemon s)"
proof -
  have "size (ring_indices (d_shm (daemon s))) \<le> 127"
    using daemon_inv_size [OF inv] by (simp add: sys_indices_def)
  then have "shm_ok (g_shm a) \<and> ring_indices (g_shm a) = ring_indices (d_shm (daemon s))"
    using sendmsg_rings [of "app_view s i"] call inv by (simp add: app_view_def daemon_inv_def)
  then show ?thesis using inv by (auto simp: app_store_def daemon_inv_def sys_indices_def)
qed

lemma reach_inv:
  assumes "sys_reach libc ops s0 k c s" "daemon_inv (daemon s0)" "c = 0"
  shows "daemon_inv (daemon s) \<and> sys_indices (daemon s) \<subseteq># sys_indices (daemon s0) \<and>
    size (sys_indices (daemon s)) + k = size (sys_indices (daemon s0))"
  using assms
proof (induction rule: sys_reach.induct)
  case (sys_send k c s i sp junk fd msg flags a r)
  then show ?case using send_step_inv [of s libc sp junk fd msg flags i a r] by simp
next
  case (sys_poll k c s table sp clock d act)
  then have nc: "no_crossing (shm_tx (d_shm (daemon s)))" "c = 0" by (auto split: if_splits)
  have "daemon_inv d \<and> (if act = Lost then \<exists>x. sys_indices (daemon s) = add_mset x (sys_indices d)
      else sys_indices d = sys_indices (daemon s))"
    using iter_inv [of "daemon s" table ops sp clock d act] sys_poll nc by blast
  then show ?case
    using sys_poll.IH [OF sys_poll.prems(1) nc(2)]
    by (auto split: if_splits intro: subset_mset.order_trans [OF subset_add_mset_self])
qed simp

lemma no_crossing_empty: "rb_wf rb \<Longrightarrow> rb_items rb = [] \<Longrightarrow> no_crossing rb"
  using rb_slot_less [of rb "tail (cons rb)"] length_rb_items [of rb] by (simp add: no_crossing_def rb_wf_def)

text \<open>With no index left no poll can cross.\<close>

lemma exhausted_reach:
  assumes "sys_reach libc ops s0 k c s" "daemon_inv (daemon s0)" "sys_indices (daemon s0) = {#}"
  shows "daemon_inv (daemon s) \<and> sys_indices (daemon s) = {#}"
  using assms
proof (induction rule: sys_reach.induct)
  case (sys_send k c s i sp junk fd msg flags a r)
  then show ?case using send_step_inv [of s libc sp junk fd msg flags i a r] by simp
next
  case (sys_poll k c s table sp clock d act)
  then have IH: "daemon_inv (daemon s)" "sys_indices (daemon s) = {#}" by blast+
  then have "no_crossing (shm_tx (d_shm (daemon s)))"
    by (intro no_crossing_empty) (auto simp: daemon_inv_def shm_ok_def sys_indices_def ring_indices_def)
  from iter_inv [OF IH(1) sys_poll(2) this sys_poll(3)] show ?case using IH(2) by (auto split: if_splits)
qed simp

text \<open>The state after start-up: the layout of the daemon's initialisation, empty queue.\<close>

definition booted :: "('o, 'd) system \<Rightarrow> bool" where
  "booted s \<longleftrightarrow> (\<exists>dat sp block l. unat dat mod 4096 = 0 \<and> unat dat + 2 ^ 21 \<le> 2 ^ 64 \<and> length block = 127 \<and>
     ktsnd_init dat 4096 sp block = Inr (l, d_shm (daemon s), d_queue (daemon s)))"

lemma booted_inv:
  assumes "booted s"
  shows "daemon_inv (daemon s) \<and> sys_indices (daemon s) = all_indices"
proof -
  obtain dat sp block l where b: "unat dat mod 4096 = 0" "unat dat + 2 ^ 21 \<le> 2 ^ 64" "length block = 127"
      "ktsnd_init dat 4096 sp block = Inr (l, d_shm (daemon s), d_queue (daemon s))"
    using assms unfolding booted_def by (elim exE conjE) (rule that)
  from ktsnd_init_ok [OF b(1,2), of sp block] b(4)
  have i: "d_queue (daemon s) = kt_prio_queue_init 127 block" "rb_items (shm_tx (d_shm (daemon s))) = []"
      "rb_items (shm_free (d_shm (daemon s))) = map of_nat [0..<127]" "shm_ok (d_shm (daemon s))"
    by (auto simp: shm_ok_def)
  then have "sys_indices (daemon s) = all_indices"
    by (simp add: sys_indices_def ring_indices_def queue_indices_def all_indices_def)
  then show ?thesis
    using i init_wf [OF b(3)] by (simp add: daemon_inv_def) (simp add: kt_prio_queue_init_def)
qed

text \<open>A system of one application and the daemon, with the buffers \<open>0\<close> to \<open>n - 1\<close> left, for the examples.\<close>

definition demo_daemon :: "nat \<Rightarrow> rte_mbuf list ktsnd" where
  "demo_daemon n = \<lparr>
     d_shm = \<lparr>shm_tx = ringbuf_header ''RB_tx'' 128 1 (replicate 496 0),
       shm_free = (ringbuf_header ''RB_free'' 128 1 (map of_nat [0..<496]))\<lparr>prod := \<lparr>head = of_nat n, tail = of_nat n\<rparr>\<rparr>,
       shm_mbufs = replicate 4096 0, shm_metadata = replicate 127 zero_metadata\<rparr>,
     d_queue = kt_prio_queue_init 127 (replicate 127 \<lparr>prio = 0, data = 0\<rparr>), d_counter = 0, d_dev = []\<rparr>"

definition demo_system :: "nat \<Rightarrow> (int, rte_mbuf list) system" where
  "demo_system n = \<lparr>apps = [demo_ktsn], daemon = demo_daemon n\<rparr>"

lemma demo_daemon_rings:
  assumes "n < 2"
  shows "rb_wf (shm_tx (d_shm (demo_daemon n)))" "rb_items (shm_tx (d_shm (demo_daemon n))) = []"
    "rb_wf (shm_free (d_shm (demo_daemon n)))"
    "rb_items (shm_free (d_shm (demo_daemon n))) = map of_nat [0..<n]"
proof -
  show "rb_wf (shm_tx (d_shm (demo_daemon n)))" "rb_items (shm_tx (d_shm (demo_daemon n))) = []"
    using fresh_ring [of 128 "replicate 496 0" "''RB_tx''" 1] by (simp_all add: demo_daemon_def)
  consider "n = 0" | "n = 1" using assms by linarith
  then show "rb_wf (shm_free (d_shm (demo_daemon n)))"
      "rb_items (shm_free (d_shm (demo_daemon n))) = map of_nat [0..<n]"
    by (cases; simp add: demo_daemon_def rb_wf_def rb_geo_def rb_len_def rb_items_def rb_slot_def ringbuf_header_def)+
qed

lemma demo_daemon_inv:
  assumes "n < 2"
  shows "daemon_inv (demo_daemon n)" "sys_indices (demo_daemon n) = mset (map of_nat [0..<n])"
proof -
  show ind: "sys_indices (demo_daemon n) = mset (map of_nat [0..<n])"
    using demo_daemon_rings [OF assms] by (simp add: sys_indices_def ring_indices_def)
      (simp add: demo_daemon_def queue_indices_def)
  have "[0..<127] = [0..<n] @ [n..<127]" using upt_add_eq_append [of 0 n "127 - n"] assms by simp
  then have "sys_indices (demo_daemon n) \<subseteq># all_indices" unfolding ind all_indices_def by simp
  then show "daemon_inv (demo_daemon n)"
    using demo_daemon_rings [OF assms] init_wf [of "replicate 127 \<lparr>prio = 0, data = 0\<rparr>" 127]
    by (simp add: daemon_inv_def shm_ok_def)
      (simp add: demo_daemon_def ringbuf_header_def kt_prio_queue_init_def)
qed

lemma intake_single:
  assumes "rb_wf (shm_tx (d_shm d))" "rb_items (shm_tx (d_shm d)) = [idx]"
    and "pq_wf (d_queue d)" "pq_size (d_queue d) = 0" "0 < pq_cap (d_queue d)"
    and "unat idx < length (shm_metadata (d_shm d))" "length table = 64"
  shows "\<exists>rb q. ktsnd_intake sp table d = Inr (d\<lparr>d_shm := (d_shm d)\<lparr>shm_tx := rb\<rparr>, d_queue := q\<rparr>) \<and> pq_wf q \<and>
    pq_size q = 1 \<and> elems q ! 0 = \<lparr>prio = i64_of_u64 (md_txtime (shm_metadata (d_shm d) ! unat idx)), data = idx\<rparr>"
proof -
  let ?rb = "shm_tx (d_shm d)" and ?p = "i64_of_u64 (md_txtime (shm_metadata (d_shm d) ! unat idx))"
  have len: "rb_len ?rb = 1" using assms(2) length_rb_items [of ?rb] by simp
  have geo: "rb_geo ?rb" using assms(1) by (simp add: rb_wf_def)
  have nc: "no_crossing ?rb"
    using rb_slot_less [OF geo, of "tail (cons ?rb)"] len by (simp add: no_crossing_def)
  obtain rb table' av where r: "kt_ringbuf_dequeue_burst sp ?rb table 8 8 = Inr (rb, table', 1, av)"
      and tk: "[idx] = take 1 table' @ rb_items rb" "length (take 1 table') = 1"
    using intake_step [OF assms(1) nc assms(7), of sp] len unfolding assms(2) by auto
  then have r2: "take 1 table' = [idx]" by (metis append_Nil2 append_eq_append_conv length_Cons list.size(3) One_nat_def)
  obtain q where q: "kt_prio_queue_insert (d_queue d) ?p idx = Inr (q, 0)" "pq_wf q" "pq_size q = 1"
      "pq_mset q = {#\<lparr>prio = ?p, data = idx\<rparr>#}"
    using insert_correct [OF assms(3), of ?p idx] assms(4,5) by (auto simp: pq_mset_def pq_nodes_def)
  have "elems q ! 0 = \<lparr>prio = ?p, data = idx\<rparr>" using root_in_mset [OF q(2)] q(3,4) by simp
  then show ?thesis
    using r r2 q assms(6) by (auto simp: ktsnd_intake_def insert_packet_def Let_def)
qed

text \<open>One packet of the transmit ring, when its time has passed and when it has not come.\<close>

lemma single_late_or_early:
  assumes tx: "rb_wf (shm_tx (d_shm d))" "rb_items (shm_tx (d_shm d)) = [idx]"
    and q: "pq_wf (d_queue d)" "pq_size (d_queue d) = 0" "0 < pq_cap (d_queue d)"
    and md: "unat idx < length (shm_metadata (d_shm d))" "md_txtime (shm_metadata (d_shm d) ! unat idx) = t"
      "unat t < 2 ^ 63" and tbl: "length table = 64" and clk: "clock_ok clock"
  shows "int (unat t) < clock_ns clock \<Longrightarrow> \<exists>d'. ktsnd_iter ops sp table clock d = Inr (d', Lost)"
    "tx_delta_ns < int (unat t) - clock_ns clock \<Longrightarrow>
      \<exists>d'. ktsnd_iter ops sp table clock d = Inr (d', Wait) \<and> pq_size (d_queue d') = 1"
proof -
  obtain rb qu where i: "ktsnd_intake sp table d = Inr (d\<lparr>d_shm := (d_shm d)\<lparr>shm_tx := rb\<rparr>, d_queue := qu\<rparr>)"
      "pq_wf qu" "pq_size qu = 1" "elems qu ! 0 = \<lparr>prio = i64_of_u64 t, data = idx\<rparr>"
    using intake_single [OF tx q md(1) tbl, of sp] md(2) by auto
  let ?d1 = "d\<lparr>d_shm := (d_shm d)\<lparr>shm_tx := rb\<rparr>, d_queue := qu\<rparr>"
  have t: "i64_of_u64 t = int (unat t)" using md(3) by (rule i64_of_small)
  have "is_i64 (int (unat t))" using is_i64_i64_of_u64 [of t] unfolding t .
  note tx1 = tx_nonempty [of ?d1 clock "int (unat t)" ops sp]
  have e: "ktsnd_tx ops sp clock ?d1 = Inr (?d1, Wait)" if "tx_delta_ns < int (unat t) - clock_ns clock"
    using tx1 that i t clk \<open>is_i64 (int (unat t))\<close> by (simp add: tx_delta_ns_def)
  obtain q' where "kt_prio_queue_extract_min qu False = Inr (q', 0, None)"
    using extract_correct [OF i(2), of False] i(3) by auto
  then have l: "\<exists>d'. ktsnd_tx ops sp clock ?d1 = Inr (d', Lost)" if "int (unat t) < clock_ns clock"
    using tx1 that i t clk \<open>is_i64 (int (unat t))\<close> by (simp add: tx_delta_ns_def)
  show "int (unat t) < clock_ns clock \<Longrightarrow> \<exists>d'. ktsnd_iter ops sp table clock d = Inr (d', Lost)"
    using l i(1) by (simp add: ktsnd_iter_def)
  show "tx_delta_ns < int (unat t) - clock_ns clock \<Longrightarrow>
      \<exists>d'. ktsnd_iter ops sp table clock d = Inr (d', Wait) \<and> pq_size (d_queue d') = 1"
    using e i by (simp add: ktsnd_iter_def)
qed

lemma no_crossing_one: "rb_wf rb \<Longrightarrow> rb_len rb \<le> 1 \<Longrightarrow> no_crossing rb"
  using rb_slot_less [of rb "tail (cons rb)"] by (simp add: no_crossing_def rb_wf_def)

text \<open>A run from start-up: a message is sent, then polled too early, or polled too late.\<close>

lemma demo_sent:
  "\<exists>(s0 :: (int, rte_mbuf list) system) s. booted s0 \<and> sys_reach demo_libc demo_dpdk s0 0 0 s \<and>
     rb_wf (shm_tx (d_shm (daemon s))) \<and> rb_items (shm_tx (d_shm (daemon s))) = [0] \<and>
     pq_wf (d_queue (daemon s)) \<and> pq_size (d_queue (daemon s)) = 0 \<and> pq_cap (d_queue (daemon s)) = 127 \<and>
     0 < length (shm_metadata (d_shm (daemon s))) \<and> md_txtime (shm_metadata (d_shm (daemon s)) ! 0) = 5000000100"
proof -
  let ?block = "replicate 127 \<lparr>prio = 0, data = 0\<rparr>"
  obtain l shm where i: "ktsnd_init 0x7F0000000000 4096 0 ?block = Inr (l, shm, kt_prio_queue_init 127 ?block)"
      "rb_wf (shm_tx shm)" "rb_items (shm_tx shm) = []" "rb_wf (shm_free shm)"
      "rb_items (shm_free shm) = map of_nat [0..<127]" "127 * sizeof_kt_mbuf \<le> length (shm_mbufs shm)"
      "127 \<le> length (shm_metadata shm)" "rb_capacity (shm_tx shm) = 127"
    using ktsnd_init_ok [of "0x7F0000000000" 0 ?block] by auto
  let ?s0 = "\<lparr>apps = [demo_ktsn], daemon = \<lparr>d_shm = shm, d_queue = kt_prio_queue_init 127 ?block, d_counter = 0,
    d_dev = []\<rparr>\<rparr> :: (int, rte_mbuf list) system" and ?v = "demo_ktsn\<lparr>g_shm := shm\<rparr>"
  have b: "booted ?s0" unfolding booted_def
    by (intro exI [of _ "0x7F0000000000"] exI [of _ 0] exI [of _ ?block] exI [of _ l]) (simp add: i(1))
  have fr: "rb_items (shm_free shm) = 0 # map of_nat [1..<127]" unfolding i(5) by (simp add: upt_conv_Cons)
  note l = demo_ktsn_lookup
  have len: "rb_len (shm_tx (g_shm ?v)) < unat (rb_capacity (shm_tx (g_shm ?v)))"
    using i(3,8) length_rb_items [of "shm_tx shm"] by simp
  have room: "unat (0 :: u64) < length (shm_metadata (g_shm ?v))"
      "unat (0 :: u64) * 2048 + 2048 \<le> length (shm_mbufs (g_shm ?v))"
    using i(6,7) by (auto simp: sizeof_kt_mbuf_def)
  have p: "kt_socket_find (g_socket_list ?v) 3 = Some \<lparr>so_fd = 3, so_prio = - 1, so_txtime = 1, so_domain = Some AF_INET\<rparr>"
      "interface_of_net (g_interface_list ?v) \<lparr>sa_half = 0xE812, sa_word = 0x0200000A\<rparr> = Some (hd (g_interface_list demo_ktsn))"
      "rb_wf (shm_free (g_shm ?v))" "rb_items (shm_free (g_shm ?v)) = 0 # map of_nat [1..<127]" "rb_wf (shm_tx (g_shm ?v))"
      "length [7 :: u8, 8, 9] \<le> 2048"
    using l(1,2) i(2,4) fr by simp_all
  note call = sendmsg_inet_ok [OF p(1) _ _ l(5) l(3) p(2-5) len l(4) p(6) room]
  have "\<exists>shm'. sendmsg demo_libc 0 0 3 (demo_msg [7, 8, 9]) 0 ?v = Inr (?v\<lparr>g_shm := shm'\<rparr>, Some (int (length [7 :: u8, 8, 9]))) \<and>
      rb_wf (shm_tx shm') \<and> rb_items (shm_tx shm') = rb_items (shm_tx (g_shm ?v)) @ [0] \<and>
      length (shm_metadata shm') = length (shm_metadata shm) \<and> md_txtime (shm_metadata shm' ! 0) = 5000000100"
    by (rule exE [OF call [of demo_libc 0 0 0]]) (use room(1) in \<open>auto intro!: exI\<close>)
  then obtain shm' where s0: "sendmsg demo_libc 0 0 3 (demo_msg [7, 8, 9]) 0 ?v =
        Inr (?v\<lparr>g_shm := shm'\<rparr>, Some (int (length [7 :: u8, 8, 9])))"
      "rb_wf (shm_tx shm')" "rb_items (shm_tx shm') = rb_items (shm_tx (g_shm ?v)) @ [0]"
      "length (shm_metadata shm') = length (shm_metadata shm)" "md_txtime (shm_metadata shm' ! 0) = 5000000100"
    by blast
  have s: "rb_items (shm_tx shm') = [0]" "0 < length (shm_metadata shm')" using s0 i(3) room(1) by simp_all
  have "app_view ?s0 0 = ?v" by (simp add: app_view_def)
  then have "sys_reach demo_libc demo_dpdk ?s0 0 0 (app_store ?s0 0 (?v\<lparr>g_shm := shm'\<rparr>))"
    using sys_send [OF sys_start, of 0 ?s0 demo_libc 0 0 3 "demo_msg [7, 8, 9]" 0] s0(1) by simp
  then show ?thesis
    using b s s0 init_wf [of ?block 127]
    by (intro exI [of _ ?s0] exI [of _ "app_store ?s0 0 (?v\<lparr>g_shm := shm'\<rparr>)"])
       (auto simp: app_store_def kt_prio_queue_init_def)
qed

lemma demo_reach:
  "\<exists>(s0 :: (int, rte_mbuf list) system) s s'. booted s0 \<and> sys_reach demo_libc demo_dpdk s0 0 0 s \<and>
     pq_size (d_queue (daemon s)) = 1 \<and> sys_reach demo_libc demo_dpdk s0 1 0 s'"
proof -
  obtain s0 s :: "(int, rte_mbuf list) system" where s: "booted s0" "sys_reach demo_libc demo_dpdk s0 0 0 s"
     "rb_wf (shm_tx (d_shm (daemon s)))" "rb_items (shm_tx (d_shm (daemon s))) = [0]"
     "pq_wf (d_queue (daemon s))" "pq_size (d_queue (daemon s)) = 0" "pq_cap (d_queue (daemon s)) = 127"
     "0 < length (shm_metadata (d_shm (daemon s)))" "md_txtime (shm_metadata (d_shm (daemon s)) ! 0) = 5000000100"
    using demo_sent by blast
  have nc: "no_crossing (shm_tx (d_shm (daemon s)))"
    using no_crossing_one [OF s(3)] length_rb_items [of "shm_tx (d_shm (daemon s))"] s(4) by simp
  have c: "clock_ok (4, 0)" "clock_ok (6, 0)" "clock_ns (4, 0) = 4000000000" "clock_ns (6, 0) = 6000000000"
    by (simp_all add: clock_ok_def clock_ns_def NSEC_PER_SEC_def is_i64_def INT64_MIN_def INT64_MAX_def)
  have t: "unat (5000000100 :: u64) = 5000000100" by simp
  note p = single_late_or_early [OF s(3-6), of 5000000100 "replicate 64 0"]
  obtain d where d: "ktsnd_iter demo_dpdk 0 (replicate 64 0) (4, 0) (daemon s) = Inr (d, Wait)" "pq_size (d_queue d) = 1"
    using p(2) [of "(4, 0)" demo_dpdk 0] s(7-9) c t by (auto simp: tx_delta_ns_def)
  obtain d' where d': "ktsnd_iter demo_dpdk 0 (replicate 64 0) (6, 0) (daemon s) = Inr (d', Lost)"
    using p(1) [of "(6, 0)" demo_dpdk 0] s(7-9) c t by auto
  have "sys_reach demo_libc demo_dpdk s0 0 0 (s\<lparr>daemon := d\<rparr>)" using sys_poll [OF s(2) _ d(1)] nc by simp
  moreover have "sys_reach demo_libc demo_dpdk s0 1 0 (s\<lparr>daemon := d'\<rparr>)" using sys_poll [OF s(2) _ d'] nc by simp
  ultimately show ?thesis using s(1) d(2)
    by (intro exI [of _ s0] exI [of _ "s\<lparr>daemon := d\<rparr>"] exI [of _ "s\<lparr>daemon := d'\<rparr>"]) simp
qed

subsection \<open>Properties\<close>

text \<open>
  C5. After start-up, whatever the applications send and the daemon polls, in any order and as long as
  no poll's burst has crossed the end of the transmit ring: no buffer index is ever in two places at
  once (rings and queue together hold each at most once) and every index is in range, so two pending
  packets never share a buffer and no access leaves the pools.
\<close>

theorem buffers_never_shared:
  assumes "booted s0" "sys_reach libc ops s0 k 0 s"
  shows "count (sys_indices (daemon s)) x \<le> 1 \<and> (x \<in># sys_indices (daemon s) \<longrightarrow> unat x < 127) \<and>
    rb_wf (shm_tx (d_shm (daemon s))) \<and> rb_wf (shm_free (d_shm (daemon s))) \<and> pq_wf (d_queue (daemon s))"
proof -
  have inv: "daemon_inv (daemon s)" using reach_inv [OF assms(2)] booted_inv [OF assms(1)] by blast
  then have sub: "sys_indices (daemon s) \<subseteq># all_indices" by (simp add: daemon_inv_def)
  have "count (sys_indices (daemon s)) x \<le> count all_indices x" using sub by (simp add: subseteq_mset_def)
  then have "count (sys_indices (daemon s)) x \<le> 1" using all_indices_unique [of x] by linarith
  then show ?thesis
    using inv all_indices_bound mset_subset_eqD [OF sub] by (auto simp: daemon_inv_def shm_ok_def)
qed

theorem buffers_never_shared_witness:
  "\<exists>(s0 :: (int, rte_mbuf list) system) s. booted s0 \<and> sys_reach demo_libc demo_dpdk s0 0 0 s \<and>
     pq_size (d_queue (daemon s)) = 1 \<and> count (sys_indices (daemon s)) 0 \<le> 1 \<and> pq_wf (d_queue (daemon s))"
proof -
  obtain s0 s :: "(int, rte_mbuf list) system" where s: "booted s0" "sys_reach demo_libc demo_dpdk s0 0 0 s"
      "pq_size (d_queue (daemon s)) = 1"
    using demo_reach by blast
  from buffers_never_shared [OF s(1,2), of 0] show ?thesis using s by blast
qed

text \<open>
  C22. Buffers are conserved up to late packets: after start-up, as long as no poll's burst has crossed
  the end of the transmit ring, the number of indices in the rings and the queue plus the number of
  packets dropped as late is 127. Without a late packet every index is in exactly one place; each late
  packet takes one buffer away for good.
\<close>

theorem buffers_lost_per_late_packet:
  assumes "booted s0" "sys_reach libc ops s0 k 0 s"
  shows "size (sys_indices (daemon s)) + k = 127 \<and> (k = 0 \<longrightarrow> sys_indices (daemon s) = all_indices)"
proof -
  have r: "sys_indices (daemon s) \<subseteq># all_indices" "size (sys_indices (daemon s)) + k = 127"
    using reach_inv [OF assms(2)] booted_inv [OF assms(1)] by (auto simp: all_indices_size)
  moreover have "sys_indices (daemon s) = all_indices" if "k = 0"
    using r that all_indices_size by (metis Nat.add_0_right mset_subset_size nat_neq_iff subset_mset.le_imp_less_or_eq)
  ultimately show ?thesis by blast
qed

theorem buffers_lost_per_late_packet_witness:
  "\<exists>(s0 :: (int, rte_mbuf list) system) s. booted s0 \<and> sys_reach demo_libc demo_dpdk s0 1 0 s \<and>
     size (sys_indices (daemon s)) = 126"
proof -
  obtain s0 s :: "(int, rte_mbuf list) system" where s: "booted s0" "sys_reach demo_libc demo_dpdk s0 1 0 s"
    using demo_reach by blast
  from buffers_lost_per_late_packet [OF s] show ?thesis using s by auto
qed

text \<open>
  C23. Once every buffer has been lost, it stays so: in every state reached from there, each message
  to be scheduled on an IPv4 socket is refused with \<open>-ENOBUFS\<close>, and nothing changes.
\<close>

theorem exhausted_refuses_for_ever:
  assumes "daemon_inv (daemon s0)" "sys_indices (daemon s0) = {#}" "sys_reach libc ops s0 k c s"
    and "kt_socket_find (g_socket_list (apps s ! i)) fd = Some node" "so_txtime node \<noteq> 0"
    and "so_domain node = Some AF_INET" "find_txtime (msg_control msg) = Some txtime"
    and "msg_name msg = Some addr" "interface_of_net (g_interface_list (apps s ! i)) addr = Some iface"
  shows "sendmsg libc sp junk fd msg flags (app_view s i) = Inr (app_view s i, Some (- ENOBUFS))"
proof -
  have "daemon_inv (daemon s)" "sys_indices (daemon s) = {#}"
    using exhausted_reach [OF assms(3,1,2)] by blast+
  then have "rb_wf (shm_free (g_shm (app_view s i)))" "rb_items (shm_free (g_shm (app_view s i))) = []"
    by (auto simp: daemon_inv_def shm_ok_def sys_indices_def ring_indices_def app_view_def)
  moreover have "kt_socket_find (g_socket_list (app_view s i)) fd = Some node"
      "interface_of_net (g_interface_list (app_view s i)) addr = Some iface"
    using assms(4,9) by (simp_all add: app_view_def)
  ultimately show ?thesis
    using sendmsg_inet_path [of "app_view s i" fd node msg txtime addr iface] assms(5-8)
      hand_over_no_buffer [of "app_view s i"] by simp
qed

theorem exhausted_refuses_for_ever_witness:
  "sendmsg demo_libc 0 0 3 (demo_msg [7, 8, 9]) 0 (app_view (demo_system 0) 0) =
     Inr (app_view (demo_system 0) 0, Some (- ENOBUFS))"
proof (rule exhausted_refuses_for_ever [OF _ _ sys_start [of demo_libc demo_dpdk "demo_system 0"]])
  show "daemon_inv (daemon (demo_system 0))" "sys_indices (daemon (demo_system 0)) = {#}"
    using demo_daemon_inv [of 0] by (simp_all add: demo_system_def)
  show "kt_socket_find (g_socket_list (apps (demo_system 0) ! 0)) 3 =
      Some \<lparr>so_fd = 3, so_prio = - 1, so_txtime = 1, so_domain = Some AF_INET\<rparr>"
    "interface_of_net (g_interface_list (apps (demo_system 0) ! 0)) \<lparr>sa_half = 0xE812, sa_word = 0x0200000A\<rparr> =
      Some (hd (g_interface_list demo_ktsn))"
    using demo_ktsn_lookup(1,2) by (simp_all add: demo_system_def)
qed (use demo_ktsn_lookup(3,5) in simp_all)

subsection \<open>From the application to the wire\<close>

text \<open>The daemon's part: one packet in the transmit ring, its time within the window.\<close>

lemma poll_single:
  assumes tx: "rb_wf (shm_tx (d_shm d))" "rb_items (shm_tx (d_shm d)) = [idx]"
    and q: "pq_wf (d_queue d)" "pq_size (d_queue d) = 0" "0 < pq_cap (d_queue d)"
    and fr: "rb_wf (shm_free (d_shm d))" "rb_len (shm_free (d_shm d)) < unat (rb_capacity (shm_free (d_shm d)))"
    and md: "unat idx < length (shm_metadata (d_shm d))" "md = shm_metadata (d_shm d) ! unat idx"
      "md_transport md = KT_METADATA_TRANSPORT_UDP" "length (md_eth_src md) = 6" "length (md_eth_dst md) = 6"
      "unat (md_size md) \<le> 2006" "unat idx * 2048 + unat (md_size md) \<le> length (shm_mbufs (d_shm d))"
    and time: "clock_ok clock" "unat (md_txtime md) < 2 ^ 63" "0 \<le> int (unat (md_txtime md)) - clock_ns clock"
      "int (unat (md_txtime md)) - clock_ns clock \<le> tx_delta_ns"
    and dev: "rte_pktmbuf_alloc ops (d_dev d) = (Some room, dev)" "length room = 2048"
      "is_i64 (d_counter d + 1)" "length table = 64"
  shows "\<exists>d' mb. ktsnd_iter ops sp table clock d = Inr (d', Sent idx) \<and>
    d_dev d' = snd (rte_eth_tx_burst ops dev mb) \<and>
    parse_udp (mbuf_frame mb) = Some \<lparr>v_eth_dst = md_eth_dst md, v_eth_src = md_eth_src md,
      v_ip_src = md_ip_src md, v_ip_dst = md_ip_dst md, v_sport = 9999, v_dport = md_udp_dport md,
      v_payload = take (unat (md_size md)) (drop (unat idx * 2048) (shm_mbufs (d_shm d)))\<rparr> \<and>
    rb_items (shm_free (d_shm d')) = rb_items (shm_free (d_shm d)) @ [idx]"
proof -
  obtain rb qu where i: "ktsnd_intake sp table d = Inr (d\<lparr>d_shm := (d_shm d)\<lparr>shm_tx := rb\<rparr>, d_queue := qu\<rparr>)"
      "pq_wf qu" "pq_size qu = 1" "elems qu ! 0 = \<lparr>prio = i64_of_u64 (md_txtime md), data = idx\<rparr>"
    using intake_single [OF tx q md(1) dev(4), of sp] md(2) by auto
  let ?d1 = "d\<lparr>d_shm := (d_shm d)\<lparr>shm_tx := rb\<rparr>, d_queue := qu\<rparr>"
  have t: "i64_of_u64 (md_txtime md) = int (unat (md_txtime md))" using time(2) by (rule i64_of_small)
  have "\<exists>d' mb. ktsnd_tx ops sp clock ?d1 = Inr (d', Sent idx) \<and> d_dev d' = snd (rte_eth_tx_burst ops dev mb) \<and>
      parse_udp (mbuf_frame mb) = Some \<lparr>v_eth_dst = md_eth_dst md, v_eth_src = md_eth_src md,
        v_ip_src = md_ip_src md, v_ip_dst = md_ip_dst md, v_sport = 9999, v_dport = md_udp_dport md,
        v_payload = take (unat (md_size md)) (drop (unat idx * 2048) (shm_mbufs (d_shm ?d1)))\<rparr> \<and>
      rb_items (shm_free (d_shm d')) = rb_items (shm_free (d_shm ?d1)) @ [idx] \<and>
      pq_mset (d_queue ?d1) = add_mset (elems (d_queue ?d1) ! 0) (pq_mset (d_queue d')) \<and>
      d_counter d' = d_counter ?d1 + 1"
  proof (rule tx_udp [where t = "int (unat (md_txtime md))" and room = room])
    show "is_i64 (int (unat (md_txtime md)))" using is_i64_i64_of_u64 [of "md_txtime md"] unfolding t .
    show "int (unat (md_txtime md)) = prio_at (d_queue ?d1) 0" using i(4) t by simp
    show "md = shm_metadata (d_shm ?d1) ! unat idx" using md(2) by simp
  qed (use i time(1,3,4) dev md fr in simp_all)
  then show ?thesis using i(1) by (auto simp: ktsnd_iter_def)
qed

text \<open>
  C3. End to end, when nothing else is under way: let the transmit ring and the queue be empty and a
  buffer free, and let an application send at most 2006 bytes with a transmission time on an IPv4
  socket with that option, to a network of a known interface. The message is accepted, and the daemon's
  next iteration, if it happens within the 50 microseconds before that time and DPDK has a buffer of
  2048 bytes, transmits a UDP frame that a receiver parses to the application's payload, the destination
  address and port of the message and the address of the interface; the buffer is then free again.
\<close>

theorem end_to_end:
  assumes inv: "daemon_inv (daemon s)" "rb_items (shm_tx (d_shm (daemon s))) = []" "pq_size (d_queue (daemon s)) = 0"
    and idx: "rb_items (shm_free (d_shm (daemon s))) = idx # rest"
      "unat idx * 2048 + 2048 \<le> length (shm_mbufs (d_shm (daemon s)))"
    and sock: "kt_socket_find (g_socket_list (apps s ! i)) fd = Some node" "so_txtime node \<noteq> 0"
      "so_domain node = Some AF_INET" "find_txtime (msg_control msg) = Some txtime" "msg_name msg = Some addr"
      "interface_of_net (g_interface_list (apps s ! i)) addr = Some iface" "length (if_mac iface) = 6"
    and iov: "msg_iov msg = iov # iovs" "length iov \<le> 2006"
    and time: "clock_ok clock" "unat txtime < 2 ^ 63" "0 \<le> int (unat txtime) - clock_ns clock"
      "int (unat txtime) - clock_ns clock \<le> tx_delta_ns"
    and dev: "rte_pktmbuf_alloc ops (d_dev (daemon s)) = (Some room, dev)" "length room = 2048"
      "is_i64 (d_counter (daemon s) + 1)" "length table = 64"
  shows "\<exists>a d mb. sendmsg libc sp junk fd msg flags (app_view s i) = Inr (a, Some (int (length iov))) \<and>
    ktsnd_iter ops sp table clock (daemon (app_store s i a)) = Inr (d, Sent idx) \<and>
    d_dev d = snd (rte_eth_tx_burst ops dev mb) \<and>
    parse_udp (mbuf_frame mb) = Some \<lparr>v_eth_dst = kt_default_dst_mac, v_eth_src = if_mac iface,
      v_ip_src = ntohl (sa_word (if_addr iface)), v_ip_dst = ntohl (sa_word addr), v_sport = 9999,
      v_dport = ntohs (sa_half addr), v_payload = iov\<rparr> \<and>
    rb_items (shm_free (d_shm d)) = rest @ [idx]"
proof -
  let ?shm = "d_shm (daemon s)" and ?v = "app_view s i"
  have ok: "shm_ok ?shm" "pq_wf (d_queue (daemon s))" "pq_cap (d_queue (daemon s)) = 127"
    using inv(1) by (auto simp: daemon_inv_def)
  have "idx \<in># sys_indices (daemon s)" using idx(1) by (simp add: sys_indices_def ring_indices_def)
  then have lt: "unat idx < 127"
    using inv(1) all_indices_bound mset_subset_eqD by (fastforce simp: daemon_inv_def)
  define md where "md = \<lparr>md_transport = KT_METADATA_TRANSPORT_UDP, md_txtime = txtime,
    md_eth_src = if_mac iface, md_eth_dst = kt_default_dst_mac, md_ip_src = ntohl (sa_word (if_addr iface)),
    md_ip_dst = ntohl (sa_word addr), md_udp_dport = ntohs (sa_half addr), md_size = of_nat (length iov)\<rparr>"
  have len: "unat (md_size md) = length iov"
    using iov(2) unat_of_nat_u64 [of "md_size md" "length iov"] by (simp add: md_def)
  have "rb_len (shm_tx ?shm) = 0" using inv(2) length_rb_items [of "shm_tx ?shm"] by simp
  then obtain shm where sh: "sendmsg libc sp junk fd msg flags ?v = Inr (?v\<lparr>g_shm := shm\<rparr>, Some (int (length iov)))"
      "rb_wf (shm_free shm)" "rb_items (shm_free shm) = rest" "rb_wf (shm_tx shm)" "rb_items (shm_tx shm) = [idx]"
      "take (length iov) (mbuf_at (shm_mbufs shm) (unat idx)) = iov" "length (shm_mbufs shm) = length (shm_mbufs ?shm)"
      "shm_metadata shm = (shm_metadata ?shm)[unat idx := md]"
    using sendmsg_inet_ok [of ?v fd node msg txtime addr iface idx rest iov iovs libc sp junk flags]
      ok lt sock idx iov inv(2) by (auto simp: app_view_def shm_ok_def md_def)
  have sz: "size (sys_indices (daemon s)) \<le> 127" using daemon_inv_size [OF inv(1)] .
  then have ok': "shm_ok shm" using sendmsg_rings [OF _ _ sh(1)] ok(1) by (simp add: app_view_def sys_indices_def)
  let ?d = "(daemon s)\<lparr>d_shm := shm\<rparr>"
  have "\<exists>d mb. ktsnd_iter ops sp table clock ?d = Inr (d, Sent idx) \<and> d_dev d = snd (rte_eth_tx_burst ops dev mb) \<and>
      parse_udp (mbuf_frame mb) = Some \<lparr>v_eth_dst = md_eth_dst md, v_eth_src = md_eth_src md,
        v_ip_src = md_ip_src md, v_ip_dst = md_ip_dst md, v_sport = 9999, v_dport = md_udp_dport md,
        v_payload = take (unat (md_size md)) (drop (unat idx * 2048) (shm_mbufs (d_shm ?d)))\<rparr> \<and>
      rb_items (shm_free (d_shm d)) = rb_items (shm_free (d_shm ?d)) @ [idx]"
  proof (rule poll_single)
    show "rb_len (shm_free (d_shm ?d)) < unat (rb_capacity (shm_free (d_shm ?d)))"
      using sz ok' sh(3) idx(1) length_rb_items [of "shm_free shm"]
      by (auto simp: shm_ok_def sys_indices_def ring_indices_def)
    show "unat idx < length (shm_metadata (d_shm ?d))" "md = shm_metadata (d_shm ?d) ! unat idx"
      using sh(8) lt ok(1) by (auto simp: shm_ok_def)
  qed (use sh(2,4,5,7) ok(2,3) inv(3) len iov(2) idx(2) sock(7) time dev in
      \<open>simp_all add: md_def kt_default_dst_mac_def\<close>)
  moreover have "take (length iov) (drop (unat idx * 2048) (shm_mbufs shm)) = iov"
    using sh(6) iov(2) by (simp add: mbuf_at_def sizeof_kt_mbuf_def)
  ultimately show ?thesis
    using sh(1,3) len by (intro exI [of _ "?v\<lparr>g_shm := shm\<rparr>"]) (auto simp: app_store_def md_def)
qed

theorem end_to_end_witness:
  "\<exists>a d mb. sendmsg demo_libc 0 0 3 (demo_msg [7, 8, 9]) 0 (app_view (demo_system 1) 0) = Inr (a, Some 3) \<and>
    ktsnd_iter demo_dpdk 0 (replicate 64 0) (5, 0) (daemon (app_store (demo_system 1) 0 a)) = Inr (d, Sent 0) \<and>
    d_dev d = [mb] \<and> map_option v_payload (parse_udp (mbuf_frame mb)) = Some [7, 8, 9] \<and>
    rb_items (shm_free (d_shm d)) = [0]"
proof -
  note l = demo_ktsn_lookup and di = demo_daemon_inv [of 1] and dr = demo_daemon_rings [of 1]
  have c: "clock_ok (5, 0)" "clock_ns (5, 0) = 5000000000" "is_i64 1"
    by (simp_all add: clock_ok_def clock_ns_def NSEC_PER_SEC_def is_i64_def INT64_MIN_def INT64_MAX_def)
  have sys: "apps (demo_system 1) ! 0 = demo_ktsn" "daemon (demo_system 1) = demo_daemon 1"
    by (simp_all add: demo_system_def)
  have dd: "pq_size (d_queue (demo_daemon 1)) = 0" "d_counter (demo_daemon 1) = 0"
      "length (shm_mbufs (d_shm (demo_daemon 1))) = 4096" "d_dev (demo_daemon 1) = []"
    by (simp_all add: demo_daemon_def kt_prio_queue_init_def)
  have dp: "rte_pktmbuf_alloc demo_dpdk [] = (Some (replicate 2048 0), [])" by (simp add: demo_dpdk_def)
  have "\<exists>a d mb. sendmsg demo_libc 0 0 3 (demo_msg [7, 8, 9]) 0 (app_view (demo_system 1) 0) =
      Inr (a, Some (int (length [7, 8, 9 :: u8]))) \<and>
    ktsnd_iter demo_dpdk 0 (replicate 64 0) (5, 0) (daemon (app_store (demo_system 1) 0 a)) = Inr (d, Sent 0) \<and>
    d_dev d = snd (rte_eth_tx_burst demo_dpdk [] mb) \<and>
    parse_udp (mbuf_frame mb) = Some \<lparr>v_eth_dst = kt_default_dst_mac,
      v_eth_src = if_mac (hd (g_interface_list demo_ktsn)),
      v_ip_src = ntohl (sa_word (if_addr (hd (g_interface_list demo_ktsn)))),
      v_ip_dst = ntohl (sa_word \<lparr>sa_half = 0xE812, sa_word = 0x0200000A\<rparr>), v_sport = 9999,
      v_dport = ntohs (sa_half \<lparr>sa_half = 0xE812, sa_word = 0x0200000A\<rparr>), v_payload = [7, 8, 9]\<rparr> \<and>
    rb_items (shm_free (d_shm d)) = [] @ [0]"
  proof (rule end_to_end [where txtime = 5000000100 and room = "replicate 2048 0" and
        node = "\<lparr>so_fd = 3, so_prio = - 1, so_txtime = 1, so_domain = Some AF_INET\<rparr>"])
    show "length (if_mac (hd (g_interface_list demo_ktsn))) = 6" by (simp add: demo_ktsn_def)
  qed (use l c sys dd dp di dr in \<open>simp_all add: tx_delta_ns_def\<close>)
  then show ?thesis by (auto simp: demo_dpdk_def)
qed

end
