(* ===== verification/KT_Talker.thy ===== *)
theory KT_Talker
  imports KT_Preload
begin

unbundle bit_operations_syntax

section \<open>The latency test (\<open>src/apps/tsn_perf.c\<close>)\<close>

text \<open>
  A talker sends numbered messages at fixed instants, a listener prints the number and the arrival
  time of each. The operating system, or the preloaded library in front of it, is a parameter: a
  record of the calls on a state \<open>'o\<close>. Option parsing by \<open>getopt\<close> is the list of its answers.

  Shown here: what the checks of \<open>main\<close> let through; which message each call of \<open>sendmsg\<close> gets, at
  which instant, and that \<open>n_msgs - 1\<close> of them are accepted before the talker stops; that the talker
  stops when messages are accepted; that the listener prints the number the talker wrote.
\<close>

subsection \<open>Configuration\<close>

record app_config =
  is_talker :: int
  ac_port :: int
  ac_addr :: string
  n_msgs :: int
  msg_size :: int
  use_txtime :: int
  wakeup_delay :: int
  interval :: int
  priority :: int
  verbose :: int

definition DEFAULT_ADDR :: string where "DEFAULT_ADDR = ''192.168.100.12''"

definition default_config :: app_config where
  "default_config = \<lparr>is_talker = 1, ac_port = 9999, ac_addr = [], n_msgs = 1000, msg_size = 512,
     use_txtime = 0, wakeup_delay = 100000, interval = 1000000, priority = 0, verbose = 0\<rparr>"

text \<open>
  \<open>atoi\<close> and \<open>atol\<close>: white space, a sign, digits; the rest of the string is ignored. A value that
  does not fit the result type is undefined behaviour.
\<close>

definition digit_val :: "char \<Rightarrow> int" where "digit_val c = of_char c - 48"

definition is_digit :: "char \<Rightarrow> bool" where "is_digit c \<longleftrightarrow> 0 \<le> digit_val c \<and> digit_val c \<le> 9"

definition is_space :: "char \<Rightarrow> bool" where
  "is_space c \<longleftrightarrow> of_char c = (32 :: int) \<or> (9 :: int) \<le> of_char c \<and> of_char c \<le> (13 :: int)"

definition unsigned_prefix :: "string \<Rightarrow> int" where
  "unsigned_prefix s = foldl (\<lambda>v c. v * 10 + digit_val c) 0 (takeWhile is_digit s)"

definition decimal_prefix :: "string \<Rightarrow> int" where
  "decimal_prefix s =
     (case dropWhile is_space s of
        [] \<Rightarrow> 0
      | c # cs \<Rightarrow>
          if c = CHR ''-'' then - unsigned_prefix cs
          else if c = CHR ''+'' then unsigned_prefix cs else unsigned_prefix (c # cs))"

definition atoi :: "string \<Rightarrow> int res" where
  "atoi s = (let v = decimal_prefix s in if - (2 ^ 31) \<le> v \<and> v < 2 ^ 31 then Inr v else Inl IntRange)"

definition atol :: "string \<Rightarrow> int res" where
  "atol s = (let v = decimal_prefix s in if is_i64 v then Inr v else Inl IntRange)"

text \<open>One answer of \<open>getopt\<close>: the option character and its argument (ignored for \<open>t\<close> and \<open>v\<close>).\<close>

definition apply_opt :: "app_config \<Rightarrow> char \<times> string \<Rightarrow> app_config res" where
  "apply_opt c oa =
     (let (opt, optarg) = oa in
      if opt = CHR ''p'' then rbind (atoi optarg) (\<lambda>v. Inr (c\<lparr>ac_port := v\<rparr>))
      else if opt = CHR ''n'' then rbind (atoi optarg) (\<lambda>v. Inr (c\<lparr>n_msgs := v\<rparr>))
      else if opt = CHR ''s'' then rbind (atoi optarg) (\<lambda>v. Inr (c\<lparr>msg_size := v\<rparr>))
      else if opt = CHR ''a'' then Inr (c\<lparr>ac_addr := take 63 optarg\<rparr>)
      else if opt = CHR ''i'' then rbind (atol optarg) (\<lambda>v. Inr (c\<lparr>interval := v\<rparr>))
      else if opt = CHR ''w'' then rbind (atol optarg) (\<lambda>v. Inr (c\<lparr>wakeup_delay := v\<rparr>))
      else if opt = CHR ''t'' then Inr (c\<lparr>use_txtime := 1\<rparr>)
      else if opt = CHR ''v'' then Inr (c\<lparr>verbose := 1\<rparr>)
      else Inl Exit)"

definition parse_options :: "(char \<times> string) list \<Rightarrow> app_config res" where
  "parse_options opts = rfold apply_opt (default_config\<lparr>ac_addr := take 63 DEFAULT_ADDR\<rparr>) opts"

text \<open>The checks of \<open>main\<close>; \<open>role\<close> is \<open>APP_ROLE\<close>, compared with \<open>strcmp\<close> without a test for \<open>NULL\<close>.\<close>

definition check_config :: "string option \<Rightarrow> app_config \<Rightarrow> app_config res" where
  "check_config role c =
     (if ac_port c = 0 then Inl Exit
      else if msg_size c \<le> 0 \<or> 1450 < msg_size c then Inl Exit
      else
        let c1 = (if n_msgs c \<le> 0 then c\<lparr>n_msgs := 1\<rparr> else c) in
        case role of
          None \<Rightarrow> Inl NullDeref
        | Some r \<Rightarrow>
            if r = ''talker'' then Inr (c1\<lparr>is_talker := 1\<rparr>)
            else if r = ''listener'' then Inr (c1\<lparr>is_talker := 0\<rparr>) else Inr c1)"

subsection \<open>The operating system\<close>

record 'o app_os =
  os_socket :: "'o \<Rightarrow> int \<Rightarrow> int \<Rightarrow> int \<Rightarrow> (int \<times> 'o) res"
  os_setsockopt :: "'o \<Rightarrow> int \<Rightarrow> int \<Rightarrow> int \<Rightarrow> int option \<Rightarrow> (int \<times> 'o) res"
  os_bind :: "'o \<Rightarrow> int \<Rightarrow> sockaddr \<Rightarrow> int \<times> 'o"
  os_close :: "'o \<Rightarrow> int \<Rightarrow> int \<times> 'o"
  os_sendmsg :: "'o \<Rightarrow> int \<Rightarrow> msghdr \<Rightarrow> int \<Rightarrow> (int \<times> 'o) res"
  os_recvfrom :: "'o \<Rightarrow> int \<Rightarrow> nat \<Rightarrow> int \<times> u8 list \<times> 'o"
  os_clock :: "'o \<Rightarrow> (int \<times> int) \<times> 'o"
  os_nanosleep :: "'o \<Rightarrow> int \<times> int \<Rightarrow> 'o"
  os_malloc :: "'o \<Rightarrow> nat \<Rightarrow> bool \<times> 'o"

definition SOCK_DGRAM :: int where "SOCK_DGRAM = 2"
definition SO_TIMESTAMPING :: int where "SO_TIMESTAMPING = 37"
definition timestamping_flags :: int where "timestamping_flags = 1 + 64"
definition CLOCK_TAI :: int where "CLOCK_TAI = 11"

text \<open>\<open>htons\<close> and the address of the peer; \<open>inet_addr\<close> is a parameter.\<close>

definition app_sockaddr :: "(string \<Rightarrow> u32) \<Rightarrow> app_config \<Rightarrow> sockaddr" where
  "app_sockaddr inet_addr c = \<lparr>sa_half = ntohs (of_int (ac_port c)), sa_word = inet_addr (ac_addr c)\<rparr>"

definition init_tx_socket :: "'o app_os \<Rightarrow> int \<Rightarrow> 'o \<Rightarrow> (int \<times> 'o) res" where
  "init_tx_socket os prio s =
     rbind (os_socket os s AF_INET SOCK_DGRAM 0) (\<lambda>(sock, s1).
     if sock < 0 then Inr (- 1, s1)
     else
       rbind (os_setsockopt os s1 sock SOL_SOCKET SO_PRIORITY (Some prio)) (\<lambda>(r1, s2).
       if r1 < 0 then Inl Exit
       else
         rbind (os_setsockopt os s2 sock SOL_SOCKET SO_TIMESTAMPING (Some timestamping_flags)) (\<lambda>(r2, s3).
         if r2 < 0 then Inl Exit
         else
           rbind (os_setsockopt os s3 sock SOL_SOCKET SO_TXTIME (Some CLOCK_TAI)) (\<lambda>(r3, s4).
           Inr (sock, s4)))))"

definition init_rx_socket :: "'o app_os \<Rightarrow> (string \<Rightarrow> u32) \<Rightarrow> app_config \<Rightarrow> 'o \<Rightarrow> (int \<times> 'o) res" where
  "init_rx_socket os inet_addr c s =
     rbind (os_socket os s AF_INET SOCK_DGRAM 0) (\<lambda>(sockfd, s1).
     if sockfd < 0 then Inr (- 1, s1)
     else
       let (r, s2) = os_bind os s1 sockfd (app_sockaddr inet_addr c) in
       if r < 0 then let (r', s3) = os_close os s2 sockfd in Inr (- 1, s3)
       else Inr (sockfd, s2))"

subsection \<open>The talker\<close>

text \<open>
  \<open>tk_out\<close> are the lines printed with \<open>-v\<close>. \<open>tk_calls\<close> is not in the code: it records the calls of
  \<open>sendmsg\<close> with their answers. The instant to sleep to is recomputed from \<open>wakeup_time\<close>, as the code
  keeps \<open>sleep_ts\<close> equal to it.
\<close>

record 'o talker =
  tk_counter :: int
  tk_txtime :: int
  tk_wakeup :: int
  tk_message :: "u8 list"
  tk_out :: "(int \<times> int \<times> int \<times> int) list"
  tk_calls :: "(msghdr \<times> int) list"
  tk_os :: 'o

definition le32 :: "int \<Rightarrow> u8 list" where "le32 n = rev (be32 (of_int n))"

definition of_le32 :: "u8 list \<Rightarrow> int" where "of_le32 bs = sint (of_be32 (rev (take 4 bs)))"

definition talker_msg :: "app_config \<Rightarrow> sockaddr \<Rightarrow> u8 list \<Rightarrow> int \<Rightarrow> msghdr" where
  "talker_msg c addr message txtime =
     \<lparr>msg_name = Some addr, msg_iov = [message],
      msg_control = (if use_txtime c \<noteq> 0
        then [\<lparr>cmsg_level = SOL_SOCKET, cmsg_type = SCM_TXTIME, cmsg_data = of_int txtime\<rparr>] else [])\<rparr>"

text \<open>The body of the loop; the number is written through an \<open>int32_t *\<close>, so 4 bytes are needed.\<close>

definition talker_step :: "'o app_os \<Rightarrow> app_config \<Rightarrow> int \<Rightarrow> sockaddr \<Rightarrow> 'o talker \<Rightarrow> 'o talker res" where
  "talker_step os c sockfd addr tk =
     (let s1 = os_nanosleep os (tk_os tk) (tk_wakeup tk sdiv NSEC_PER_SEC, tk_wakeup tk smod NSEC_PER_SEC) in
      rbind (mem_write (tk_message tk) 0 (le32 (tk_counter tk)) 4) (\<lambda>message.
      let ((sec, nsec), s2) = os_clock os s1 in
      rbind (kt_get_realtime_ns sec nsec) (\<lambda>send_time.
      let msg = talker_msg c addr message (tk_txtime tk) in
      rbind (os_sendmsg os s2 sockfd msg 0) (\<lambda>(ret, s3).
      rbind (if ret < 1 then Inr (tk_counter tk, tk_out tk)
             else rbind (int_checked (tk_counter tk + 1)) (\<lambda>counter.
               Inr (counter, if verbose c \<noteq> 0
                 then tk_out tk @ [(tk_counter tk, tk_wakeup tk, tk_txtime tk, send_time)] else tk_out tk)))
        (\<lambda>(counter, out).
      rbind (i64_checked (tk_txtime tk + interval c)) (\<lambda>txtime.
      rbind (i64_checked (tk_wakeup tk + interval c)) (\<lambda>wakeup.
      Inr \<lparr>tk_counter = counter, tk_txtime = txtime, tk_wakeup = wakeup, tk_message = message,
           tk_out = out, tk_calls = tk_calls tk @ [(msg, ret)], tk_os = s3\<rparr>)))))))"

text \<open>
  The loop ends when the counter reaches the number of messages; the talker installs no signal
  handler, so \<open>g_run\<close> stays 1. While messages are refused the loop goes on: \<open>None\<close> is not returning.
\<close>

partial_function (option) talker_loop ::
  "'o app_os \<Rightarrow> app_config \<Rightarrow> int \<Rightarrow> sockaddr \<Rightarrow> 'o talker \<Rightarrow> 'o talker res option" where
  "talker_loop os c sockfd addr tk =
     (if tk_counter tk < n_msgs c
      then (case talker_step os c sockfd addr tk of
              Inl e \<Rightarrow> Some (Inl e)
            | Inr tk' \<Rightarrow> talker_loop os c sockfd addr tk')
      else Some (Inr tk))"

definition talker_start :: "'o app_os \<Rightarrow> app_config \<Rightarrow> 'o \<Rightarrow> 'o talker res" where
  "talker_start os c s =
     (let (ok, s1) = os_malloc os s (nat (msg_size c)) in
      if \<not> ok then Inl NullDeref
      else
        let ((sec, nsec), s2) = os_clock os s1 in
        rbind (kt_get_realtime_ns sec nsec) (\<lambda>now.
        let now_norm = (now sdiv NSEC_PER_SEC) * NSEC_PER_SEC in
        rbind (i64_checked (now_norm + NSEC_PER_SEC * 2)) (\<lambda>txtime.
        rbind (i64_checked (txtime - wakeup_delay c)) (\<lambda>wakeup.
        Inr \<lparr>tk_counter = 1, tk_txtime = txtime, tk_wakeup = wakeup,
             tk_message = replicate (nat (msg_size c)) 97, tk_out = [], tk_calls = [], tk_os = s2\<rparr>))))"

text \<open>\<open>Inl\<close> of the result: the socket could not be opened and the function returned at once.\<close>

definition do_talker ::
  "'o app_os \<Rightarrow> (string \<Rightarrow> u32) \<Rightarrow> app_config \<Rightarrow> 'o \<Rightarrow> ('o + 'o talker) res option" where
  "do_talker os inet_addr c s =
     (case init_tx_socket os (priority c) s of
        Inl e \<Rightarrow> Some (Inl e)
      | Inr (sockfd, s1) \<Rightarrow>
          if sockfd < 0 then Some (Inr (Inl s1))
          else case talker_start os c s1 of
            Inl e \<Rightarrow> Some (Inl e)
          | Inr tk \<Rightarrow>
              (case talker_loop os c sockfd (app_sockaddr inet_addr c) tk of
                 None \<Rightarrow> None
               | Some r \<Rightarrow> Some (rbind r (\<lambda>tk'. Inr (Inr tk')))))"

subsection \<open>The listener\<close>

record 'o listener =
  ls_msg :: "u8 list"
  ls_counter :: int
  ls_out :: "(int \<times> int) list"
  ls_os :: 'o

text \<open>
  An iteration. \<open>recvfrom\<close> answers with the length and the bytes it stores; a negative answer is a
  time-out and stores nothing. With \<open>-v\<close> the number and the time are printed and the number
  incremented.
\<close>

definition listener_step :: "'o app_os \<Rightarrow> app_config \<Rightarrow> int \<Rightarrow> 'o listener \<Rightarrow> 'o listener res" where
  "listener_step os c sockfd ls =
     (let (ret, bytes, s1) = os_recvfrom os (ls_os ls) sockfd 4096 in
      if 0 < ret then
        rbind (mem_write (ls_msg ls) 0 bytes (nat ret)) (\<lambda>msg.
        let ((sec, nsec), s2) = os_clock os s1 in
        rbind (kt_get_realtime_ns sec nsec) (\<lambda>now.
        let counter = of_le32 msg in
        if verbose c \<noteq> 0 then
          rbind (int_checked (counter + 1)) (\<lambda>next.
          Inr \<lparr>ls_msg = msg, ls_counter = next, ls_out = ls_out ls @ [(counter, now)], ls_os = s2\<rparr>)
        else Inr \<lparr>ls_msg = msg, ls_counter = counter, ls_out = ls_out ls, ls_os = s2\<rparr>))
      else Inr (ls\<lparr>ls_os := s1\<rparr>))"

text \<open>\<open>while (g_run)\<close>, ended by the signal handler after \<open>n\<close> iterations.\<close>

fun listener_loop :: "'o app_os \<Rightarrow> app_config \<Rightarrow> int \<Rightarrow> nat \<Rightarrow> 'o listener \<Rightarrow> 'o listener res" where
  "listener_loop os c sockfd 0 ls = Inr ls"
| "listener_loop os c sockfd (Suc n) ls = rbind (listener_step os c sockfd ls) (listener_loop os c sockfd n)"

text \<open>\<open>junk\<close> is the uninitialised buffer; the descriptor is used without a test for \<open>-1\<close>.\<close>

definition do_listener ::
  "'o app_os \<Rightarrow> (string \<Rightarrow> u32) \<Rightarrow> app_config \<Rightarrow> u8 list \<Rightarrow> nat \<Rightarrow> 'o \<Rightarrow> 'o listener res" where
  "do_listener os inet_addr c junk n s =
     rbind (init_rx_socket os inet_addr c s) (\<lambda>(sockfd, s1).
     listener_loop os c sockfd n \<lparr>ls_msg = junk, ls_counter = 0, ls_out = [], ls_os = s1\<rparr>)"

datatype 'o app_end = TalkerEnd "'o + 'o talker" | ListenerEnd "'o listener"

definition tsn_perf_main ::
  "'o app_os \<Rightarrow> (string \<Rightarrow> u32) \<Rightarrow> (char \<times> string) list \<Rightarrow> string option \<Rightarrow> u8 list \<Rightarrow> nat \<Rightarrow> 'o \<Rightarrow>
   'o app_end res option" where
  "tsn_perf_main os inet_addr opts role junk n s =
     (case rbind (parse_options opts) (check_config role) of
        Inl e \<Rightarrow> Some (Inl e)
      | Inr c \<Rightarrow>
          if is_talker c \<noteq> 0
          then map_option (\<lambda>r. rbind r (\<lambda>x. Inr (TalkerEnd x))) (do_talker os inet_addr c s)
          else Some (rbind (do_listener os inet_addr c junk n s) (\<lambda>x. Inr (ListenerEnd x))))"

subsection \<open>Configurations that pass the checks\<close>

text \<open>The ranges of the C types and the checks of \<open>main\<close>.\<close>

definition config_typed :: "app_config \<Rightarrow> bool" where
  "config_typed c \<longleftrightarrow> is_talker c \<in> {0, 1} \<and> use_txtime c \<in> {0, 1} \<and> verbose c \<in> {0, 1} \<and>
     - (2 ^ 31) \<le> ac_port c \<and> ac_port c < 2 ^ 31 \<and> length (ac_addr c) \<le> 63 \<and>
     - (2 ^ 31) \<le> n_msgs c \<and> n_msgs c < 2 ^ 31 \<and> - (2 ^ 31) \<le> msg_size c \<and> msg_size c < 2 ^ 31 \<and>
     is_i64 (interval c) \<and> is_i64 (wakeup_delay c) \<and> priority c = 0"

lemma atoi_range: "atoi s = Inr v \<Longrightarrow> - (2 ^ 31) \<le> v \<and> v < 2 ^ 31"
  by (auto simp: atoi_def Let_def split: if_splits)

lemma atol_range: "atol s = Inr v \<Longrightarrow> is_i64 v"
  by (auto simp: atol_def Let_def split: if_splits)

lemma if_eqE: "(if b then x else y) = z \<Longrightarrow> (x = z \<Longrightarrow> Q) \<Longrightarrow> (y = z \<Longrightarrow> Q) \<Longrightarrow> Q"
  by (cases b) auto

lemma config_typed_update:
  assumes "config_typed c"
  shows "- (2 ^ 31) \<le> v \<and> v < 2 ^ 31 \<Longrightarrow> config_typed (c\<lparr>ac_port := v\<rparr>)"
    and "- (2 ^ 31) \<le> v \<and> v < 2 ^ 31 \<Longrightarrow> config_typed (c\<lparr>n_msgs := v\<rparr>)"
    and "- (2 ^ 31) \<le> v \<and> v < 2 ^ 31 \<Longrightarrow> config_typed (c\<lparr>msg_size := v\<rparr>)"
    and "is_i64 v \<Longrightarrow> config_typed (c\<lparr>interval := v\<rparr>)" "is_i64 v \<Longrightarrow> config_typed (c\<lparr>wakeup_delay := v\<rparr>)"
    and "config_typed (c\<lparr>ac_addr := take 63 a\<rparr>)" "config_typed (c\<lparr>use_txtime := 1\<rparr>)"
    and "config_typed (c\<lparr>verbose := 1\<rparr>)" "config_typed (c\<lparr>is_talker := 0\<rparr>)" "config_typed (c\<lparr>is_talker := 1\<rparr>)"
  using assms by (simp_all add: config_typed_def)

lemma apply_opt_typed:
  assumes "config_typed c" "apply_opt c oa = Inr c'"
  shows "config_typed c'"
  using assms(2) unfolding apply_opt_def Let_def case_prod_unfold
proof (elim if_eqE)
qed (auto simp only: rbind_eq_Inr sum.inject sum.distinct
    dest!: atoi_range atol_range intro: config_typed_update [OF assms(1)])

lemma options_typed: "rfold apply_opt c opts = Inr c' \<Longrightarrow> config_typed c \<Longrightarrow> config_typed c'"
  by (induction opts arbitrary: c) (auto simp: rbind_eq_Inr dest: apply_opt_typed)

lemma check_config_eq:
  "check_config role c = Inr c' \<longleftrightarrow> ac_port c \<noteq> 0 \<and> 0 < msg_size c \<and> msg_size c \<le> 1450 \<and>
    (\<exists>r. role = Some r \<and> c' = (if n_msgs c \<le> 0 then c\<lparr>n_msgs := 1\<rparr> else c)
      \<lparr>is_talker := (if r = ''talker'' then 1 else if r = ''listener'' then 0 else is_talker c)\<rparr>)"
  by (cases role) (auto simp: check_config_def Let_def)

lemma start_config_typed: "config_typed (default_config\<lparr>ac_addr := take 63 DEFAULT_ADDR\<rparr>)"
  by (simp add: config_typed_def default_config_def DEFAULT_ADDR_def is_i64_def INT64_MIN_def INT64_MAX_def)

lemma check_config_typed:
  assumes "config_typed c" "check_config role c = Inr c'"
  shows "config_typed c' \<and> ac_port c' \<noteq> 0 \<and> 1 \<le> msg_size c' \<and> msg_size c' \<le> 1450 \<and> 1 \<le> n_msgs c'"
proof -
  have c1: "config_typed (if n_msgs c \<le> 0 then c\<lparr>n_msgs := 1\<rparr> else c)"
    using assms(1) config_typed_update(2) [OF assms(1), of 1] by simp
  have "is_talker c \<in> {0, 1}" using assms(1) by (simp add: config_typed_def)
  then have "config_typed c'"
    using assms(2) config_typed_update(9,10) [OF c1] by (auto simp: check_config_eq)
  moreover obtain t where "c' = (if n_msgs c \<le> 0 then c\<lparr>n_msgs := 1\<rparr> else c)\<lparr>is_talker := t\<rparr>"
      "ac_port c \<noteq> 0" "0 < msg_size c" "msg_size c \<le> 1450"
    using assms(2) by (auto simp: check_config_eq)
  ultimately show ?thesis by (cases "n_msgs c \<le> 0") auto
qed

text \<open>
  C33. Whatever options are given, a configuration that gets past option parsing and the checks of
  \<open>main\<close> is well typed: every field is in the range of its C type, the flags are 0 or 1, the address
  fits its array with the terminating zero, the port is not 0, the size is between 1 and 1450 and
  at least one message is asked for.
\<close>

theorem tsn_perf_config_typed:
  assumes "parse_options opts = Inr c" "check_config role c = Inr c'"
  shows "config_typed c' \<and> ac_port c' \<noteq> 0 \<and> 1 \<le> msg_size c' \<and> msg_size c' \<le> 1450 \<and> 1 \<le> n_msgs c'"
  using assms(1) options_typed [OF _ start_config_typed] check_config_typed [OF _ assms(2)]
  unfolding parse_options_def by blast

definition demo_config :: app_config where
  "demo_config = \<lparr>is_talker = 1, ac_port = 9999, ac_addr = ''10.0.0.2'', n_msgs = 3, msg_size = 8,
     use_txtime = 1, wakeup_delay = 100000, interval = 500, priority = 0, verbose = 1\<rparr>"

lemma demo_parse:
  "parse_options [(CHR ''n'', '' 3x''), (CHR ''s'', ''8''), (CHR ''a'', ''10.0.0.2''), (CHR ''i'', ''+500''),
     (CHR ''t'', []), (CHR ''v'', [])] = Inr demo_config"
  by code_simp

theorem tsn_perf_config_typed_witness:
  "parse_options [(CHR ''n'', '' 3x''), (CHR ''s'', ''8''), (CHR ''a'', ''10.0.0.2''), (CHR ''i'', ''+500''),
      (CHR ''t'', []), (CHR ''v'', [])] = Inr demo_config \<and>
    check_config (Some ''talker'') demo_config = Inr demo_config \<and> config_typed demo_config"
proof -
  have "check_config (Some ''talker'') demo_config = Inr demo_config"
    by (simp add: check_config_def demo_config_def)
  then show ?thesis using tsn_perf_config_typed [OF demo_parse] demo_parse by blast
qed

subsection \<open>The calls of the talker\<close>

text \<open>How many calls were accepted.\<close>

definition accepted :: "(msghdr \<times> int) list \<Rightarrow> nat" where
  "accepted calls = length (filter (\<lambda>(m, r). 1 \<le> r) calls)"

text \<open>The payload with number \<open>n\<close>, and the state after the calls made so far; \<open>t0\<close> is the first instant.\<close>

definition numbered :: "app_config \<Rightarrow> int \<Rightarrow> u8 list" where
  "numbered c n = le32 n @ replicate (nat (msg_size c) - 4) 97"

definition talker_inv :: "app_config \<Rightarrow> sockaddr \<Rightarrow> int \<Rightarrow> 'o talker \<Rightarrow> bool" where
  "talker_inv c addr t0 tk \<longleftrightarrow>
     tk_counter tk = 1 + int (accepted (tk_calls tk)) \<and> tk_counter tk \<le> max 1 (n_msgs c) \<and>
     tk_txtime tk = t0 + int (length (tk_calls tk)) * interval c \<and>
     tk_wakeup tk = tk_txtime tk - wakeup_delay c \<and>
     length (tk_message tk) = nat (msg_size c) \<and> drop 4 (tk_message tk) = replicate (nat (msg_size c) - 4) 97 \<and>
     (\<forall>k < length (tk_calls tk). fst (tk_calls tk ! k) =
        talker_msg c addr (numbered c (1 + int (accepted (take k (tk_calls tk))))) (t0 + int k * interval c))"

lemma length_le32 [simp]: "length (le32 n) = 4"
  by (simp add: le32_def)

lemma write_number:
  assumes "length m = nat (msg_size c)" "drop 4 m = replicate (nat (msg_size c) - 4) 97" "4 \<le> msg_size c"
  shows "mem_write m 0 (le32 n) 4 = Inr (numbered c n)" "length (numbered c n) = nat (msg_size c)"
    "drop 4 (numbered c n) = replicate (nat (msg_size c) - 4) 97"
  using assms by (simp_all add: blit_from_0 numbered_def)

text \<open>One iteration on a message buffer of at least 4 bytes, with no overflow: what it does.\<close>

lemma talker_step_Inr:
  assumes "talker_step os c fd addr tk = Inr tk'" "talker_inv c addr t0 tk" "tk_counter tk < n_msgs c"
  shows "talker_inv c addr t0 tk'"
proof -
  note inv = assms(2) [unfolded talker_inv_def]
  have "\<exists>m. mem_write (tk_message tk) 0 (le32 (tk_counter tk)) 4 = Inr m"
    using assms(1) by (auto simp: talker_step_def Let_def rbind_eq_Inr)
  then have four: "4 \<le> msg_size c" using inv by (auto simp: mem_write_def split: if_splits)
  note w = write_number [OF _ _ four, of "tk_message tk" "tk_counter tk"]
  let ?msg = "talker_msg c addr (numbered c (tk_counter tk)) (tk_txtime tk)"
  obtain ret where r: "tk_counter tk' = (if ret < 1 then tk_counter tk else tk_counter tk + 1)"
      "tk_txtime tk' = tk_txtime tk + interval c" "tk_wakeup tk' = tk_wakeup tk + interval c"
      "tk_message tk' = numbered c (tk_counter tk)" "tk_calls tk' = tk_calls tk @ [(?msg, ret)]"
    using assms(1) w inv
    by (auto simp: talker_step_def Let_def rbind_eq_Inr case_prod_unfold i64_checked_def int_checked_def
        split: if_splits)
  have "accepted (tk_calls tk') = accepted (tk_calls tk) + (if ret < 1 then 0 else 1)"
    using r(5) by (simp add: accepted_def)
  moreover have "fst (tk_calls tk' ! k) =
      talker_msg c addr (numbered c (1 + int (accepted (take k (tk_calls tk'))))) (t0 + int k * interval c)"
    if "k < length (tk_calls tk')" for k
    using that inv r(5) by (cases "k < length (tk_calls tk)") (auto simp: nth_append less_Suc_eq)
  ultimately show ?thesis
    using inv r w assms(3) by (auto simp: talker_inv_def algebra_simps)
qed

lemma talker_loop_inv:
  assumes "talker_loop os c fd addr tk = Some r"
  shows "\<forall>tk'. talker_inv c addr t0 tk \<longrightarrow> r = Inr tk' \<longrightarrow>
    talker_inv c addr t0 tk' \<and> \<not> tk_counter tk' < n_msgs c" (is "?P os c fd addr tk r")
proof (rule talker_loop.raw_induct [OF _ assms])
  fix loop and os :: "'a app_os" and c fd addr tk r
  assume IH: "\<And>os c fd addr tk r. loop os c fd addr tk = Some r \<Longrightarrow> ?P os c fd addr tk r"
    and body: "(if tk_counter tk < n_msgs c
      then (case talker_step os c fd addr tk of Inl e \<Rightarrow> Some (Inl e) | Inr tk' \<Rightarrow> loop os c fd addr tk')
      else Some (Inr tk)) = Some r"
  show "?P os c fd addr tk r"
  proof (cases "tk_counter tk < n_msgs c")
    case True
    show ?thesis
    proof (cases "talker_step os c fd addr tk")
      case (Inr tk1)
      then have "?P os c fd addr tk1 r" using body True by (intro IH) simp
      then show ?thesis using talker_step_Inr [OF Inr _ True] by blast
    qed (use body True in auto)
  qed (use body in auto)
qed

lemma talker_start_inv:
  assumes "talker_start os c s = Inr tk"
  shows "\<exists>t0. NSEC_PER_SEC dvd t0 \<and> talker_inv c addr t0 tk"
proof -
  have "NSEC_PER_SEC dvd tk_txtime tk"
      "tk_counter tk = 1" "tk_wakeup tk = tk_txtime tk - wakeup_delay c"
      "tk_message tk = replicate (nat (msg_size c)) 97" "tk_calls tk = []"
    using assms
    by (auto simp: talker_start_def Let_def rbind_eq_Inr case_prod_unfold i64_checked_def split: if_splits)
  then show ?thesis
    by (intro exI [of _ "tk_txtime tk"]) (auto simp: talker_inv_def accepted_def)
qed

lemma do_talker_Inr:
  assumes "do_talker os inet_addr c s = Some (Inr (Inr tk))"
  obtains fd s1 tk0 where "init_tx_socket os (priority c) s = Inr (fd, s1)" "0 \<le> fd"
    "talker_start os c s1 = Inr tk0" "talker_loop os c fd (app_sockaddr inet_addr c) tk0 = Some (Inr tk)"
proof -
  obtain fd s1 where i: "init_tx_socket os (priority c) s = Inr (fd, s1)"
    using assms by (auto simp: do_talker_def split: sum.splits)
  moreover from i assms have fd: "0 \<le> fd" by (auto simp: do_talker_def split: if_splits)
  moreover from i fd assms obtain tk0 where t: "talker_start os c s1 = Inr tk0"
    by (auto simp: do_talker_def split: sum.splits)
  moreover from i fd t assms obtain r where "talker_loop os c fd (app_sockaddr inet_addr c) tk0 = Some r"
      "rbind r (\<lambda>tk'. Inr (Inr tk')) = (Inr (Inr tk) :: ('a + 'a talker) res)"
    by (auto simp: do_talker_def split: option.splits)
  ultimately show ?thesis using that by (cases r) auto
qed

subsection \<open>A sink that takes every message\<close>

text \<open>
  What the talker needs of the layer below: while there is room a fitting message is accepted, and
  reading the clock and sleeping disturb nothing. \<open>received\<close> is what was accepted so far, as \<open>view\<close>
  shows it.
\<close>

locale message_sink =
  fixes os :: "'o app_os" and fd :: int and room :: "'o \<Rightarrow> nat" and received :: "'o \<Rightarrow> 'm list"
    and view :: "msghdr \<Rightarrow> 'm" and fits :: "msghdr \<Rightarrow> bool"
  assumes send: "0 < room s \<Longrightarrow> fits m \<Longrightarrow> \<exists>r s'. os_sendmsg os s fd m 0 = Inr (r, s') \<and> 1 \<le> r \<and>
      room s' + 1 = room s \<and> received s' = received s @ [view m]"
    and clock: "room (snd (os_clock os s)) = room s" "received (snd (os_clock os s)) = received s"
    and sleep: "room (os_nanosleep os s d) = room s" "received (os_nanosleep os s d) = received s"
begin

lemma step_accepted:
  assumes inv: "talker_inv c addr t0 tk" and run: "tk_counter tk < n_msgs c" "n_msgs c < 2 ^ 31"
    and room: "0 < room (tk_os tk)" and four: "4 \<le> msg_size c"
    and fits: "\<And>n t. fits (talker_msg c addr (numbered c n) t)"
    and clk: "\<And>s. clock_ok (fst (os_clock os s))"
    and range: "is_i64 (tk_txtime tk + interval c)" "is_i64 (tk_wakeup tk + interval c)"
  shows "\<exists>tk'. talker_step os c fd addr tk = Inr tk' \<and> tk_counter tk' = tk_counter tk + 1 \<and>
    tk_txtime tk' = tk_txtime tk + interval c \<and> room (tk_os tk') + 1 = room (tk_os tk) \<and>
    received (tk_os tk') = received (tk_os tk) @
      [view (talker_msg c addr (numbered c (tk_counter tk)) (tk_txtime tk))]"
proof -
  let ?s1 = "os_nanosleep os (tk_os tk) (tk_wakeup tk sdiv NSEC_PER_SEC, tk_wakeup tk smod NSEC_PER_SEC)"
  let ?t = "fst (os_clock os ?s1)" and ?s2 = "snd (os_clock os ?s1)"
    and ?m = "talker_msg c addr (numbered c (tk_counter tk)) (tk_txtime tk)"
  have w: "mem_write (tk_message tk) 0 (le32 (tk_counter tk)) 4 = Inr (numbered c (tk_counter tk))"
    using inv write_number(1) [OF _ _ four] by (simp add: talker_inv_def)
  have rt: "kt_get_realtime_ns (fst ?t) (snd ?t) = Inr (clock_ns ?t)" by (rule clock_reading [OF clk])
  have "0 < room ?s2" using room by (simp add: clock sleep)
  from send [OF this fits] obtain r s' where s': "os_sendmsg os ?s2 fd ?m 0 = Inr (r, s')" "1 \<le> r"
      "room s' + 1 = room ?s2" "received s' = received ?s2 @ [view ?m]"
    by blast
  have "int_checked (tk_counter tk + 1) = Inr (tk_counter tk + 1)"
    using run inv by (simp add: int_checked_def talker_inv_def)
  then show ?thesis
    using w rt s' range by (simp add: talker_step_def Let_def case_prod_unfold clock sleep)
qed

lemma loop_accepted:
  assumes "talker_inv c addr t0 tk" "tk_counter tk \<le> n_msgs c" "n_msgs c < 2 ^ 31"
    and "nat (n_msgs c - tk_counter tk) \<le> room (tk_os tk)" and four: "4 \<le> msg_size c"
    and fits: "\<And>n t. fits (talker_msg c addr (numbered c n) t)"
    and clk: "\<And>s. clock_ok (fst (os_clock os s))"
    and "0 \<le> tk_txtime tk" "0 \<le> interval c" "0 \<le> wakeup_delay c" "is_i64 (wakeup_delay c)"
    and "is_i64 (tk_txtime tk + (n_msgs c - tk_counter tk) * interval c)"
  shows "\<exists>tk'. talker_loop os c fd addr tk = Some (Inr tk') \<and>
    received (tk_os tk') = received (tk_os tk) @ map (\<lambda>j. view (talker_msg c addr
      (numbered c (tk_counter tk + int j)) (tk_txtime tk + int j * interval c)))
      [0..<nat (n_msgs c - tk_counter tk)]"
  using assms(1-4,8-)
proof (induction "nat (n_msgs c - tk_counter tk)" arbitrary: tk)
  case 0
  then show ?case by (subst talker_loop.simps) auto
next
  case (Suc k)
  have run: "tk_counter tk < n_msgs c" "0 < room (tk_os tk)" using Suc by auto
  have le: "interval c \<le> (n_msgs c - tk_counter tk) * interval c"
    using run(1) Suc.prems(6) mult_right_mono [of 1 "n_msgs c - tk_counter tk" "interval c"] by simp
  have "tk_wakeup tk = tk_txtime tk - wakeup_delay c" using Suc.prems(1) by (simp add: talker_inv_def)
  then have range: "is_i64 (tk_txtime tk + interval c)" "is_i64 (tk_wakeup tk + interval c)"
    using Suc.prems(5-9) le by (auto simp: is_i64_def INT64_MIN_def INT64_MAX_def)
  obtain tk' where s: "talker_step os c fd addr tk = Inr tk'" "tk_counter tk' = tk_counter tk + 1"
      "tk_txtime tk' = tk_txtime tk + interval c" "room (tk_os tk') + 1 = room (tk_os tk)"
      "received (tk_os tk') = received (tk_os tk) @
        [view (talker_msg c addr (numbered c (tk_counter tk)) (tk_txtime tk))]"
    using step_accepted [OF Suc.prems(1) run(1) Suc.prems(3) run(2) four fits clk range] by blast
  have inv: "talker_inv c addr t0 tk'" by (rule talker_step_Inr [OF s(1) Suc.prems(1) run(1)])
  have k: "nat (n_msgs c - tk_counter tk) = Suc (nat (n_msgs c - tk_counter tk'))" using s(2) run(1) by simp
  have "talker_loop os c fd addr tk = talker_loop os c fd addr tk'"
    using run(1) s(1) by (subst talker_loop.simps) simp
  moreover have "tk_txtime tk' + (n_msgs c - tk_counter tk') * interval c =
      tk_txtime tk + (n_msgs c - tk_counter tk) * interval c"
    by (simp add: s(2,3) algebra_simps)
  ultimately show ?case
    using Suc.hyps(1) [of tk'] Suc.prems(3-9) Suc.hyps(2) s k run(1) inv
    by (auto simp: map_upt_Suc algebra_simps simp del: upt_Suc)
qed

end

subsection \<open>Properties\<close>

text \<open>
  C24. Whatever the layer below answers: when the talker has returned, exactly \<open>n_msgs - 1\<close> calls of
  \<open>sendmsg\<close> were accepted. The first instant is a whole second, the \<open>k\<close>-th call carries the instant
  \<open>k\<close> intervals later whether or not earlier calls were accepted, and its payload is numbered with
  one more than the calls accepted before it, so a refused message is sent again under the same
  number at the next instant.
\<close>

theorem talker_calls:
  assumes "do_talker os inet_addr c s = Some (Inr (Inr tk))" "1 \<le> n_msgs c"
  shows "\<exists>t0. NSEC_PER_SEC dvd t0 \<and> int (accepted (tk_calls tk)) = n_msgs c - 1 \<and>
    (\<forall>k < length (tk_calls tk). fst (tk_calls tk ! k) =
      talker_msg c (app_sockaddr inet_addr c)
        (numbered c (1 + int (accepted (take k (tk_calls tk))))) (t0 + int k * interval c))"
proof -
  let ?addr = "app_sockaddr inet_addr c"
  obtain fd s1 tk0 where t: "talker_start os c s1 = Inr tk0" "talker_loop os c fd ?addr tk0 = Some (Inr tk)"
    using assms(1) by (rule do_talker_Inr)
  obtain t0 where t0: "NSEC_PER_SEC dvd t0" "talker_inv c ?addr t0 tk0"
    using talker_start_inv [OF t(1)] by blast
  have "talker_inv c ?addr t0 tk" "\<not> tk_counter tk < n_msgs c"
    using talker_loop_inv [OF t(2)] t0(2) by blast+
  then show ?thesis using t0(1) assms(2) by (intro exI [of _ t0]) (auto simp: talker_inv_def)
qed

text \<open>A system that refuses every other message.\<close>

definition demo_os :: "nat app_os" where
  "demo_os = \<lparr>os_socket = (\<lambda>s d t p. Inr (3, s)), os_setsockopt = (\<lambda>s fd l n v. Inr (0, s)),
     os_bind = (\<lambda>s fd a. (0, s)), os_close = (\<lambda>s fd. (0, s)),
     os_sendmsg = (\<lambda>s fd m fl. Inr (if s mod 2 = 0 then - 1 else 8, s + 1)),
     os_recvfrom = (\<lambda>s fd n. (8, [7, 0, 0, 0, 97, 97, 97, 97], s)), os_clock = (\<lambda>s. ((1000, 5), s)),
     os_nanosleep = (\<lambda>s t. s), os_malloc = (\<lambda>s n. (True, s))\<rparr>"

declare talker_loop.simps [code]

lemma talked:
  "(case x of Some (Inr (Inr tk)) \<Rightarrow> P tk | _ \<Rightarrow> False) \<Longrightarrow> \<exists>tk. x = Some (Inr (Inr tk)) \<and> P tk"
  by (auto split: option.splits sum.splits)

lemma demo_talker_run:
  "(case do_talker demo_os (\<lambda>a. 0) demo_config 0 of
      Some (Inr (Inr tk)) \<Rightarrow> map snd (tk_calls tk) = [- 1, 8, - 1, 8] \<and> tk_counter tk = 3 | _ \<Rightarrow> False)"
  by code_simp

theorem talker_calls_witness:
  "\<exists>tk t0. do_talker demo_os (\<lambda>a. 0) demo_config 0 = Some (Inr (Inr tk)) \<and>
     map snd (tk_calls tk) = [- 1, 8, - 1, 8] \<and> accepted (tk_calls tk) = 2 \<and>
     fst (tk_calls tk ! 0) = talker_msg demo_config (app_sockaddr (\<lambda>a. 0) demo_config) (numbered demo_config 1) t0"
proof -
  from talked [OF demo_talker_run] obtain tk where tk:
      "do_talker demo_os (\<lambda>a. 0) demo_config 0 = Some (Inr (Inr tk))" "map snd (tk_calls tk) = [- 1, 8, - 1, 8]"
    by (elim exE conjE) (rule that)
  have "length (map snd (tk_calls tk)) = 4" unfolding tk(2) by simp
  then have l: "0 < length (tk_calls tk)" by simp
  obtain t0 where t0: "int (accepted (tk_calls tk)) = n_msgs demo_config - 1"
      "\<forall>k < length (tk_calls tk). fst (tk_calls tk ! k) = talker_msg demo_config (app_sockaddr (\<lambda>a. 0) demo_config)
        (numbered demo_config (1 + int (accepted (take k (tk_calls tk))))) (t0 + int k * interval demo_config)"
    using talker_calls [OF tk(1)] by (auto simp: demo_config_def)
  have "accepted (tk_calls tk) = 2" using t0(1) by (simp add: demo_config_def)
  moreover have "fst (tk_calls tk ! 0) =
      talker_msg demo_config (app_sockaddr (\<lambda>a. 0) demo_config) (numbered demo_config 1) t0"
    using t0(2) [rule_format, OF l] by (simp add: accepted_def)
  ultimately show ?thesis using tk by (intro exI conjI)
qed

text \<open>
  A size of 1, 2 or 3 bytes passes the checks of \<open>main\<close>, but the talker writes its 4-byte number
  into the allocated message: with such a size the first iteration writes past the end of the
  block, on any system where the socket could be set up and the memory allocated.
\<close>

theorem talker_small_message_overruns:
  assumes "1 \<le> msg_size c" "msg_size c < 4" "1 < n_msgs c" "ac_port c \<noteq> 0"
    and "init_tx_socket os (priority c) s = Inr (fd, s1)" "0 \<le> fd" "talker_start os c s1 = Inr tk"
  shows "check_config (Some ''talker'') c = Inr (c\<lparr>is_talker := 1\<rparr>) \<and>
    do_talker os inet_addr c s = Some (Inl OutOfBounds)"
proof -
  have tk: "tk_message tk = replicate (nat (msg_size c)) 97" "tk_counter tk = 1"
    using assms(7) by (auto simp: talker_start_def Let_def rbind_eq_Inr case_prod_unfold split: if_splits)
  have "mem_write (tk_message tk) 0 (le32 (tk_counter tk)) 4 = Inl OutOfBounds"
    using assms(1,2) unfolding tk mem_write_def by auto
  then have "talker_step os c fd (app_sockaddr inet_addr c) tk = Inl OutOfBounds"
    by (simp add: talker_step_def Let_def)
  then have "talker_loop os c fd (app_sockaddr inet_addr c) tk = Some (Inl OutOfBounds)"
    using tk(2) assms(3) by (subst talker_loop.simps) simp
  then show ?thesis using assms by (simp add: do_talker_def check_config_eq)
qed

theorem talker_small_message_overruns_witness:
  "do_talker demo_os (\<lambda>a. 0) (demo_config\<lparr>msg_size := 2\<rparr>) 0 = Some (Inl OutOfBounds)"
proof -
  let ?c = "demo_config\<lparr>msg_size := 2\<rparr>"
  have i: "init_tx_socket demo_os (priority ?c) 0 = Inr (3, 0)"
    by (simp add: init_tx_socket_def demo_os_def)
  have "kt_get_realtime_ns 1000 5 = Inr 1000000000005"
    by (simp add: realtime_in_range NSEC_PER_SEC_def)
  then have "\<exists>tk. talker_start demo_os ?c 0 = Inr tk"
    by (simp add: talker_start_def demo_os_def demo_config_def NSEC_PER_SEC_def i64_checked_def is_i64_def
        INT64_MIN_def INT64_MAX_def)
  then show ?thesis
    using talker_small_message_overruns [OF _ _ _ _ i, of _ "\<lambda>a. 0"] by (auto simp: demo_config_def)
qed

lemma of_le32_numbered:
  assumes "- (2 ^ 31) \<le> n" "n < 2 ^ 31"
  shows "of_le32 (numbered c n @ rest) = n"
proof -
  have "sint (of_int n :: u32) = n" using assms by (simp add: signed_of_int signed_take_bit_int_eq_self)
  then show ?thesis by (simp add: of_le32_def numbered_def le32_def)
qed

text \<open>
  A message the talker numbered, received by the listener: with \<open>-v\<close> exactly its number and the
  time of arrival are printed, for every size from 4 to 1450 bytes and every number a talker can
  reach.
\<close>

theorem listener_prints_number:
  assumes "os_recvfrom os (ls_os ls) fd 4096 = (int (length p), p, s1)" "p = numbered c n"
    and "4 \<le> msg_size c" "msg_size c \<le> 1450" "length (ls_msg ls) = 4096"
    and "os_clock os s1 = (t, s2)" "clock_ok t" "verbose c' \<noteq> 0" "1 \<le> n" "n < 2 ^ 31 - 1"
  shows "\<exists>msg. listener_step os c' fd ls = Inr \<lparr>ls_msg = msg, ls_counter = n + 1,
      ls_out = ls_out ls @ [(n, clock_ns t)], ls_os = s2\<rparr> \<and> length msg = 4096"
proof -
  have p: "length p = nat (msg_size c)" using assms(2,3) by (simp add: numbered_def)
  have w: "mem_write (ls_msg ls) 0 p (length p) = Inr (p @ drop (length p) (ls_msg ls))"
    using p assms(4,5) by (simp add: blit_from_0)
  have n: "of_le32 (p @ drop (length p) (ls_msg ls)) = n"
    unfolding assms(2) by (rule of_le32_numbered) (use assms(9,10) in simp_all)
  have "int_checked (n + 1) = Inr (n + 1)" using assms(9,10) by (simp add: int_checked_def)
  then show ?thesis
    using w n p assms clock_reading [OF assms(7)] by (simp add: listener_step_def Let_def case_prod_unfold)
qed

theorem listener_prints_number_witness:
  "\<exists>msg. listener_step demo_os demo_config 3 \<lparr>ls_msg = replicate 4096 0, ls_counter = 0, ls_out = [], ls_os = 0\<rparr> =
     Inr \<lparr>ls_msg = msg, ls_counter = 8, ls_out = [(7, 1000000000005)], ls_os = 0\<rparr>"
proof -
  have "le32 7 = [7, 0, 0, 0]" by (simp add: le32_def be32_def)
  moreover have "replicate 4 (97 :: u8) = [97, 97, 97, 97]" by (simp add: eval_nat_numeral)
  ultimately have "numbered demo_config 7 = [7, 0, 0, 0, 97, 97, 97, 97]" by (simp add: numbered_def demo_config_def)
  then have "os_recvfrom demo_os (ls_os \<lparr>ls_msg = replicate 4096 0, ls_counter = 0, ls_out = [], ls_os = 0\<rparr>) 3 4096 =
      (int (length (numbered demo_config 7)), numbered demo_config 7, 0)"
    by (simp add: demo_os_def)
  from listener_prints_number [OF this refl, of "(1000, 5)" 0 demo_config] show ?thesis
    by (simp add: demo_config_def demo_os_def clock_ok_def clock_ns_def NSEC_PER_SEC_def)
       blast
qed

end
