(* ===== verification/KT_Talker_System.thy ===== *)
theory KT_Talker_System
  imports KT_System KT_Talker
begin

section \<open>The latency test on the preloaded library\<close>

text \<open>
  \<open>tsn_perf\<close> runs with \<open>libktsn\<close> preloaded: its calls of \<open>socket\<close>, \<open>setsockopt\<close>, \<open>sendmsg\<close> and \<open>close\<close>
  are those of the library, the others go to the system. Shown here: the library over a well-formed
  segment is a sink that takes every message while buffers last, so a talker's messages are in the
  transmit ring, in order, each with its instant, its destination and its number.
\<close>

subsection \<open>The library as the layer below the application\<close>

text \<open>
  \<open>base\<close> is the system without the library. \<open>socket\<close>, and \<open>sendmsg\<close> for other domains, end without
  \<open>return\<close>; \<open>rax\<close> is the value their caller finds in the return register.
\<close>

definition lift_os :: "('k \<Rightarrow> 'r \<times> 'k) \<Rightarrow> 'k ktsn \<Rightarrow> 'r \<times> 'k ktsn" where
  "lift_os call st = (let (r, os) = call (g_os st) in (r, st\<lparr>g_os := os\<rparr>))"

definition preload_os ::
  "'k libc \<Rightarrow> nat \<Rightarrow> u64 \<Rightarrow> ('k ktsn \<Rightarrow> int) \<Rightarrow> 'k app_os \<Rightarrow> 'k ktsn app_os" where
  "preload_os libc sp junk rax base =
     \<lparr>os_socket = (\<lambda>st d t p. let (st', r) = socket libc d t p st in
        Inr (case r of None \<Rightarrow> rax st' | Some fd \<Rightarrow> fd, st')),
      os_setsockopt = (\<lambda>st fd l n v. rbind (setsockopt libc fd l n v st) (\<lambda>(st', r). Inr (r, st'))),
      os_bind = (\<lambda>st fd a. lift_os (\<lambda>s. os_bind base s fd a) st),
      os_close = (\<lambda>st fd. let (st', r) = close libc fd st in (r, st')),
      os_sendmsg = (\<lambda>st fd m fl. rbind (sendmsg libc sp junk fd m fl st) (\<lambda>(st', r).
        Inr (case r of None \<Rightarrow> rax st' | Some v \<Rightarrow> v, st'))),
      os_recvfrom = (\<lambda>st fd n. let (r, bs, os) = os_recvfrom base (g_os st) fd n in (r, bs, st\<lparr>g_os := os\<rparr>)),
      os_clock = lift_os (os_clock base),
      os_nanosleep = (\<lambda>st d. st\<lparr>g_os := os_nanosleep base (g_os st) d\<rparr>),
      os_malloc = (\<lambda>st n. lift_os (\<lambda>s. os_malloc base s n) st)\<rparr>"

subsection \<open>Packets in the segment\<close>

text \<open>A packet as the daemon will see it: time, destination address and port, payload.\<close>

definition packet_of :: "kt_shm \<Rightarrow> u64 \<Rightarrow> u64 \<times> u32 \<times> u16 \<times> u8 list" where
  "packet_of shm idx =
     (let md = shm_metadata shm ! unat idx in
      (md_txtime md, md_ip_dst md, md_udp_dport md,
       take (unat (md_size md)) (mbuf_at (shm_mbufs shm) (unat idx))))"

definition pending_packets :: "'k ktsn \<Rightarrow> (u64 \<times> u32 \<times> u16 \<times> u8 list) list" where
  "pending_packets st = map (packet_of (g_shm st)) (rb_items (shm_tx (g_shm st)))"

definition scheduled_view :: "msghdr \<Rightarrow> u64 \<times> u32 \<times> u16 \<times> u8 list" where
  "scheduled_view m =
     (case (find_txtime (msg_control m), msg_name m) of
        (Some t, Some a) \<Rightarrow> (t, ntohl (sa_word a), ntohs (sa_half a), hd (msg_iov m))
      | _ \<Rightarrow> (0, 0, 0, []))"

definition schedulable :: "sockaddr \<Rightarrow> msghdr \<Rightarrow> bool" where
  "schedulable addr m \<longleftrightarrow> msg_name m = Some addr \<and> find_txtime (msg_control m) \<noteq> None \<and>
     length (msg_iov m) = 1 \<and> 1 \<le> length (hd (msg_iov m)) \<and> length (hd (msg_iov m)) \<le> 2048"

definition segment_ok :: "kt_shm \<Rightarrow> bool" where
  "segment_ok shm \<longleftrightarrow> shm_ok shm \<and> ring_indices shm \<subseteq># all_indices \<and> 127 * 2048 \<le> length (shm_mbufs shm)"

definition app_ready :: "int \<Rightarrow> sockaddr \<Rightarrow> 'k ktsn \<Rightarrow> bool" where
  "app_ready fd addr st \<longleftrightarrow> segment_ok (g_shm st) \<and>
     (\<exists>node. kt_socket_find (g_socket_list st) fd = Some node \<and> so_txtime node \<noteq> 0 \<and>
        so_domain node = Some AF_INET) \<and>
     interface_of_net (g_interface_list st) addr \<noteq> None"

definition free_buffers :: "int \<Rightarrow> sockaddr \<Rightarrow> 'k ktsn \<Rightarrow> nat" where
  "free_buffers fd addr st =
     (if app_ready fd addr st then length (rb_items (shm_free (g_shm st))) else 0)"

lemma segment_index:
  assumes "segment_ok shm" "idx \<in># ring_indices shm"
  shows "unat idx < 127" "unat idx < length (shm_metadata shm)" "unat idx * 2048 + 2048 \<le> length (shm_mbufs shm)"
proof -
  show "unat idx < 127" using assms mset_subset_eqD by (intro all_indices_bound) (auto simp: segment_ok_def)
  then show "unat idx < length (shm_metadata shm)" "unat idx * 2048 + 2048 \<le> length (shm_mbufs shm)"
    using assms(1) by (auto simp: segment_ok_def shm_ok_def)
qed

lemma segment_apart:
  assumes "segment_ok shm" "i \<in> set (rb_items (shm_tx shm))" "j \<in> set (rb_items (shm_free shm))"
  shows "unat i \<noteq> unat j"
proof
  assume "unat i = unat j"
  then have "i = j" by (simp add: word_unat_eq_iff)
  have "count (ring_indices shm) j \<le> count all_indices j"
    using assms(1) by (intro mset_subset_eq_count) (simp add: segment_ok_def)
  then have "count (ring_indices shm) j \<le> 1" using all_indices_unique [of j] by linarith
  moreover have "0 < count (mset (rb_items (shm_tx shm))) j" "0 < count (mset (rb_items (shm_free shm))) j"
    using assms(2,3) \<open>i = j\<close> by simp_all
  ultimately show False by (simp add: ring_indices_def)
qed

lemma send_schedulable:
  assumes ready: "app_ready fd addr st" and free: "rb_items (shm_free (g_shm st)) = idx # rest"
    and m: "schedulable addr m"
  shows "\<exists>shm. sendmsg libc sp junk fd m fl st = Inr (st\<lparr>g_shm := shm\<rparr>, Some (int (length (hd (msg_iov m))))) \<and>
    app_ready fd addr (st\<lparr>g_shm := shm\<rparr>) \<and> rb_items (shm_free shm) = rest \<and>
    pending_packets (st\<lparr>g_shm := shm\<rparr>) = pending_packets st @ [scheduled_view m]"
proof -
  obtain node iface t iov where r: "kt_socket_find (g_socket_list st) fd = Some node" "so_txtime node \<noteq> 0"
      "so_domain node = Some AF_INET" "interface_of_net (g_interface_list st) addr = Some iface"
      "find_txtime (msg_control m) = Some t" "msg_name m = Some addr" "msg_iov m = [iov]" "1 \<le> length iov"
      "length iov \<le> 2048"
    using ready m by (auto simp: app_ready_def schedulable_def length_Suc_conv)
  let ?g = "g_shm st"
  have seg: "segment_ok ?g" using ready by (simp add: app_ready_def)
  then have ok: "shm_ok ?g" "ring_indices ?g \<subseteq># all_indices" by (auto simp: segment_ok_def)
  have sz: "size (ring_indices ?g) \<le> 127" using size_mset_mono [OF ok(2)] by (simp add: all_indices_size)
  then have room: "rb_len (shm_tx ?g) < unat (rb_capacity (shm_tx ?g))"
    using ok(1) free by (simp add: ring_indices_def shm_ok_def)
  have idx: "idx \<in># ring_indices ?g" using free by (simp add: ring_indices_def)
  note b = segment_index [OF seg idx]
  obtain shm where s: "sendmsg libc sp junk fd m fl st = Inr (st\<lparr>g_shm := shm\<rparr>, Some (int (length iov)))"
      "rb_items (shm_free shm) = rest" "rb_items (shm_tx shm) = rb_items (shm_tx ?g) @ [idx]"
      "take (length iov) (mbuf_at (shm_mbufs shm) (unat idx)) = iov"
      "length (shm_mbufs shm) = length (shm_mbufs ?g)"
      "\<And>k. k \<noteq> unat idx \<Longrightarrow> mbuf_at (shm_mbufs shm) k = mbuf_at (shm_mbufs ?g) k"
      "shm_metadata shm = (shm_metadata ?g)[unat idx :=
        \<lparr>md_transport = KT_METADATA_TRANSPORT_UDP, md_txtime = t, md_eth_src = if_mac iface,
         md_eth_dst = kt_default_dst_mac, md_ip_src = ntohl (sa_word (if_addr iface)),
         md_ip_dst = ntohl (sa_word addr), md_udp_dport = ntohs (sa_half addr), md_size = of_nat (length iov)\<rparr>]"
    using sendmsg_inet_ok [OF r(1-3,5,6,4) _ free _ room r(7,9) b(2,3), of libc sp junk fl] ok(1)
    by (auto simp: shm_ok_def)
  have "shm_ok shm \<and> ring_indices shm = ring_indices ?g"
    using sendmsg_rings [OF ok(1) sz s(1)] by simp
  then have seg': "segment_ok shm" using seg s(5) by (simp add: segment_ok_def)
  then have "app_ready fd addr (st\<lparr>g_shm := shm\<rparr>)" using ready by (simp add: app_ready_def)
  moreover have "packet_of shm i = packet_of ?g i" if "i \<in> set (rb_items (shm_tx ?g))" for i
    using segment_apart [OF seg that, of idx] free s(6,7) by (simp add: packet_of_def Let_def)
  moreover have "unat (of_nat (length iov) :: u64) = length iov"
    using r(9) by (intro unat_of_nat_u64) simp_all
  moreover from this have "packet_of shm idx = scheduled_view m"
    using s(4,7) b(2) r(5-7) by (simp add: packet_of_def scheduled_view_def)
  ultimately show ?thesis
    using s(1-3) r(7) by (intro exI [of _ shm]) (simp add: pending_packets_def)
qed

text \<open>What the system does on its own state is invisible in the segment.\<close>

lemma os_frame [simp]:
  "app_ready fd addr (st\<lparr>g_os := os\<rparr>) = app_ready fd addr st"
  "free_buffers fd addr (st\<lparr>g_os := os\<rparr>) = free_buffers fd addr st"
  "pending_packets (st\<lparr>g_os := os\<rparr>) = pending_packets st"
proof -
  show "app_ready fd addr (st\<lparr>g_os := os\<rparr>) = app_ready fd addr st" by (simp add: app_ready_def)
  then show "free_buffers fd addr (st\<lparr>g_os := os\<rparr>) = free_buffers fd addr st" by (simp add: free_buffers_def)
qed (simp add: pending_packets_def)

lemma snd_lift_os: "snd (lift_os call st) = st\<lparr>g_os := snd (call (g_os st))\<rparr>"
  by (simp add: lift_os_def Let_def case_prod_unfold)

interpretation preload: message_sink "preload_os (libc :: 'k libc) sp junk rax base" fd "free_buffers fd addr"
    pending_packets scheduled_view "schedulable addr"
proof
  fix s :: "'k ktsn" and m assume room: "0 < free_buffers fd addr s" and m: "schedulable addr m"
  then have ready: "app_ready fd addr s" and "rb_items (shm_free (g_shm s)) \<noteq> []"
    by (auto simp: free_buffers_def simp del: length_rb_items split: if_splits)
  then obtain idx rest where free: "rb_items (shm_free (g_shm s)) = idx # rest" by (meson neq_Nil_conv)
  obtain shm where "sendmsg libc sp junk fd m 0 s = Inr (s\<lparr>g_shm := shm\<rparr>, Some (int (length (hd (msg_iov m)))))"
      "app_ready fd addr (s\<lparr>g_shm := shm\<rparr>)" "rb_items (shm_free shm) = rest"
      "pending_packets (s\<lparr>g_shm := shm\<rparr>) = pending_packets s @ [scheduled_view m]"
    using send_schedulable [OF ready free m, of libc sp junk 0] by blast
  moreover have "1 \<le> int (length (hd (msg_iov m)))" using m by (auto simp: schedulable_def)
  ultimately show "\<exists>r s'. os_sendmsg (preload_os libc sp junk rax base) s fd m 0 = Inr (r, s') \<and> 1 \<le> r \<and>
      free_buffers fd addr s' + 1 = free_buffers fd addr s \<and>
      pending_packets s' = pending_packets s @ [scheduled_view m]"
    using ready free by (simp add: preload_os_def free_buffers_def)
qed (simp_all add: preload_os_def snd_lift_os)

subsection \<open>The talker over the library\<close>

lemma whole_second:
  assumes "clock_ok t"
  shows "0 \<le> (clock_ns t sdiv NSEC_PER_SEC) * NSEC_PER_SEC"
    "(clock_ns t sdiv NSEC_PER_SEC) * NSEC_PER_SEC \<le> 2 ^ 33 * NSEC_PER_SEC"
proof -
  have "clock_ns t sdiv NSEC_PER_SEC = fst t"
    using assms by (simp add: clock_ok_def clock_ns_def NSEC_PER_SEC_def signed_divide_int_def sgn_if)
  then show "0 \<le> (clock_ns t sdiv NSEC_PER_SEC) * NSEC_PER_SEC"
    "(clock_ns t sdiv NSEC_PER_SEC) * NSEC_PER_SEC \<le> 2 ^ 33 * NSEC_PER_SEC"
    using assms by (simp_all add: clock_ok_def NSEC_PER_SEC_def)
qed

lemma preload_start:
  assumes "\<And>os. clock_ok (fst (os_clock base os))" "\<And>os n. fst (os_malloc base os n)"
    and "0 \<le> wakeup_delay c" "is_i64 (wakeup_delay c)"
  shows "\<exists>tk os. talker_start (preload_os libc sp junk rax base) c st = Inr tk \<and> tk_os tk = st\<lparr>g_os := os\<rparr> \<and>
    tk_counter tk = 1 \<and> 0 \<le> tk_txtime tk \<and> tk_txtime tk \<le> 2 ^ 33 * NSEC_PER_SEC + NSEC_PER_SEC * 2"
proof -
  let ?os1 = "snd (os_malloc base (g_os st) (nat (msg_size c)))"
  let ?t = "fst (os_clock base ?os1)"
  note w = whole_second [OF assms(1) [of ?os1]]
  have "is_i64 ((clock_ns ?t sdiv NSEC_PER_SEC) * NSEC_PER_SEC + NSEC_PER_SEC * 2)"
    "is_i64 ((clock_ns ?t sdiv NSEC_PER_SEC) * NSEC_PER_SEC + NSEC_PER_SEC * 2 - wakeup_delay c)"
    using w assms(3,4) by (auto simp: is_i64_def INT64_MIN_def INT64_MAX_def NSEC_PER_SEC_def)
  then show ?thesis
    using assms(2) [of "g_os st" "nat (msg_size c)"] clock_reading [OF assms(1) [of ?os1]] w
    by (simp add: talker_start_def preload_os_def lift_os_def Let_def case_prod_unfold NSEC_PER_SEC_def) blast
qed

lemma talker_view:
  "use_txtime c \<noteq> 0 \<Longrightarrow> scheduled_view (talker_msg c addr p t) =
    (of_int t, ntohl (sa_word addr), ntohs (sa_half addr), p)"
  by (simp add: scheduled_view_def talker_msg_def)

lemma talker_schedulable:
  "use_txtime c \<noteq> 0 \<Longrightarrow> 4 \<le> msg_size c \<Longrightarrow> msg_size c \<le> 1450 \<Longrightarrow>
   schedulable addr (talker_msg c addr (numbered c n) t)"
  by (simp add: schedulable_def talker_msg_def numbered_def) linarith

lemma horizon:
  assumes "0 \<le> t" "t \<le> 2 ^ 33 * NSEC_PER_SEC + NSEC_PER_SEC * 2" "0 \<le> d" "d \<le> 2 ^ 59"
  shows "is_i64 (t + d)"
  using assms by (simp add: is_i64_def INT64_MIN_def INT64_MAX_def NSEC_PER_SEC_def)

text \<open>
  C12. The latency test as a talker on the preloaded library, with \<open>-t\<close> and a size of 4 to 1450 bytes,
  from the point where it has its socket (the library lists the descriptor \<open>fd\<close> as an IPv4 socket with a
  transmission time; which value \<open>socket\<close> itself left to its caller is not defined by the code and
  nothing is assumed of it): if the network of the destination belongs to a known interface and at least
  \<open>n_msgs - 1\<close> buffers are free, the preparation and the loop of \<open>do_talker\<close> return, and behind what
  was pending the transmit ring holds exactly its messages 1 to \<open>n_msgs - 1\<close> in this order: payload
  number \<open>k + 1\<close>, addressed to the destination, with instant \<open>t0 + k * interval\<close> for a whole second \<open>t0\<close>.
\<close>

theorem talker_reaches_ring:
  assumes "kt_socket_find (g_socket_list st) fd = Some node" "so_txtime node \<noteq> 0" "so_domain node = Some AF_INET"
    and "interface_of_net (g_interface_list st) addr \<noteq> None"
    and "\<And>os. clock_ok (fst (os_clock base os))" "\<And>os n. fst (os_malloc base os n)"
    and "segment_ok (g_shm st)" "n_msgs c - 1 \<le> int (length (rb_items (shm_free (g_shm st))))"
    and "use_txtime c \<noteq> 0" "4 \<le> msg_size c" "msg_size c \<le> 1450" "1 \<le> n_msgs c" "n_msgs c < 2 ^ 31"
    and "0 \<le> interval c" "n_msgs c * interval c \<le> 2 ^ 59" "0 \<le> wakeup_delay c" "is_i64 (wakeup_delay c)"
  shows "\<exists>tk0 tk t0. talker_start (preload_os libc sp junk rax base) c st = Inr tk0 \<and>
    talker_loop (preload_os libc sp junk rax base) c fd addr tk0 = Some (Inr tk) \<and> NSEC_PER_SEC dvd t0 \<and>
    pending_packets (tk_os tk) = pending_packets st @ map (\<lambda>k. (of_int (t0 + int k * interval c),
      ntohl (sa_word addr), ntohs (sa_half addr), numbered c (1 + int k))) [0..<nat (n_msgs c - 1)]"
proof -
  let ?os = "preload_os libc sp junk rax base"
  obtain tk0 os3 where t: "talker_start ?os c st = Inr tk0" "tk_os tk0 = st\<lparr>g_os := os3\<rparr>"
      "tk_counter tk0 = 1" "0 \<le> tk_txtime tk0" "tk_txtime tk0 \<le> 2 ^ 33 * NSEC_PER_SEC + NSEC_PER_SEC * 2"
    using preload_start [where base = base and libc = libc and sp = sp and junk = junk and rax = rax and st = st,
        OF assms(5,6,16,17)] by blast
  obtain t0 where t0: "NSEC_PER_SEC dvd t0" "talker_inv c addr t0 tk0"
    using talker_start_inv [OF t(1)] by blast
  have first: "tk_txtime tk0 = t0" "tk_calls tk0 = []"
    using t(1) t0(2) by (auto simp: talker_inv_def talker_start_def Let_def rbind_eq_Inr case_prod_unfold
        split: if_splits)
  have ready: "app_ready fd addr (tk_os tk0)"
    using t(2) assms(1-4,7) by (simp add: app_ready_def)
  then have room: "nat (n_msgs c - tk_counter tk0) \<le> free_buffers fd addr (tk_os tk0)"
    using t(2,3) assms(8) by (simp add: free_buffers_def)
  have "0 \<le> (n_msgs c - 1) * interval c" using assms(12,14) by (intro mult_nonneg_nonneg) simp_all
  moreover have "(n_msgs c - 1) * interval c \<le> n_msgs c * interval c" using assms(14) by (simp add: left_diff_distrib)
  ultimately have range: "is_i64 (tk_txtime tk0 + (n_msgs c - tk_counter tk0) * interval c)"
    unfolding t(3) using t(4,5) assms(15) by (intro horizon) simp_all
  have clk: "clock_ok (fst (os_clock ?os s))" for s
    using assms(5) by (simp add: preload_os_def lift_os_def case_prod_unfold Let_def)
  obtain tk where tk: "talker_loop ?os c fd addr tk0 = Some (Inr tk)"
      "pending_packets (tk_os tk) = pending_packets (tk_os tk0) @ map (\<lambda>j. scheduled_view (talker_msg c addr
        (numbered c (tk_counter tk0 + int j)) (tk_txtime tk0 + int j * interval c))) [0..<nat (n_msgs c - tk_counter tk0)]"
    using preload.loop_accepted [OF t0(2) _ assms(13) room assms(10)
        talker_schedulable [OF assms(9-11)] clk t(4) assms(14,16,17) range] t(3) assms(12) by auto
  have "pending_packets (tk_os tk0) = pending_packets st" using t(2) by (simp add: pending_packets_def)
  then show ?thesis
    using t(1) tk t0(1) t(3) first(1) talker_view [OF assms(9)]
    by (intro exI [of _ tk0] exI [of _ tk] exI [of _ t0]) simp
qed

lemma fresh_segment_ok:
  assumes "unat dat mod 4096 = 0" "unat dat + 2 ^ 21 \<le> 2 ^ 64"
  shows "\<exists>l shm. ktsnd_init dat 4096 sp block = Inr (l, shm, kt_prio_queue_init 127 block) \<and> segment_ok shm \<and>
    rb_items (shm_tx shm) = [] \<and> length (rb_items (shm_free shm)) = 127"
  using ktsnd_init_ok [OF assms, of sp block]
  by (auto simp: segment_ok_def shm_ok_def ring_indices_def all_indices_def sizeof_kt_mbuf_def
      simp del: length_rb_items)

definition demo_base :: "int app_os" where
  "demo_base = \<lparr>os_socket = (\<lambda>s d t p. Inr (3, s)), os_setsockopt = (\<lambda>s fd l n v. Inr (0, s)),
     os_bind = (\<lambda>s fd a. (0, s)), os_close = (\<lambda>s fd. (0, s)), os_sendmsg = (\<lambda>s fd m fl. Inr (- 1, s)),
     os_recvfrom = (\<lambda>s fd n. (- 1, [], s)), os_clock = (\<lambda>s. ((1000, 5), s)), os_nanosleep = (\<lambda>s t. s),
     os_malloc = (\<lambda>s n. (True, s))\<rparr>"

theorem talker_reaches_ring_witness:
  "\<exists>shm tk0 tk t0. segment_ok shm \<and>
     talker_start (preload_os demo_libc 0 0 (\<lambda>_. 0) demo_base) demo_config (demo_ktsn\<lparr>g_shm := shm\<rparr>) = Inr tk0 \<and>
     talker_loop (preload_os demo_libc 0 0 (\<lambda>_. 0) demo_base) demo_config 3
       (app_sockaddr (\<lambda>a. 0x0200000A) demo_config) tk0 = Some (Inr tk) \<and>
     map (\<lambda>(t, ip, port, p). (t, p)) (pending_packets (tk_os tk)) =
       [(of_int t0, numbered demo_config 1), (of_int (t0 + 500), numbered demo_config 2)]"
proof -
  obtain shm where shm: "segment_ok shm" "rb_items (shm_tx shm) = []" "length (rb_items (shm_free shm)) = 127"
    using fresh_segment_ok [of "0x7F0000000000" 0 "[]"] by auto
  let ?st = "demo_ktsn\<lparr>g_shm := shm\<rparr>" and ?addr = "app_sockaddr (\<lambda>a :: string. 0x0200000A :: u32) demo_config"
  have k: "kt_socket_find (g_socket_list ?st) 3 = Some \<lparr>so_fd = 3, so_prio = - 1, so_txtime = 1, so_domain = Some AF_INET\<rparr>"
    using demo_ktsn_lookup(1) by simp
  have i: "interface_of_net (g_interface_list ?st) ?addr \<noteq> None"
    by (simp add: demo_ktsn_def app_sockaddr_def is_same_subnetwork_def)
  have n: "n_msgs demo_config - 1 \<le> int (length (rb_items (shm_free (g_shm ?st))))"
    using shm(3) by (simp add: demo_config_def del: length_rb_items)
  obtain tk0 tk t0 where tk: "talker_start (preload_os demo_libc 0 0 (\<lambda>_. 0) demo_base) demo_config ?st = Inr tk0"
      "talker_loop (preload_os demo_libc 0 0 (\<lambda>_. 0) demo_base) demo_config 3 ?addr tk0 = Some (Inr tk)"
      "pending_packets (tk_os tk) = pending_packets ?st @ map (\<lambda>k. (of_int (t0 + int k * interval demo_config),
        ntohl (sa_word ?addr), ntohs (sa_half ?addr), numbered demo_config (1 + int k))) [0..<nat (n_msgs demo_config - 1)]"
    using talker_reaches_ring [where libc = demo_libc and rax = "\<lambda>_. 0" and base = demo_base and sp = 0 and junk = 0,
        OF k _ _ i _ _ _ n] shm(1)
    by (auto simp: demo_base_def demo_config_def clock_ok_def NSEC_PER_SEC_def is_i64_def INT64_MIN_def INT64_MAX_def)
  have "pending_packets ?st = []" using shm(2) by (simp add: pending_packets_def)
  moreover have "[0..<nat (n_msgs demo_config - 1)] = [0, 1]" by (simp add: demo_config_def upt_rec)
  ultimately show ?thesis
    using tk shm(1) by (intro exI [of _ shm] exI [of _ tk0] exI [of _ tk] exI [of _ t0]) (simp add: demo_config_def)
qed

end
