(* ===== verification/KT_Daemon_Main.thy ===== *)
theory KT_Daemon_Main
  imports KT_Daemon
begin

section \<open>Start and end of the daemon (\<open>main\<close>, \<open>port_init\<close> and \<open>ip_parse\<close> of \<open>src/ktsnd.c\<close>)\<close>

text \<open>
  The set-up of the network port is a sequence of DPDK calls whose answers are given; \<open>main\<close> is
  composed of the creation of the two segments, the layout, the port and the loop. Shown here: the
  port set-up stops at the first failing call and returns its answer, having made exactly the calls
  before it; a normal end unlinks and releases both segments and keeps two blocks of the heap, while
  an error return leaves every segment whose name it created, and the next start is refused.
\<close>

subsection \<open>Parsing an address\<close>

definition rte_be_to_cpu_32 :: "u32 \<Rightarrow> u32" where "rte_be_to_cpu_32 w = of_be32 (rev (be32 w))"

text \<open>\<open>inet_pton\<close> gives its answer and what it left in the destination.\<close>

definition ip_parse :: "(string \<Rightarrow> int \<times> u32) \<Rightarrow> string \<Rightarrow> int \<times> u32" where
  "ip_parse inet_pton addr =
     (let (r, dst) = inet_pton addr in if r \<noteq> 1 then (- 1, dst) else (0, rte_be_to_cpu_32 dst))"

subsection \<open>Setting up the port\<close>

datatype eth_call =
    EalInit int
  | PoolCreate bool
  | EalCleanup
  | IsValidPort u16
  | DevInfoGet u16
  | Configure u16 u16 u16
  | SetMtu u16 u16
  | AdjustDesc u16 u16 u16
  | SocketId u16
  | RxQueueSetup u16 u16 u16 int
  | TxQueueSetup u16 u16 u16 int
  | DevStart u16

text \<open>\<open>ea_adjust\<close> also gives the adjusted numbers of descriptors, \<open>ea_info\<close> the largest MTU.\<close>

record eth_answers =
  ea_valid :: bool
  ea_info :: "int \<times> u16"
  ea_configure :: int
  ea_mtu :: int
  ea_adjust :: "int \<times> u16 \<times> u16"
  ea_socket :: int
  ea_rxq :: "u16 \<Rightarrow> int"
  ea_txq :: "u16 \<Rightarrow> int"
  ea_start :: int

text \<open>The loops over the queues return at the first failure.\<close>

fun setup_queues :: "(u16 \<Rightarrow> int) \<Rightarrow> (u16 \<Rightarrow> eth_call) \<Rightarrow> u16 list \<Rightarrow> int \<times> eth_call list" where
  "setup_queues answer call [] = (0, [])"
| "setup_queues answer call (q # qs) =
     (if answer q \<noteq> 0 then (answer q, [call q])
      else let (r, cs) = setup_queues answer call qs in (r, call q # cs))"

definition rx_rings :: nat where "rx_rings = 1"
definition tx_rings :: nat where "tx_rings = 1"

definition port_init :: "eth_answers \<Rightarrow> u16 \<Rightarrow> u16 \<Rightarrow> int \<times> eth_call list" where
  "port_init ea port_id mtu =
     (let c1 = [IsValidPort port_id] in
      if \<not> ea_valid ea then (- 1, c1)
      else
        let (r2, max_mtu) = ea_info ea; c2 = c1 @ [DevInfoGet port_id] in
        if r2 \<noteq> 0 then (r2, c2)
        else
          let actual_mtu = min mtu max_mtu;
              c3 = c2 @ [Configure port_id (of_nat rx_rings) (of_nat tx_rings)] in
          if ea_configure ea \<noteq> 0 then (ea_configure ea, c3)
          else
            let c4 = c3 @ [SetMtu port_id actual_mtu] in
            if ea_mtu ea \<noteq> 0 then (ea_mtu ea, c4)
            else
              let (r5, nb_rxd, nb_txd) = ea_adjust ea; c5 = c4 @ [AdjustDesc port_id 1024 1024] in
              if r5 \<noteq> 0 then (r5, c5)
              else
                let socket_id = ea_socket ea; c6 = c5 @ [SocketId port_id];
                    (r7, rx) = setup_queues (ea_rxq ea) (\<lambda>q. RxQueueSetup port_id q nb_rxd socket_id)
                      (map of_nat [0..<rx_rings]);
                    c7 = c6 @ rx in
                if r7 \<noteq> 0 then (r7, c7)
                else
                  let (r8, tx) = setup_queues (ea_txq ea) (\<lambda>q. TxQueueSetup port_id q nb_txd socket_id)
                        (map of_nat [0..<tx_rings]);
                      c8 = c7 @ tx in
                  if r8 \<noteq> 0 then (r8, c8)
                  else
                    let c9 = c8 @ [DevStart port_id] in
                    if ea_start ea \<noteq> 0 then (ea_start ea, c9) else (0, c9))"

text \<open>The reference: the calls with their answers, cut after the first that fails.\<close>

fun until_failure :: "(eth_call \<times> int) list \<Rightarrow> int \<times> eth_call list" where
  "until_failure [] = (0, [])"
| "until_failure ((c, r) # rest) =
     (if r \<noteq> 0 then (r, [c]) else let (r', cs) = until_failure rest in (r', c # cs))"

definition port_script :: "eth_answers \<Rightarrow> u16 \<Rightarrow> u16 \<Rightarrow> (eth_call \<times> int) list" where
  "port_script ea p mtu =
     [(IsValidPort p, if ea_valid ea then 0 else - 1), (DevInfoGet p, fst (ea_info ea)),
      (Configure p 1 1, ea_configure ea), (SetMtu p (min mtu (snd (ea_info ea))), ea_mtu ea),
      (AdjustDesc p 1024 1024, fst (ea_adjust ea)), (SocketId p, 0),
      (RxQueueSetup p 0 (fst (snd (ea_adjust ea))) (ea_socket ea), ea_rxq ea 0),
      (TxQueueSetup p 0 (snd (snd (ea_adjust ea))) (ea_socket ea), ea_txq ea 0),
      (DevStart p, ea_start ea)]"

text \<open>
  Setting up the port makes the calls in the fixed order, with the MTU the smaller of the wanted
  and the largest possible, stops at the first call that fails and returns its answer; it returns 0
  exactly when all nine succeed and were made, the last being the start of the device.
\<close>

theorem port_init_first_failure:
  "port_init ea p mtu = until_failure (port_script ea p mtu) \<and>
   (fst (port_init ea p mtu) = 0 \<longleftrightarrow> list_all (\<lambda>(c, r). r = 0) (port_script ea p mtu)) \<and>
   (fst (port_init ea p mtu) = 0 \<longleftrightarrow> port_init ea p mtu = (0, map fst (port_script ea p mtu)))"
  by (auto simp: port_init_def port_script_def rx_rings_def tx_rings_def Let_def case_prod_unfold)

subsection \<open>\<open>main\<close>\<close>

text \<open>
  \<open>while (g_run)\<close> with the signal handler: each entry says whether the signal arrives during the
  iteration. The flag is tested before the next one.
\<close>

definition handler :: "int \<Rightarrow> int" where "handler g_run = 0"

fun ktsnd_while ::
  "'d dpdk \<Rightarrow> nat \<Rightarrow> int \<Rightarrow> (bool \<times> u64 list \<times> int \<times> int) list \<Rightarrow> 'd ktsnd \<Rightarrow>
   ('d ktsnd \<times> action list \<times> int) res" where
  "ktsnd_while ops sp g_run [] st = Inr (st, [], g_run)"
| "ktsnd_while ops sp g_run ((sig, table, clock) # rest) st =
     (if g_run = 0 then Inr (st, [], g_run)
      else
        rbind (ktsnd_iter ops sp table clock st) (\<lambda>(st1, a).
        rbind (ktsnd_while ops sp (if sig then handler g_run else g_run) rest st1) (\<lambda>(st2, as, g).
        Inr (st2, a # as, g))))"

definition ktsnd_cleanup :: "kt_memory \<Rightarrow> kt_memory \<Rightarrow> posix_call list" where
  "ktsnd_cleanup memory_ctrl memory =
     (let (r1, tr1) = kt_memory_destroy memory_ctrl; (r2, tr2) = kt_memory_destroy memory in tr1 @ tr2)"

text \<open>
  What the environment answers: \<open>rte_eal_init\<close>, the calls for the two segments, the page size, the
  \<open>malloc\<close> of the allocator's handle (its answer is not tested), the DPDK pool, the port, and one entry
  for each iteration until the signal arrives. The \<open>malloc\<close> of the queue answers with \<open>block\<close>, which
  is empty when it fails.
\<close>

record main_env =
  me_eal :: int
  me_data :: posix_answers
  me_ctrl :: posix_answers
  me_page :: u32
  me_handle :: bool
  me_pool :: bool
  me_port :: eth_answers
  me_input :: "(u64 list \<times> int \<times> int) list"

text \<open>
  The result: the exit status, the calls for memory and segments, the calls of DPDK's set-up and
  clean-up, and what the iterations did. A failing port set-up is logged and the loop is entered all
  the same.
\<close>

definition ktsnd_main ::
  "'d dpdk \<Rightarrow> main_env \<Rightarrow> nat \<Rightarrow> kt_pq_node list \<Rightarrow> 'd \<Rightarrow>
   (int \<times> posix_call list \<times> eth_call list \<times> action list) res" where
  "ktsnd_main ops env sp block dev =
     (if me_eal env < 0 then Inl Exit
      else
        let eal = [EalInit (me_eal env)];
            (mem, tr1) = kt_memory_create (me_data env) KT_DEFAULT_SHARED_DATA_MEMORY_NAME
              (ucast KT_DEFAULT_MEMORY_SIZE) in
        case mem of
          None \<Rightarrow> Inr (- 1, tr1, eal, [])
        | Some memory \<Rightarrow>
            let (ctrl, tr2) = kt_memory_create (me_ctrl env) KT_DEFAULT_SHARED_CTRL_MEMORY_NAME
                  (ucast (me_page env)) in
            (case ctrl of
               None \<Rightarrow> Inr (- 1, tr1 @ tr2, eal, [])
             | Some memory_ctrl \<Rightarrow>
                 if \<not> me_handle env then Inl NullDeref
                 else
                   rbind (ktsnd_init (mem_addr memory) (me_page env) sp block) (\<lambda>(layout, shm, queue).
                   let tr3 = tr1 @ tr2 @ [Malloc True, Malloc (block \<noteq> [])];
                       pool = eal @ [PoolCreate (me_pool env)] in
                   if \<not> me_pool env then Inr (- 1, tr3, pool, [])
                   else
                     let (ret, eth) = port_init (me_port env) 0 1500 in
                     rbind (ktsnd_loop ops sp (me_input env)
                       \<lparr>d_shm = shm, d_queue = queue, d_counter = 0, d_dev = dev\<rparr>) (\<lambda>(st, acts).
                     Inr (0, tr3 @ ktsnd_cleanup memory_ctrl memory, pool @ eth @ [EalCleanup], acts)))))"

text \<open>
  The iteration in which the signal arrives is finished and is the last: the loop with the flag is
  the loop over the entries up to this one.
\<close>

lemma stopped_while: "ktsnd_while ops sp 0 es st = Inr (st, [], 0)"
  by (cases es) auto

lemma while_until_signal:
  "g_run \<noteq> 0 \<Longrightarrow> \<forall>e \<in> set pre. \<not> fst e \<Longrightarrow>
   ktsnd_while ops sp g_run (pre @ (True, e) # post) st =
   rbind (ktsnd_loop ops sp (map snd pre @ [e]) st) (\<lambda>(st', as). Inr (st', as, 0))"
proof (induction pre arbitrary: st)
  case Nil
  then show ?case
    by (cases e; cases "ktsnd_iter ops sp (fst e) (snd e) st") (auto simp: handler_def stopped_while)
next
  case (Cons x pre)
  obtain table clock where x: "x = (False, table, clock)" using Cons.prems(2) by (cases x) auto
  show ?case
  proof (cases "ktsnd_iter ops sp table clock st")
    case (Inr r)
    then show ?thesis
      using Cons.IH [OF Cons.prems(1), of "fst r"] Cons.prems x
      by (cases r; cases "ktsnd_loop ops sp (map snd pre @ [e]) (fst r)") auto
  qed (use Cons.prems x in simp)
qed

text \<open>The names of segments that exist after a sequence of calls.\<close>

fun link_call :: "string set \<Rightarrow> posix_call \<Rightarrow> string set" where
  "link_call ns (ShmOpen name fl mode fd) = (if fd \<noteq> - 1 \<and> O_CREAT \<in> fl then insert name ns else ns)"
| "link_call ns (ShmUnlink name) = ns - {name}"
| "link_call ns c = ns"

definition linked :: "string set \<Rightarrow> posix_call list \<Rightarrow> string set" where
  "linked ns cs = foldl link_call ns cs"

lemma linked_append: "linked ns (cs @ ds) = linked (linked ns cs) ds"
  by (simp add: linked_def)

text \<open>A segment's name exists as soon as \<open>shm_open\<close> succeeded, whatever fails afterwards.\<close>

definition opens :: "posix_answers \<Rightarrow> bool" where
  "opens an \<longleftrightarrow> ans_malloc an \<and> ans_fd an \<noteq> - 1"

lemma create_linked:
  "kt_memory_create an name sz = (m, tr) \<Longrightarrow> linked ns tr = (if opens an then insert name ns else ns)"
  by (auto simp: kt_memory_create_def kt_memory_alloc_def linked_def opens_def Let_def split: if_splits option.splits)

lemma create_opens:
  "kt_memory_create an name sz = (Some m, tr) \<Longrightarrow> opens an \<and> mem_name m = take 63 name"
  by (auto simp: kt_memory_create_def kt_memory_alloc_def opens_def Let_def split: if_splits option.splits)

lemma create_refused: "ans_fd an = - 1 \<Longrightarrow> \<exists>tr. kt_memory_create an name sz = (None, tr)"
  by (auto simp: kt_memory_create_def kt_memory_alloc_def Let_def)

lemma destroy_linked: "linked ns (snd (kt_memory_destroy m)) = ns - {mem_name m}"
  by (simp add: kt_memory_destroy_def linked_def)

lemma names_short [simp]:
  "take 63 KT_DEFAULT_SHARED_DATA_MEMORY_NAME = KT_DEFAULT_SHARED_DATA_MEMORY_NAME"
  "take 63 KT_DEFAULT_SHARED_CTRL_MEMORY_NAME = KT_DEFAULT_SHARED_CTRL_MEMORY_NAME"
  by (simp_all add: KT_DEFAULT_SHARED_DATA_MEMORY_NAME_def KT_DEFAULT_SHARED_CTRL_MEMORY_NAME_def)

text \<open>What a process holds: one segment after the other, destroyed in the opposite order.\<close>

lemma after_calls_append: "after_calls h (cs @ ds) = after_calls (after_calls h cs) ds"
  by (simp add: after_calls_def)

lemma create_held:
  assumes "kt_memory_create an name sz = (Some m, tr)" "unat sz < 2 ^ 32"
  shows "after_calls h tr = h\<lparr>held_blocks := held_blocks h + 1, held_fds := insert (ans_fd an) (held_fds h),
      held_maps := insert (mem_addr m, sz) (held_maps h)\<rparr>"
    and "mem_fd m = ans_fd an" "ucast (mem_size m) = sz"
  using assms u32_size_roundtrip [OF assms(2)]
  by (auto simp: memory_defs Let_def split: if_splits option.splits)

lemma destroy_held:
  "after_calls h (snd (kt_memory_destroy m)) = h\<lparr>held_blocks := held_blocks h - 1,
     held_fds := held_fds h - {mem_fd m}, held_maps := held_maps h - {(mem_addr m, ucast (mem_size m))}\<rparr>"
  by (simp add: kt_memory_destroy_def after_calls_def)

definition nothing_held :: held where
  "nothing_held = \<lparr>held_blocks = 0, held_fds = {}, held_maps = {}\<rparr>"

lemma segment_sizes: "unat (ucast KT_DEFAULT_MEMORY_SIZE :: u64) < 2 ^ 32" "unat (ucast (p :: u32) :: u64) < 2 ^ 32"
proof -
  show "unat (ucast KT_DEFAULT_MEMORY_SIZE :: u64) < 2 ^ 32" by (simp add: KT_DEFAULT_MEMORY_SIZE_def)
  have "unat p < 2 ^ 64" using u32_bound [of p] by simp
  then have "unat (ucast p :: u64) = unat p" by (simp add: unsigned_ucast_eq take_bit_nat_eq_self)
  then show "unat (ucast p :: u64) < 2 ^ 32" using u32_bound [of p] by simp
qed

text \<open>The two segments and \<open>k\<close> blocks acquired after them; the segments are destroyed, the blocks are not freed.\<close>

lemma linked_mallocs [simp]: "linked ns (Malloc b # cs) = linked ns cs" "linked ns [] = ns"
  by (simp_all add: linked_def)

lemma created_linked:
  assumes a: "kt_memory_create an1 n1 s1 = (Some m1, tr1)" and b: "kt_memory_create an2 n2 s2 = (Some m2, tr2)"
  shows "linked ns (tr1 @ tr2 @ [Malloc x, Malloc y]) = {n1, n2} \<union> ns"
  using create_linked [OF a] create_linked [OF b] create_opens [OF a] create_opens [OF b]
  by (auto simp: linked_append)

lemma destroyed_held:
  assumes a: "kt_memory_create an1 n1 s1 = (Some m1, tr1)" "unat s1 < 2 ^ 32"
    and b: "kt_memory_create an2 n2 s2 = (Some m2, tr2)" "unat s2 < 2 ^ 32"
  shows "after_calls nothing_held (tr1 @ tr2 @ [Malloc x, Malloc y] @ ktsnd_cleanup m2 m1) =
    nothing_held\<lparr>held_blocks := of_bool x + of_bool y\<rparr>"
proof -
  note h1 = create_held [OF a] and h2 = create_held [OF b]
  have m: "after_calls h [Malloc x, Malloc y] = h\<lparr>held_blocks := held_blocks h + (of_bool x + of_bool y)\<rparr>" for h
    by (simp add: after_calls_def)
  have c: "ktsnd_cleanup m2 m1 = snd (kt_memory_destroy m2) @ snd (kt_memory_destroy m1)"
    by (simp add: ktsnd_cleanup_def Let_def case_prod_unfold)
  show ?thesis
    unfolding after_calls_append c h1(1) h2(1) m destroy_held by (auto simp: nothing_held_def h1(2,3) h2(2,3))
qed

lemma destroyed_linked:
  assumes a: "kt_memory_create an1 n1 s1 = (Some m1, tr1)" "take 63 n1 = n1"
    and b: "kt_memory_create an2 n2 s2 = (Some m2, tr2)" "take 63 n2 = n2"
  shows "linked {} (tr1 @ tr2 @ [Malloc x, Malloc y] @ ktsnd_cleanup m2 m1) = {}"
proof -
  have "linked {} ((tr1 @ tr2 @ [Malloc x, Malloc y]) @ ktsnd_cleanup m2 m1) = {n1, n2} - {n2} - {n1}"
    unfolding linked_append [of _ "tr1 @ tr2 @ [Malloc x, Malloc y]"] created_linked [OF a(1) b(1)]
    using create_opens [OF a(1)] create_opens [OF b(1)] a(2) b(2)
    by (simp add: ktsnd_cleanup_def Let_def case_prod_unfold linked_append destroy_linked)
  then show ?thesis by auto
qed

text \<open>Every way in which \<open>main\<close> returns.\<close>

lemma ktsnd_main_cases:
  assumes "ktsnd_main ops env sp block dev = Inr (r, tr, eth, acts)"
  obtains (no_data) tr1 where
      "kt_memory_create (me_data env) KT_DEFAULT_SHARED_DATA_MEMORY_NAME (ucast KT_DEFAULT_MEMORY_SIZE) = (None, tr1)"
      "r = - 1" "tr = tr1" "eth = [EalInit (me_eal env)]"
    | (no_ctrl) m tr1 tr2 where
      "kt_memory_create (me_data env) KT_DEFAULT_SHARED_DATA_MEMORY_NAME (ucast KT_DEFAULT_MEMORY_SIZE) = (Some m, tr1)"
      "kt_memory_create (me_ctrl env) KT_DEFAULT_SHARED_CTRL_MEMORY_NAME (ucast (me_page env)) = (None, tr2)"
      "r = - 1" "tr = tr1 @ tr2" "eth = [EalInit (me_eal env)]"
    | (created) m tr1 mc tr2 where
      "kt_memory_create (me_data env) KT_DEFAULT_SHARED_DATA_MEMORY_NAME (ucast KT_DEFAULT_MEMORY_SIZE) = (Some m, tr1)"
      "kt_memory_create (me_ctrl env) KT_DEFAULT_SHARED_CTRL_MEMORY_NAME (ucast (me_page env)) = (Some mc, tr2)"
      "if me_pool env then r = 0 \<and> tr = tr1 @ tr2 @ [Malloc True, Malloc (block \<noteq> [])] @ ktsnd_cleanup mc m \<and>
         eth = [EalInit (me_eal env), PoolCreate True] @ snd (port_init (me_port env) 0 1500) @ [EalCleanup]
       else r = - 1 \<and> tr = tr1 @ tr2 @ [Malloc True, Malloc (block \<noteq> [])] \<and>
         eth = [EalInit (me_eal env), PoolCreate False]"
proof -
  obtain d tr1 where d: "kt_memory_create (me_data env) KT_DEFAULT_SHARED_DATA_MEMORY_NAME
      (ucast KT_DEFAULT_MEMORY_SIZE) = (d, tr1)" by fastforce
  obtain c tr2 where c: "kt_memory_create (me_ctrl env) KT_DEFAULT_SHARED_CTRL_MEMORY_NAME (ucast (me_page env)) =
      (c, tr2)" by fastforce
  show thesis
  proof (cases d)
    case None
    then show thesis using assms d by (intro no_data) (auto simp: ktsnd_main_def split: if_splits)
  next
    case (Some m)
    note d = d [unfolded Some]
    show thesis
    proof (cases c)
      case None
      then show thesis
        using assms d c by (intro no_ctrl [OF d]) (auto simp: ktsnd_main_def split: if_splits)
    next
      case (Some mc)
      show thesis
        using assms d c Some by (intro created [OF d c [unfolded Some]])
          (auto simp: ktsnd_main_def Let_def rbind_eq_Inr case_prod_unfold split: if_splits)
    qed
  qed
qed

text \<open>
  What \<open>O_EXCL\<close> promises when the names \<open>ns\<close> exist: \<open>shm_open\<close> answers -1 for them.
\<close>

definition exclusive :: "string set \<Rightarrow> main_env \<Rightarrow> bool" where
  "exclusive ns env \<longleftrightarrow> (KT_DEFAULT_SHARED_DATA_MEMORY_NAME \<in> ns \<longrightarrow> ans_fd (me_data env) = - 1) \<and>
     (KT_DEFAULT_SHARED_CTRL_MEMORY_NAME \<in> ns \<longrightarrow> ans_fd (me_ctrl env) = - 1)"

lemma start_refused:
  assumes "KT_DEFAULT_SHARED_DATA_MEMORY_NAME \<in> ns" "exclusive ns env" "0 \<le> me_eal env"
  shows "\<exists>tr. ktsnd_main ops env sp block dev = Inr (- 1, tr, [EalInit (me_eal env)], []) \<and> linked ns tr = ns"
proof -
  have fd: "ans_fd (me_data env) = - 1" using assms(1,2) by (simp add: exclusive_def)
  then obtain tr where tr: "kt_memory_create (me_data env) KT_DEFAULT_SHARED_DATA_MEMORY_NAME
      (ucast KT_DEFAULT_MEMORY_SIZE) = (None, tr)"
    using create_refused by blast
  moreover have "linked ns tr = ns" using create_linked [OF tr, of ns] fd by (simp add: opens_def)
  ultimately show ?thesis using assms(3) by (auto simp: ktsnd_main_def)
qed

text \<open>The names an error return leaves behind.\<close>

definition left_behind :: "main_env \<Rightarrow> string set" where
  "left_behind env =
     (if \<not> opens (me_data env) then {}
      else if ans_ftruncate (me_data env) = 0 \<and> ans_mmap (me_data env) \<noteq> None \<and> opens (me_ctrl env) then
        {KT_DEFAULT_SHARED_DATA_MEMORY_NAME, KT_DEFAULT_SHARED_CTRL_MEMORY_NAME}
      else {KT_DEFAULT_SHARED_DATA_MEMORY_NAME})"

lemma create_complete:
  "kt_memory_create an name sz = (m, tr) \<Longrightarrow>
   m \<noteq> None \<longleftrightarrow> opens an \<and> ans_ftruncate an = 0 \<and> ans_mmap an \<noteq> None"
  by (auto simp: kt_memory_create_def kt_memory_alloc_def opens_def Let_def split: if_splits option.splits)

lemma error_leaves:
  assumes "ktsnd_main ops env sp block dev = Inr (r, tr, eth, acts)" "r \<noteq> 0"
  shows "r = - 1 \<and> linked {} tr = left_behind env \<and> EalCleanup \<notin> set eth"
  using assms(1)
proof (cases rule: ktsnd_main_cases)
  case (no_data tr1)
  then show ?thesis
    using create_linked [OF no_data(1), of "{}"] create_complete [OF no_data(1)] by (auto simp: left_behind_def)
next
  case (no_ctrl m tr1 tr2)
  then show ?thesis
    using create_linked [OF no_ctrl(1), of "{}"] create_linked [OF no_ctrl(2)] create_complete [OF no_ctrl(1)]
    by (auto simp: left_behind_def linked_append)
next
  case (created m tr1 mc tr2)
  then show ?thesis
    using assms(2) created_linked [OF created(1,2), of "{}"] create_complete [OF created(1)]
      create_complete [OF created(2)]
    by (auto simp: left_behind_def split: if_splits)
qed

text \<open>
  C29. The ways in which \<open>main\<close> of the daemon returns, started while neither segment exists.
  It returns 0 exactly when both segments and the DPDK pool could be made (the port set-up may fail);
  then both segments are unmapped, closed and unlinked and \<open>rte_eal_cleanup\<close> was its last call to
  DPDK, while the allocator's handle and, if it was obtained, the queue's array, two \<open>malloc\<close>s, are
  never freed. Otherwise it returns -1, without cleaning up DPDK, and leaves behind the name of every
  segment that \<open>shm_open\<close> created. If a name is left, then, as long as it exists and \<open>O_EXCL\<close> makes
  \<open>shm_open\<close> refuse existing names, every later start whose \<open>rte_eal_init\<close> succeeds returns -1 and
  changes no name.
\<close>

theorem daemon_exit_segments:
  assumes "ktsnd_main (ops :: 'd dpdk) env sp block dev = Inr (r, tr, eth, acts)"
  shows "(r = 0 \<longleftrightarrow> opens (me_data env) \<and> ans_ftruncate (me_data env) = 0 \<and> ans_mmap (me_data env) \<noteq> None \<and>
      opens (me_ctrl env) \<and> ans_ftruncate (me_ctrl env) = 0 \<and> ans_mmap (me_ctrl env) \<noteq> None \<and> me_pool env) \<and>
    (r = 0 \<longrightarrow> linked {} tr = {} \<and> last eth = EalCleanup \<and>
      after_calls nothing_held tr = nothing_held\<lparr>held_blocks := 1 + of_bool (block \<noteq> [])\<rparr>) \<and>
    (r \<noteq> 0 \<longrightarrow> r = - 1 \<and> EalCleanup \<notin> set eth \<and> linked {} tr = left_behind env \<and>
      (\<forall>ns ops2 env2 sp2 block2 dev2. left_behind env \<noteq> {} \<and> left_behind env \<subseteq> ns \<and> exclusive ns env2 \<and> 0 \<le> me_eal env2 \<longrightarrow>
        (\<exists>tr2. ktsnd_main (ops2 :: 'd dpdk) env2 sp2 block2 dev2 = Inr (- 1, tr2, [EalInit (me_eal env2)], []) \<and>
           linked ns tr2 = ns)))"
proof (intro conjI)
  show "r = 0 \<longleftrightarrow> opens (me_data env) \<and> ans_ftruncate (me_data env) = 0 \<and> ans_mmap (me_data env) \<noteq> None \<and>
      opens (me_ctrl env) \<and> ans_ftruncate (me_ctrl env) = 0 \<and> ans_mmap (me_ctrl env) \<noteq> None \<and> me_pool env"
    using assms by (cases rule: ktsnd_main_cases) (auto dest!: create_complete split: if_splits)
  show "r = 0 \<longrightarrow> linked {} tr = {} \<and> last eth = EalCleanup \<and>
      after_calls nothing_held tr = nothing_held\<lparr>held_blocks := 1 + of_bool (block \<noteq> [])\<rparr>"
    using assms
  proof (cases rule: ktsnd_main_cases)
    case (created m tr1 mc tr2)
    then show ?thesis
      using destroyed_linked [OF created(1) names_short(1) created(2) names_short(2), of True "block \<noteq> []"]
        destroyed_held [OF created(1) segment_sizes(1) created(2) segment_sizes(2), of True "block \<noteq> []"]
      by (auto split: if_splits)
  qed simp_all
  have later: "\<exists>tr2. ktsnd_main (ops2 :: 'd dpdk) env2 sp2 block2 dev2 = Inr (- 1, tr2, [EalInit (me_eal env2)], []) \<and>
      linked ns tr2 = ns"
    if "left_behind env \<noteq> {}" "left_behind env \<subseteq> ns" "exclusive ns env2" "0 \<le> me_eal env2"
    for ns ops2 env2 sp2 block2 dev2
  proof (rule start_refused [OF _ that(3,4)])
    have "KT_DEFAULT_SHARED_DATA_MEMORY_NAME \<in> left_behind env"
      using that(1) by (auto simp: left_behind_def split: if_splits)
    then show "KT_DEFAULT_SHARED_DATA_MEMORY_NAME \<in> ns" using that(2) by blast
  qed
  show "r \<noteq> 0 \<longrightarrow> r = - 1 \<and> EalCleanup \<notin> set eth \<and> linked {} tr = left_behind env \<and>
      (\<forall>ns ops2 env2 sp2 block2 dev2. left_behind env \<noteq> {} \<and> left_behind env \<subseteq> ns \<and> exclusive ns env2 \<and> 0 \<le> me_eal env2 \<longrightarrow>
        (\<exists>tr2. ktsnd_main (ops2 :: 'd dpdk) env2 sp2 block2 dev2 = Inr (- 1, tr2, [EalInit (me_eal env2)], []) \<and>
           linked ns tr2 = ns))"
  proof (intro impI conjI allI; (elim conjE)?)
    assume "r \<noteq> 0"
    note e = error_leaves [OF assms this]
    show "r = - 1" "EalCleanup \<notin> set eth" "linked {} tr = left_behind env" using e by simp_all
  qed (rule later)
qed

text \<open>A start with given descriptors, on which everything else succeeds but perhaps the DPDK pool.\<close>

definition demo_env :: "int \<Rightarrow> int \<Rightarrow> bool \<Rightarrow> main_env" where
  "demo_env fd1 fd2 pool = \<lparr>me_eal = 0,
     me_data = \<lparr>ans_malloc = True, ans_fd = fd1, ans_ftruncate = 0, ans_mmap = Some 0x7F0000000000\<rparr>,
     me_ctrl = \<lparr>ans_malloc = True, ans_fd = fd2, ans_ftruncate = 0, ans_mmap = Some 0x7F0000200000\<rparr>,
     me_page = 4096, me_handle = True, me_pool = pool,
     me_port = \<lparr>ea_valid = True, ea_info = (0, 9000), ea_configure = 0, ea_mtu = 0, ea_adjust = (0, 1024, 1024),
       ea_socket = 0, ea_rxq = (\<lambda>q. 0), ea_txq = (\<lambda>q. 0), ea_start = 0\<rparr>,
     me_input = []\<rparr>"

definition no_dpdk :: "unit dpdk" where
  "no_dpdk = \<lparr>rte_pktmbuf_alloc = (\<lambda>d. (None, d)), rte_eth_tx_burst = (\<lambda>d b. (0, d)), rte_ipv4_cksum = (\<lambda>h. 0)\<rparr>"

lemma demo_main:
  "\<exists>r tr eth acts. ktsnd_main ops (demo_env fd1 fd2 pool) 0 block dev = Inr (r, tr, eth, acts)"
proof -
  obtain l shm where "ktsnd_init 0x7F0000000000 4096 0 block = Inr (l, shm, kt_prio_queue_init 127 block)"
    using ktsnd_init_ok [of "0x7F0000000000" 0 block] by auto
  then show ?thesis
    by (auto simp: ktsnd_main_def demo_env_def kt_memory_create_def kt_memory_alloc_def Let_def split: prod.splits)
qed

lemmas demo_names = left_behind_def opens_def exclusive_def demo_env_def
  KT_DEFAULT_SHARED_DATA_MEMORY_NAME_def KT_DEFAULT_SHARED_CTRL_MEMORY_NAME_def

text \<open>
  A normal run; a run without DPDK pool, which leaves both names; a run that is refused the control
  segment, which leaves one; and the start after that, which is refused.
\<close>

theorem daemon_exit_segments_witness:
  "(\<exists>tr eth acts. ktsnd_main no_dpdk (demo_env 3 4 True) 0 (replicate 127 \<lparr>prio = 0, data = 0\<rparr>) () = Inr (0, tr, eth, acts) \<and>
     linked {} tr = {} \<and> last eth = EalCleanup \<and> held_blocks (after_calls nothing_held tr) = 2) \<and>
   (\<exists>tr eth acts. ktsnd_main no_dpdk (demo_env 3 4 False) 0 [] () = Inr (- 1, tr, eth, acts) \<and>
     linked {} tr = {''ktsnd_data_memory'', ''ktsnd_meta_memory''}) \<and>
   (\<exists>tr eth acts. ktsnd_main no_dpdk (demo_env 3 (- 1) True) 0 [] () = Inr (- 1, tr, eth, acts) \<and>
     linked {} tr = {''ktsnd_data_memory''}) \<and>
   (\<exists>tr2. ktsnd_main no_dpdk (demo_env (- 1) 4 True) 0 [] () = Inr (- 1, tr2, [EalInit 0], []))"
proof (intro conjI)
  obtain r tr eth acts where m: "ktsnd_main no_dpdk (demo_env 3 4 True) 0 (replicate 127 \<lparr>prio = 0, data = 0\<rparr>) () = Inr (r, tr, eth, acts)"
    using demo_main [of no_dpdk] by metis
  show "\<exists>tr eth acts. ktsnd_main no_dpdk (demo_env 3 4 True) 0 (replicate 127 \<lparr>prio = 0, data = 0\<rparr>) () = Inr (0, tr, eth, acts) \<and>
     linked {} tr = {} \<and> last eth = EalCleanup \<and> held_blocks (after_calls nothing_held tr) = 2"
    using daemon_exit_segments [OF m] m by (auto simp: opens_def demo_env_def)
next
  obtain r tr eth acts where m: "ktsnd_main no_dpdk (demo_env 3 4 False) 0 [] () = Inr (r, tr, eth, acts)"
    using demo_main [of no_dpdk] by metis
  show "\<exists>tr eth acts. ktsnd_main no_dpdk (demo_env 3 4 False) 0 [] () = Inr (- 1, tr, eth, acts) \<and>
     linked {} tr = {''ktsnd_data_memory'', ''ktsnd_meta_memory''}"
    using daemon_exit_segments [OF m] m by (auto simp: demo_names)
next
  obtain r tr eth acts where m: "ktsnd_main no_dpdk (demo_env 3 (- 1) True) 0 [] () = Inr (r, tr, eth, acts)"
    using demo_main [of no_dpdk] by metis
  have lb: "left_behind (demo_env 3 (- 1) True) = {''ktsnd_data_memory''}" by (simp add: demo_names)
  note p = daemon_exit_segments [OF m]
  have r: "r \<noteq> 0" using p [THEN conjunct1] by (simp add: demo_names)
  note q = p [THEN conjunct2, THEN conjunct2, THEN mp, OF r, unfolded lb]
  show "\<exists>tr eth acts. ktsnd_main no_dpdk (demo_env 3 (- 1) True) 0 [] () = Inr (- 1, tr, eth, acts) \<and>
     linked {} tr = {''ktsnd_data_memory''}" using m q by auto
  have "\<exists>tr2. ktsnd_main no_dpdk (demo_env (- 1) 4 True) 0 [] () =
      Inr (- 1, tr2, [EalInit (me_eal (demo_env (- 1) 4 True))], []) \<and> linked {''ktsnd_data_memory''} tr2 = {''ktsnd_data_memory''}"
    by (rule q [THEN conjunct2, THEN conjunct2, THEN conjunct2, THEN spec, THEN spec, THEN spec, THEN spec,
          THEN spec, THEN spec, THEN mp]) (simp add: demo_names)
  then show "\<exists>tr2. ktsnd_main no_dpdk (demo_env (- 1) 4 True) 0 [] () = Inr (- 1, tr2, [EalInit 0], [])"
    by (auto simp: demo_env_def)
qed

end
