(* ===== verification/KT_Sockd.thy ===== *)
theory KT_Sockd
  imports KT_Daemon_Main
begin

unbundle bit_operations_syntax

section \<open>The socket daemon (\<open>src/ktsnd_socket.c\<close>)\<close>

text \<open>
  The older variant of the daemon, without DPDK: the same segment with rings of 100 elements and a
  main loop that returns the buffer of a due packet without transmitting it (the transmission is a
  comment in the source). Shown here: with 100 elements the free ring hands the same buffer out
  again at once; without new messages no pending packet is ever looked at.
\<close>

subsection \<open>Laying out the segment\<close>

definition sockd_elem_count :: u32 where "sockd_elem_count = 100"

definition sockd_ring_block :: "kt_page_allocator \<Rightarrow> u64 list" where
  "sockd_ring_block al =
     replicate ((reserved_bytes al (ringbuf_qsize sockd_elem_count 1) - sizeof_kt_ringbuf) div 8) 0"

text \<open>The loop offers as many indices as the ring has elements; what does not fit is not noticed.\<close>

definition sockd_fill :: "nat \<Rightarrow> kt_ringbuf \<Rightarrow> kt_ringbuf res" where
  "sockd_fill sp rb =
     rfold (\<lambda>rb i. rbind (kt_ringbuf_enqueue_burst sp rb [of_nat i] 8 1) (\<lambda>(rb', n, fs). Inr rb'))
       rb [0..<unat sockd_elem_count]"

definition sockd_init ::
  "u64 \<Rightarrow> u32 \<Rightarrow> nat \<Rightarrow> kt_pq_node list \<Rightarrow> (kt_mem_layout \<times> kt_shm \<times> kt_prio_queue) res" where
  "sockd_init dat psize sp block =
     rbind (kt_page_allocator_make dat KT_DEFAULT_MEMORY_SIZE psize) (\<lambda>h.
     case h of None \<Rightarrow> Inl DivByZero | Some al \<Rightarrow>
     rbind (kt_ringbuf_create page_alloc_alloc al ''RB_tx'' sockd_elem_count 1 (sockd_ring_block al)) (\<lambda>(al1, tx).
     rbind (kt_ringbuf_create page_alloc_alloc al1 ''RB_free'' sockd_elem_count 1 (sockd_ring_block al1)) (\<lambda>(al2, fr).
     case fr of None \<Rightarrow> Inl NullDeref | Some (fr_addr, fr_ring) \<Rightarrow>
     rbind (sockd_fill sp fr_ring) (\<lambda>fr_ring'.
     let mbuf_bytes = of_nat sizeof_kt_mbuf * sockd_elem_count;
         md_bytes = of_nat sizeof_kt_metadata * sockd_elem_count
     in
     rbind (page_alloc_alloc al2 mbuf_bytes) (\<lambda>(al3, mbufs).
     rbind (page_alloc_alloc al3 md_bytes) (\<lambda>(al4, mds).
     case (tx, mbufs, mds) of
       (Some (tx_addr, tx_ring), Some mb_addr, Some md_addr) \<Rightarrow>
         Inr (\<lparr>tx_ring_offset = tx_addr - dat, free_ring_offset = fr_addr - dat,
               mbuf_pool_offset = mb_addr - dat, metadata_pool_offset = md_addr - dat\<rparr>,
              \<lparr>shm_tx = tx_ring, shm_free = fr_ring',
               shm_mbufs = replicate (reserved_bytes al2 mbuf_bytes) 0,
               shm_metadata = replicate (reserved_bytes al3 md_bytes div sizeof_kt_metadata) zero_metadata\<rparr>,
              kt_prio_queue_init (unat sockd_elem_count) block)
     | _ \<Rightarrow> Inl NullDeref))))))"

subsection \<open>The main loop\<close>

record sockd =
  sd_shm :: kt_shm
  sd_queue :: kt_prio_queue
  sd_printed :: "kt_metadata list"

definition wakeup_ns :: int where "wakeup_ns = 10000"

datatype sockd_action = NoData | NotDue | Returned u64

text \<open>Printing the metadata of a new packet and inserting it.\<close>

definition sockd_insert :: "sockd \<Rightarrow> u64 \<Rightarrow> sockd res" where
  "sockd_insert st offset =
     rbind (arr_get (shm_metadata (sd_shm st)) (unat offset)) (\<lambda>md.
     rbind (kt_prio_queue_insert (sd_queue st) (i64_of_u64 (md_txtime md)) offset) (\<lambda>(q, r).
     Inr (st\<lparr>sd_queue := q, sd_printed := sd_printed st @ [md]\<rparr>)))"

text \<open>One due packet is taken out and its buffer returned; \<open>clock\<close> is the first reading of the clock.\<close>

definition sockd_release :: "nat \<Rightarrow> int \<times> int \<Rightarrow> sockd \<Rightarrow> (sockd \<times> sockd_action) res" where
  "sockd_release sp clock st =
     rbind (kt_get_realtime_ns (fst clock) (snd clock)) (\<lambda>now.
     if pq_size (sd_queue st) = 0 then Inr (st, NotDue)
     else
       rbind (kt_prio_queue_getmin (sd_queue st)) (\<lambda>txtime.
       rbind (i64_checked (txtime - wakeup_ns)) (\<lambda>due.
       if now \<le> due then Inr (st, NotDue)
       else
         rbind (kt_prio_queue_extract_min (sd_queue st) True) (\<lambda>(q, r, d).
         if r < 0 then Inr (st\<lparr>sd_queue := q\<rparr>, NotDue)
         else case d of
           None \<Rightarrow> Inl Indeterminate
         | Some mbuf_index \<Rightarrow>
             rbind (kt_ringbuf_enqueue_burst sp (shm_free (sd_shm st)) [mbuf_index] 8 1) (\<lambda>(rb, n, fs).
             Inr (st\<lparr>sd_queue := q, sd_shm := (sd_shm st)\<lparr>shm_free := rb\<rparr>\<rparr>, Returned mbuf_index))))))"

text \<open>An iteration: with no new data it starts over without looking at the queue.\<close>

definition sockd_iter :: "nat \<Rightarrow> u64 list \<Rightarrow> int \<times> int \<Rightarrow> sockd \<Rightarrow> (sockd \<times> sockd_action) res" where
  "sockd_iter sp table clock st =
     rbind (kt_ringbuf_dequeue_burst sp (shm_tx (sd_shm st)) table 8 8) (\<lambda>(rb, table', nb_elem, av).
     let st1 = st\<lparr>sd_shm := (sd_shm st)\<lparr>shm_tx := rb\<rparr>\<rparr> in
     if nb_elem = 0 then Inr (st1, NoData)
     else rbind (rfold sockd_insert st1 (take (unat nb_elem) table')) (sockd_release sp clock))"

fun sockd_loop ::
  "nat \<Rightarrow> (u64 list \<times> int \<times> int) list \<Rightarrow> sockd \<Rightarrow> (sockd \<times> sockd_action list) res" where
  "sockd_loop sp [] st = Inr (st, [])"
| "sockd_loop sp ((table, clock) # rest) st =
     rbind (sockd_iter sp table clock st) (\<lambda>(st1, a).
     rbind (sockd_loop sp rest st1) (\<lambda>(st2, as). Inr (st2, a # as)))"

text \<open>
  \<open>main\<close>: as in \<open>ktsnd.c\<close> without DPDK. \<open>page\<close> is the page size, \<open>handle\<close> whether the allocator's handle
  could be allocated, the last argument the iterations until the signal.
\<close>

definition sockd_main ::
  "posix_answers \<Rightarrow> posix_answers \<Rightarrow> u32 \<Rightarrow> bool \<Rightarrow> nat \<Rightarrow> kt_pq_node list \<Rightarrow> (u64 list \<times> int \<times> int) list \<Rightarrow>
   (int \<times> posix_call list \<times> sockd_action list) res" where
  "sockd_main an_data an_ctrl page handle sp block input =
     (let (mem, tr1) = kt_memory_create an_data KT_DEFAULT_SHARED_DATA_MEMORY_NAME (ucast KT_DEFAULT_MEMORY_SIZE) in
      case mem of
        None \<Rightarrow> Inr (- 1, tr1, [])
      | Some memory \<Rightarrow>
          let (ctrl, tr2) = kt_memory_create an_ctrl KT_DEFAULT_SHARED_CTRL_MEMORY_NAME (ucast page) in
          (case ctrl of
             None \<Rightarrow> Inr (- 1, tr1 @ tr2, [])
           | Some memory_ctrl \<Rightarrow>
               if \<not> handle then Inl NullDeref
               else
                 rbind (sockd_init (mem_addr memory) page sp block) (\<lambda>(layout, shm, queue).
                 rbind (sockd_loop sp input \<lparr>sd_shm = shm, sd_queue = queue, sd_printed = []\<rparr>) (\<lambda>(st, acts).
                 Inr (0, tr1 @ tr2 @ [Malloc True, Malloc (block \<noteq> [])] @ ktsnd_cleanup memory_ctrl memory, acts)))))"

lemma sockd_main_zero:
  assumes "sockd_main an_data an_ctrl page handle sp block input = Inr (0, tr, acts)"
  shows "after_calls nothing_held tr = nothing_held\<lparr>held_blocks := 1 + of_bool (block \<noteq> [])\<rparr> \<and> linked {} tr = {}"
proof -
  obtain m tr1 mc tr2 where d: "kt_memory_create an_data KT_DEFAULT_SHARED_DATA_MEMORY_NAME
        (ucast KT_DEFAULT_MEMORY_SIZE) = (Some m, tr1)"
      "kt_memory_create an_ctrl KT_DEFAULT_SHARED_CTRL_MEMORY_NAME (ucast page) = (Some mc, tr2)"
      "tr = tr1 @ tr2 @ [Malloc True, Malloc (block \<noteq> [])] @ ktsnd_cleanup mc m"
    using assms by (auto simp: sockd_main_def Let_def rbind_eq_Inr split: prod.splits option.splits if_splits)
  then show ?thesis
    using destroyed_linked [OF d(1) names_short(1) d(2) names_short(2), of True "block \<noteq> []"]
      destroyed_held [OF d(1) segment_sizes(1) d(2) segment_sizes(2), of True "block \<noteq> []"] by simp
qed

subsection \<open>No new data\<close>

lemma dequeue_empty:
  assumes "tail (prod rb) = head (cons rb)"
  shows "kt_ringbuf_dequeue_burst sp rb table 8 8 = Inr (rb, table, 0, 0)"
  by (simp add: kt_ringbuf_dequeue_burst_def ringbuf_do_dequeue_elems_def move_cons_head.simps
      cons_attempt_def assms Let_def)

lemma sockd_iter_no_data:
  assumes "tail (prod (shm_tx (sd_shm st))) = head (cons (shm_tx (sd_shm st)))"
  shows "sockd_iter sp table clock st = Inr (st, NoData)"
  by (simp add: sockd_iter_def dequeue_empty [OF assms])

text \<open>
  C40. As long as no application sends, the socket daemon does nothing at all, for any number of
  iterations and whatever the clock says: packets in its queue stay there although their
  transmission time comes and passes, and their buffers are not returned.
\<close>

theorem sockd_starves:
  assumes "tail (prod (shm_tx (sd_shm st))) = head (cons (shm_tx (sd_shm st)))"
  shows "sockd_loop sp entries st = Inr (st, map (\<lambda>e. NoData) entries)"
  by (induction entries) (auto simp: sockd_iter_no_data [OF assms])

text \<open>A daemon with one packet pending, due at time 5.\<close>

definition demo_sockd :: sockd where
  "demo_sockd = \<lparr>sd_shm = \<lparr>shm_tx = ringbuf_header ''RB_tx'' 100 1 (replicate 496 0),
       shm_free = ringbuf_header ''RB_free'' 100 1 (replicate 496 0), shm_mbufs = [], shm_metadata = []\<rparr>,
     sd_queue = \<lparr>elems = [\<lparr>prio = 5, data = 3\<rparr>], pq_cap = 100, pq_size = 1\<rparr>, sd_printed = []\<rparr>"

theorem sockd_starves_witness:
  "sockd_loop 0 [([], 1, 0), ([], 2, 0)] demo_sockd = Inr (demo_sockd, [NoData, NoData])"
  using sockd_starves [of demo_sockd 0 "[([], 1, 0), ([], 2, 0)]"]
  by (simp add: demo_sockd_def ringbuf_header_def)

subsection \<open>Rings of 100 elements\<close>

text \<open>A ring of \<open>ktsnd_socket.c\<close> with contents \<open>r\<close>, after \<open>k\<close> elements were stored and \<open>j\<close> taken.\<close>

definition ring100 :: "u64 list \<Rightarrow> nat \<Rightarrow> nat \<Rightarrow> kt_ringbuf" where
  "ring100 r k j = (ringbuf_header ''RB_free'' 100 1 r)\<lparr>prod := \<lparr>head = of_nat k, tail = of_nat k\<rparr>,
     cons := \<lparr>head = of_nat j, tail = of_nat j\<rparr>\<rparr>"

definition slot100 :: "nat \<Rightarrow> nat" where "slot100 k = unat (of_nat k AND 99 :: u32)"

lemma slot100_le: "slot100 k \<le> 99"
proof -
  have "(of_nat k AND 99 :: u32) \<le> 99" by (rule word_and_le1)
  then show ?thesis by (simp add: slot100_def word_le_nat_alt)
qed

lemma idx100: "(of_nat k AND 99 :: u32) + 1 \<le> 100"
proof -
  have "unat ((of_nat k AND 99 :: u32) + 1) = slot100 k + 1"
    using slot100_le [of k] by (simp add: slot100_def unat_word_ariths)
  then show ?thesis using slot100_le [of k] by (simp add: word_le_nat_alt)
qed

lemma put100:
  assumes "j \<le> k" "k < j + 99" "100 \<le> length r" "k < 2 ^ 32"
  shows "\<exists>fs. kt_ringbuf_enqueue_burst sp (ring100 r k j) [x] 8 1 =
    Inr (ring100 (r[slot100 k := x]) (k + 1) j, 1, fs)"
proof -
  have d: "(of_nat k - of_nat j :: u32) = of_nat (k - j)" using assms(1) by (simp add: of_nat_diff)
  have u: "unat (of_nat (k - j) :: u32) = k - j" using assms by (intro unat_of_nat_u32) simp_all
  have "(of_nat (k - j) :: u32) < 99" using u assms(1,2) unfolding word_less_nat_alt by simp
  then have n: "(99 - of_nat (k - j) :: u32) \<noteq> 0" by auto
  have "slot100 k < length r" using slot100_le [of k] assms(3) by simp
  then show ?thesis
    using n idx100 [of k]
    unfolding kt_ringbuf_enqueue_burst_def ringbuf_do_enqueue_elems_def
    by (subst move_prod_head_spurious) (simp add: move_prod_head.simps [of 0] prod_attempt_def ring100_def ringbuf_header_def d Let_def
        ringbuf_enqueue_elems_def copy_quads.simps copy_rest_def copy_one_def slot100_def add.commute)
qed

lemma get100:
  assumes "j < k" "k \<le> j + 99" "100 \<le> length r" "k < 2 ^ 32"
  shows "\<exists>av. kt_ringbuf_dequeue_burst sp (ring100 r k j) [junk] 8 1 =
    Inr (ring100 r k (j + 1), [r ! slot100 j], 1, av)"
proof -
  have d: "(of_nat k - of_nat j :: u32) = of_nat (k - j)" using assms(1) by (simp add: of_nat_diff)
  have "unat (of_nat (k - j) :: u32) = k - j" using assms by (intro unat_of_nat_u32) simp_all
  then have n: "\<not> (of_nat (k - j) :: u32) < 1" using assms by (simp add: word_less_nat_alt)
  have "slot100 j < length r" using slot100_le [of j] assms(3) by simp
  then show ?thesis
    using n idx100 [of j]
    unfolding kt_ringbuf_dequeue_burst_def ringbuf_do_dequeue_elems_def
    by (subst move_cons_head_spurious) (simp add: move_cons_head.simps [of 0] cons_attempt_def ring100_def ringbuf_header_def d Let_def
        ringbuf_dequeue_elems_def copy_quads.simps copy_rest_def copy_one_def slot100_def add.commute)
qed

lemma full100: "kt_ringbuf_enqueue_burst sp (ring100 r 99 0) [x] 8 1 = Inr (ring100 r 99 0, 0, 0)"
  unfolding kt_ringbuf_enqueue_burst_def ringbuf_do_enqueue_elems_def
  by (subst move_prod_head_spurious)
     (simp add: move_prod_head.simps [of 0] prod_attempt_def ring100_def ringbuf_header_def Let_def)

definition stored100 :: "nat \<Rightarrow> u64 list \<Rightarrow> u64 list" where
  "stored100 k r = foldl (\<lambda>r i. r[slot100 i := of_nat i]) r [0..<k]"

lemma length_stored100 [simp]: "length (stored100 k r) = length r"
  by (induction k) (auto simp: stored100_def)

lemma stored100_Suc: "stored100 (Suc k) r = (stored100 k r)[slot100 k := of_nat k]"
  by (simp add: stored100_def)

text \<open>A slot holds the last index that was stored there.\<close>

lemma stored100_nth:
  "i < k \<Longrightarrow> list_all (\<lambda>m. slot100 m \<noteq> slot100 i) [Suc i..<k] \<Longrightarrow> 100 \<le> length r \<Longrightarrow>
   stored100 k r ! slot100 i = of_nat i"
proof (induction k)
  case (Suc k)
  have "slot100 i < length r" using slot100_le [of i] Suc.prems(3) by simp
  then show ?case using Suc by (cases "i = k") (auto simp: stored100_Suc)
qed simp

lemma fill100:
  "k \<le> 99 \<Longrightarrow> 100 \<le> length r \<Longrightarrow>
   rfold (\<lambda>rb i. rbind (kt_ringbuf_enqueue_burst sp rb [of_nat i] 8 1) (\<lambda>(rb', n, fs). Inr rb'))
     (ring100 r 0 0) [0..<k] = Inr (ring100 (stored100 k r) k 0)"
proof (induction k)
  case (Suc k)
  then show ?case
    using put100 [of 0 k "stored100 k r" sp "of_nat k"] by (auto simp: rfold_append stored100_Suc)
qed (simp add: stored100_def)

lemma sockd_fill_ok:
  assumes "100 \<le> length r"
  shows "sockd_fill sp (ring100 r 0 0) = Inr (ring100 (stored100 99 r) 99 0)"
proof -
  have "[0..<unat sockd_elem_count] = [0..<99] @ [99]"
    using upt_Suc_append [of 0 99] by (simp add: sockd_elem_count_def del: upt_Suc)
  then show ?thesis
    using fill100 [of 99 r sp] assms full100 [of sp "stored100 99 r" 99]
    by (simp add: sockd_fill_def rfold_append del: upt_Suc)
qed

lemma slots_shared:
  "slot100 28 = 0" "slot100 29 = 1" "slot100 30 = 2" "slot100 31 = 3"
  "slot100 0 = 0" "slot100 1 = 1" "slot100 2 = 2" "slot100 3 = 3" "slot100 4 = 0"
  "list_all (\<lambda>m. slot100 m \<noteq> 0) [29..<99]" "list_all (\<lambda>m. slot100 m \<noteq> 1) [30..<99]"
  "list_all (\<lambda>m. slot100 m \<noteq> 2) [31..<99]" "list_all (\<lambda>m. slot100 m \<noteq> 3) [32..<99]"
  by code_simp+

text \<open>What an application does for a buffer: take one index from the free ring.\<close>

definition take_index :: "nat \<Rightarrow> u64 \<Rightarrow> kt_ringbuf \<Rightarrow> (u64 \<times> kt_ringbuf) res" where
  "take_index sp junk rb =
     rbind (kt_ringbuf_dequeue_burst sp rb [junk] 8 1) (\<lambda>(rb', table, n, av). Inr (table ! 0, rb'))"

lemma take_index100:
  "j < k \<Longrightarrow> k \<le> j + 99 \<Longrightarrow> 100 \<le> length r \<Longrightarrow> k < 2 ^ 32 \<Longrightarrow>
   take_index sp junk (ring100 r k j) = Inr (r ! slot100 j, ring100 r k (j + 1))"
  using get100 [of j k r sp junk] by (auto simp: take_index_def)

lemma first_indices:
  assumes "100 \<le> length r"
  shows "riter (take_index sp junk) 5 (ring100 (stored100 99 r) 99 0) =
    Inr ([28, 29, 30, 31, 28], ring100 (stored100 99 r) 99 5)"
proof -
  have last: "list_all (\<lambda>m. slot100 m \<noteq> slot100 28) [Suc 28..<99]" "list_all (\<lambda>m. slot100 m \<noteq> slot100 29) [Suc 29..<99]"
      "list_all (\<lambda>m. slot100 m \<noteq> slot100 30) [Suc 30..<99]" "list_all (\<lambda>m. slot100 m \<noteq> slot100 31) [Suc 31..<99]"
    using slots_shared(10-13) unfolding slots_shared(1-4) Suc_numeral by (simp_all only: semiring_norm)
  have v: "stored100 99 r ! 0 = 28" "stored100 99 r ! 1 = 29" "stored100 99 r ! 2 = 30" "stored100 99 r ! 3 = 31"
    using stored100_nth [OF _ last(1) assms] stored100_nth [OF _ last(2) assms]
      stored100_nth [OF _ last(3) assms] stored100_nth [OF _ last(4) assms]
    unfolding slots_shared(1-4) by simp_all
  let ?R = "ring100 (stored100 99 r) 99"
  have t: "take_index sp junk (?R j) = Inr (stored100 99 r ! slot100 j, ?R m)" if "j < 99" "m = j + 1" for j m
    unfolding that(2) using that(1) assms by (intro take_index100) simp_all
  have t1: "take_index sp junk (?R 0) = Inr (28, ?R 1)" using t [of 0 1] v slots_shared(5-9) by simp
  have t2: "take_index sp junk (?R 1) = Inr (29, ?R 2)" using t [of 1 2] v slots_shared(5-9) by simp
  have t3: "take_index sp junk (?R 2) = Inr (30, ?R 3)" using t [of 2 3] v slots_shared(5-9) by simp
  have t4: "take_index sp junk (?R 3) = Inr (31, ?R 4)" using t [of 3 4] v slots_shared(5-9) by simp
  have t5: "take_index sp junk (?R 4) = Inr (28, ?R 5)" using t [of 4 5] v slots_shared(5-9) by simp
  have five: "(5 :: nat) = Suc (Suc (Suc (Suc (Suc 0))))" by simp
  have "riter (take_index sp junk) (Suc (Suc (Suc (Suc (Suc 0))))) (?R 0) = Inr ([28, 29, 30, 31, 28], ?R 5)"
    by (simp only: riter.simps t1 t2 t3 t4 t5 rbind_Inr prod.case)
  then show ?thesis unfolding five [symmetric] .
qed

lemma sockd_create:
  assumes "pa_bump al k" "page_size al = 4096" "k + 1 \<le> pa_pages al"
  shows "\<exists>al'. kt_ringbuf_create page_alloc_alloc al name sockd_elem_count 1 (sockd_ring_block al) =
      Inr (al', Some (pa_addr al k, ringbuf_header name 100 1 (replicate 496 0))) \<and> pa_bump al' (k + 1) \<and>
    pa_pages al' = pa_pages al \<and> page_size al' = page_size al \<and> pa_addr al' = pa_addr al"
proof -
  have q: "ringbuf_qsize sockd_elem_count 1 = 228"
    by (simp add: ringbuf_qsize_def sockd_elem_count_def sizeof_kt_ringbuf_def)
  have n: "unat (pages_for al 228) = 1" using assms(2) by (simp add: pages_for_def)
  have blk: "sockd_ring_block al = replicate 496 0"
    using n assms(2) by (simp add: sockd_ring_block_def reserved_bytes_def q sizeof_kt_ringbuf_def)
  show ?thesis
    using bump_alloc [OF assms(1), of 228 1] n assms(3)
    by (auto simp: kt_ringbuf_create_def q blk) (simp_all add: sockd_elem_count_def)
qed

lemma sockd_init_ok:
  assumes "unat dat mod 4096 = 0" "unat dat + 2 ^ 21 \<le> 2 ^ 64"
  shows "\<exists>l shm. sockd_init dat 4096 sp block = Inr (l, shm, kt_prio_queue_init 100 block) \<and>
    shm_free shm = ring100 (stored100 99 (replicate 496 0)) 99 0"
proof -
  let ?al = "daemon_pa dat" and ?ring = "\<lambda>name. ringbuf_header name 100 1 (replicate 496 0)"
  have b0: "pa_bump ?al 0" by (rule bump_init [OF daemon_pa_init])
  obtain al1 where a1: "kt_ringbuf_create page_alloc_alloc ?al ''RB_tx'' sockd_elem_count 1 (sockd_ring_block ?al) =
      Inr (al1, Some (pa_addr ?al 0, ?ring ''RB_tx''))" "pa_bump al1 1" "pa_pages al1 = 255" "page_size al1 = 4096"
    using sockd_create [OF b0, of "''RB_tx''"] by auto
  obtain al2 where a2: "kt_ringbuf_create page_alloc_alloc al1 ''RB_free'' sockd_elem_count 1 (sockd_ring_block al1) =
      Inr (al2, Some (pa_addr al1 1, ?ring ''RB_free''))" "pa_bump al2 2" "pa_pages al2 = 255" "page_size al2 = 4096"
    using sockd_create [OF a1(2), of "''RB_free''"] a1(3,4) by (auto simp: numeral_2_eq_2)
  have "?ring ''RB_free'' = ring100 (replicate 496 0) 0 0" by (simp add: ring100_def ringbuf_header_def)
  then have fr: "sockd_fill sp (?ring ''RB_free'') = Inr (ring100 (stored100 99 (replicate 496 0)) 99 0)"
    by (simp add: sockd_fill_ok)
  have n: "unat (pages_for al2 204800) = 50" using a2(4) by (simp add: pages_for_def)
  obtain al3 where a3: "page_alloc_alloc al2 204800 = Inr (al3, Some (pa_addr al2 2))" "pa_bump al3 52"
      "pa_pages al3 = 255" "page_size al3 = 4096"
    using bump_alloc [OF a2(2) _ n [symmetric]] a2(3,4) by auto
  have n': "unat (pages_for al3 4800) = 2" using a3(4) by (simp add: pages_for_def)
  obtain al4 where a4: "page_alloc_alloc al3 4800 = Inr (al4, Some (pa_addr al3 52))"
    using bump_alloc [OF a3(2) _ n' [symmetric]] a3(3) by auto
  have init: "kt_page_allocator_make dat KT_DEFAULT_MEMORY_SIZE 4096 = Inr (Some ?al)"
    using daemon_pa_init [of dat] by (simp add: kt_page_allocator_make_def KT_DEFAULT_MEMORY_SIZE_def)
  have b: "of_nat sizeof_kt_mbuf * sockd_elem_count = 204800" "of_nat sizeof_kt_metadata * sockd_elem_count = 4800"
      "unat sockd_elem_count = 100"
    by (simp_all add: sizeof_kt_mbuf_def sizeof_kt_metadata_def sockd_elem_count_def)
  show ?thesis
    using init a1(1) a2(1) fr a3(1) a4 by (simp add: sockd_init_def Let_def b)
qed

text \<open>
  After the socket daemon has laid out a page-aligned segment, the first five buffers that
  applications take from the free ring are 28, 29, 30, 31 and again 28: two messages get the same
  buffer although none was returned, and the second overwrites the first. The ring has 100
  elements, which is not a power of two.
\<close>

theorem sockd_shares_buffers:
  assumes "unat dat mod 4096 = 0" "unat dat + 2 ^ 21 \<le> 2 ^ 64"
  shows "\<exists>l shm rb. sockd_init dat 4096 sp block = Inr (l, shm, kt_prio_queue_init 100 block) \<and>
    riter (take_index sp junk) 5 (shm_free shm) = Inr ([28, 29, 30, 31, 28], rb)"
proof -
  obtain l shm where "sockd_init dat 4096 sp block = Inr (l, shm, kt_prio_queue_init 100 block)"
      "shm_free shm = ring100 (stored100 99 (replicate 496 0)) 99 0"
    using sockd_init_ok [OF assms, of sp block] by blast
  then show ?thesis using first_indices [of "replicate 496 0" sp junk] by auto
qed

theorem sockd_shares_buffers_witness:
  "\<exists>l shm rb. sockd_init 0x7F0000000000 4096 0 [] = Inr (l, shm, kt_prio_queue_init 100 []) \<and>
    riter (take_index 0 0) 5 (shm_free shm) = Inr ([28, 29, 30, 31, 28], rb)"
  using sockd_shares_buffers [of "0x7F0000000000" 0 "[]" 0] by simp

end
