(* ===== verification/KT_Startup.thy ===== *)
theory KT_Startup
  imports KT_System
begin

section \<open>Start of an application (\<open>__libc_start_main\<close> of \<open>src/libktsn.c\<close>)\<close>

text \<open>
  Before \<open>main\<close> of the application runs, the library resolves the functions it replaces, attaches to
  the two segments, turns the published offsets into pointers and collects the interfaces. Shown
  here: the pointers are those of the daemon, moved to the application's mapping, and stay inside
  it; every IPv4 interface is in the list once with a hardware address the system gave for its name.
\<close>

subsection \<open>The start-up function\<close>

record kt_pointers =
  p_tx_ring :: u64
  p_free_ring :: u64
  p_mbuf_pool :: u64
  p_metadata_pool :: u64

definition layout_pointers :: "u64 \<Rightarrow> kt_mem_layout \<Rightarrow> kt_pointers" where
  "layout_pointers base l =
     \<lparr>p_tx_ring = base + tx_ring_offset l, p_free_ring = base + free_ring_offset l,
      p_mbuf_pool = base + mbuf_pool_offset l, p_metadata_pool = base + metadata_pool_offset l\<rparr>"

text \<open>
  The system as it answers: the calls for the two segments, what the control segment holds, the
  interfaces. Symbol resolution is the parameter \<open>libc\<close>.
\<close>

record 'o start_env =
  se_data :: posix_answers
  se_ctrl :: posix_answers
  se_layout :: kt_mem_layout
  se_ifaddrs :: "ifaddr list option"
  se_getnameinfo :: "sockaddr \<Rightarrow> int"
  se_nametoindex :: "string \<Rightarrow> int"
  se_ioctl :: "int \<Rightarrow> string \<Rightarrow> u8 list option"
  se_rax :: "'o ktsn \<Rightarrow> int"
  se_junk_mac :: "u8 list"

text \<open>
  The result: -1 with the calls made, or the pointers and the library's state with which the
  application is started. Both segments are attached with the size of the data segment.
\<close>

definition libc_start_main ::
  "'o libc \<Rightarrow> 'o start_env \<Rightarrow> 'o ktsn \<Rightarrow> (posix_call list \<times> (kt_pointers \<times> 'o ktsn) option) res" where
  "libc_start_main libc env st =
     (let (mem, tr1) = kt_memory_attach (se_data env) KT_DEFAULT_SHARED_DATA_MEMORY_NAME
            (ucast KT_DEFAULT_MEMORY_SIZE) in
      case mem of
        None \<Rightarrow> Inr (tr1, None)
      | Some memory \<Rightarrow>
          let (ctrl, tr2) = kt_memory_attach (se_ctrl env) KT_DEFAULT_SHARED_CTRL_MEMORY_NAME
                (ucast KT_DEFAULT_MEMORY_SIZE) in
          (case ctrl of
             None \<Rightarrow> Inr (tr1 @ tr2, None)
           | Some memory_ctrl \<Rightarrow>
               let ptrs = layout_pointers (mem_addr memory) (se_layout env);
                   st1 = st\<lparr>g_socket_list := [], g_interface_list := []\<rparr>
               in
               rbind (query_interfaces libc (se_rax env) (se_ioctl env) (se_getnameinfo env)
                 (se_nametoindex env) (se_junk_mac env) (se_ifaddrs env) st1) (\<lambda>st2.
               Inr (tr1 @ tr2, Some (ptrs, st2)))))"

subsection \<open>Interfaces\<close>

definition is_ipv4 :: "ifaddr \<Rightarrow> bool" where
  "is_ipv4 e \<longleftrightarrow> (\<exists>a. ifa_addr e = Some (AF_INET, a))"

lemma exists_index: "kt_interface_exists is n \<longleftrightarrow> n \<in> if_index ` set is"
  by (induction "is") auto

text \<open>An interface \<open>i\<close> recorded for the entry \<open>e\<close> of the list that \<open>getifaddrs\<close> gave.\<close>

definition recorded :: "(string \<Rightarrow> int) \<Rightarrow> ifaddr \<Rightarrow> kt_interface \<Rightarrow> bool" where
  "recorded idx e i \<longleftrightarrow> ifa_addr e = Some (AF_INET, if_addr i) \<and> ifa_netmask e = Some (if_netmask i) \<and>
     if_name i = take 16 (ifa_name e) \<and> if_index i = idx (ifa_name e)"

lemma recorded_mac [simp]: "recorded idx e (i\<lparr>if_mac := m\<rparr>) = recorded idx e i"
  by (simp add: recorded_def)

lemma add_interface_step:
  assumes "add_interface gni idx mac is e = Inr is'" "distinct (map if_index is)"
  shows "distinct (map if_index is') \<and>
    if_index ` set is' = if_index ` set is \<union> (if is_ipv4 e then {idx (ifa_name e)} else {}) \<and>
    (\<forall>i \<in> set is'. i \<in> set is \<or> recorded idx e i)"
  using assms
  by (auto simp: add_interface_def is_ipv4_def recorded_def exists_index Let_def split: option.splits if_splits)

lemma add_interfaces:
  assumes "rfold (add_interface gni idx mac) ifs l = Inr ifs'" "distinct (map if_index ifs)"
  shows "distinct (map if_index ifs') \<and>
    if_index ` set ifs' = if_index ` set ifs \<union> idx ` ifa_name ` {e \<in> set l. is_ipv4 e} \<and>
    (\<forall>i \<in> set ifs'. i \<in> set ifs \<or> (\<exists>e \<in> set l. recorded idx e i))"
  using assms
proof (induction l arbitrary: ifs)
  case (Cons e l)
  then obtain is1 where a: "add_interface gni idx mac ifs e = Inr is1"
      "rfold (add_interface gni idx mac) is1 l = Inr ifs'"
    by (auto simp: rbind_eq_Inr)
  note b = add_interface_step [OF a(1) Cons.prems(2)]
  note c = Cons.IH [OF a(2) b [THEN conjunct1]]
  have "if_index ` set ifs' = if_index ` set ifs \<union> idx ` ifa_name ` {x \<in> set (e # l). is_ipv4 x}"
    using b c by auto
  then show ?case using b c by fastforce
qed simp

lemma add_interfaces_return:
  assumes "\<And>a. gni a = 0" "\<And>e. e \<in> set l \<Longrightarrow> is_ipv4 e \<Longrightarrow> ifa_netmask e \<noteq> None"
  shows "\<exists>ifs'. rfold (add_interface gni idx mac) ifs l = Inr ifs'"
  using assms(2)
proof (induction l arbitrary: ifs)
  case (Cons e l)
  have "\<exists>is1. add_interface gni idx mac ifs e = Inr is1"
    using assms(1) Cons.prems [of e] by (auto simp: add_interface_def is_ipv4_def Let_def split: option.splits)
  then show ?case using Cons by auto
qed simp

text \<open>
  The hardware addresses, whatever value the queries use as their socket: each one is an answer of
  the system for the interface's own name.
\<close>

definition mac_from :: "(int \<Rightarrow> string \<Rightarrow> u8 list option) \<Rightarrow> kt_interface \<Rightarrow> kt_interface \<Rightarrow> bool" where
  "mac_from ioctl i i' \<longleftrightarrow>
     (\<exists>fd d. 0 \<le> fd \<and> ioctl fd (if_name i) = Some d \<and> i' = i\<lparr>if_mac := take 6 d\<rparr>)"

lemma add_mac_step:
  assumes "query_and_add_mac_address libc rax ioctl i st = Inr (i', st')"
  shows "mac_from ioctl i i' \<and> g_shm st' = g_shm st"
  using assms
  by (auto simp: query_and_add_mac_address_def socket_def close_def mac_from_def Let_def case_prod_unfold
      not_less split: if_splits option.splits)

lemma add_macs_step:
  "add_macs libc rax ioctl is st = Inr (is', st') \<Longrightarrow>
   list_all2 (mac_from ioctl) is is' \<and> g_shm st' = g_shm st"
proof (induction "is" arbitrary: is' st)
  case (Cons i "is")
  then obtain i1 st1 is1 where "query_and_add_mac_address libc rax ioctl i st = Inr (i1, st1)"
      "add_macs libc rax ioctl is st1 = Inr (is1, st')" "is' = i1 # is1"
    by (auto simp: rbind_eq_Inr)
  then show ?case using add_mac_step [of libc rax ioctl i st i1 st1] Cons.IH [of st1 is1] by simp
qed simp

lemma add_macs_return:
  assumes "\<And>os. 0 \<le> fst (default_socket libc os AF_INET 2 0)" "\<And>s n. 0 \<le> rax s \<and> ioctl (rax s) n \<noteq> None"
  shows "\<exists>r. add_macs libc rax ioctl is st = Inr r"
proof (induction "is" arbitrary: st)
  case (Cons i "is")
  let ?s = "fst (socket libc AF_INET 2 0 st)"
  have "\<not> fst (default_socket libc (g_os st) AF_INET 2 0) < 0" using assms(1) [of "g_os st"] by simp
  then have "snd (socket libc AF_INET 2 0 st) = None"
    by (auto simp: socket_def Let_def case_prod_unfold split: option.splits)
  then obtain i1 st1 where "query_and_add_mac_address libc rax ioctl i st = Inr (i1, st1)"
    using assms(2) [of ?s "if_name i"] by (auto simp: query_and_add_mac_address_def case_prod_unfold Let_def)
  moreover obtain is1 st2 where "add_macs libc rax ioctl is st1 = Inr (is1, st2)" using Cons [of st1] by auto
  ultimately show ?case by simp
qed simp

lemma mac_from_keeps:
  assumes "list_all2 (mac_from ioctl) is is'"
  shows "map if_index is' = map if_index is"
    and "i' \<in> set is' \<Longrightarrow> \<exists>i \<in> set is. mac_from ioctl i i'"
  using assms by (induction rule: list_all2_induct) (auto simp: mac_from_def)

text \<open>
  C28. Collecting the interfaces at start. The library's own \<open>socket\<close>, through which the hardware
  addresses are queried, ends without \<open>return\<close>; nothing is assumed of the value its caller finds.
  Whenever the function returns: every interface that has an IPv4 address is in the list exactly once
  under its index, nothing else is in it, each entry has the name, the address and the netmask of one
  of the entries of \<open>getifaddrs\<close> and a hardware address with which the system answered a query
  for that name, and the segment is untouched. It does return if names can be resolved, IPv4 entries
  have a netmask, sockets can be opened and the system answers the queries on the value found.
\<close>

theorem startup_interfaces:
  assumes "g_interface_list st = []"
  shows "(\<forall>st'. query_interfaces libc rax ioctl gni idx mac (Some l) st = Inr st' \<longrightarrow>
      distinct (map if_index (g_interface_list st')) \<and>
      if_index ` set (g_interface_list st') = idx ` ifa_name ` {e \<in> set l. is_ipv4 e} \<and>
      (\<forall>i \<in> set (g_interface_list st'). (\<exists>e \<in> set l. recorded idx e i) \<and>
         (\<exists>fd d. 0 \<le> fd \<and> ioctl fd (if_name i) = Some d \<and> if_mac i = take 6 d)) \<and>
      g_shm st' = g_shm st) \<and>
    ((\<forall>a. gni a = 0) \<and> (\<forall>e \<in> set l. is_ipv4 e \<longrightarrow> ifa_netmask e \<noteq> None) \<and>
      (\<forall>os. 0 \<le> fst (default_socket libc os AF_INET 2 0)) \<and> (\<forall>s n. 0 \<le> rax s \<and> ioctl (rax s) n \<noteq> None) \<longrightarrow>
      (\<exists>st'. query_interfaces libc rax ioctl gni idx mac (Some l) st = Inr st'))"
proof (intro conjI allI impI; (elim conjE)?)
  fix st' assume "query_interfaces libc rax ioctl gni idx mac (Some l) st = Inr st'"
  then obtain is1 is2 st2 where q: "rfold (add_interface gni idx mac) [] l = Inr is1"
      "add_macs libc rax ioctl is1 st = Inr (is2, st2)" "st' = st2\<lparr>g_interface_list := is2\<rparr>"
    using assms by (auto simp: query_interfaces_def rbind_eq_Inr)
  note a = add_interfaces [OF q(1), simplified] and m = add_macs_step [OF q(2)]
  note k = mac_from_keeps [OF m [THEN conjunct1]]
  have "if_index ` set is2 = if_index ` set is1" using arg_cong [OF k(1), of set] by simp
  then show "distinct (map if_index (g_interface_list st'))"
      "if_index ` set (g_interface_list st') = idx ` ifa_name ` {e \<in> set l. is_ipv4 e}"
      "g_shm st' = g_shm st"
    using q(3) a m k(1) by simp_all
  show "\<forall>i \<in> set (g_interface_list st'). (\<exists>e \<in> set l. recorded idx e i) \<and>
      (\<exists>fd d. 0 \<le> fd \<and> ioctl fd (if_name i) = Some d \<and> if_mac i = take 6 d)"
    using q(3) a by (auto dest!: k(2) simp: mac_from_def) blast
next
  assume h: "\<forall>a. gni a = 0" "\<forall>e \<in> set l. is_ipv4 e \<longrightarrow> ifa_netmask e \<noteq> None"
    "\<forall>os. 0 \<le> fst (default_socket libc os AF_INET 2 0)" "\<forall>s n. 0 \<le> rax s \<and> ioctl (rax s) n \<noteq> None"
  obtain is1 where i: "rfold (add_interface gni idx mac) [] l = Inr is1"
    using add_interfaces_return [of gni l idx mac "[]"] h(1,2) by blast
  obtain r where "add_macs libc rax ioctl is1 st = Inr r"
    using add_macs_return [of libc rax ioctl is1 st] h(3,4) by blast
  then show "\<exists>st'. query_interfaces libc rax ioctl gni idx mac (Some l) st = Inr st'"
    using i assms by (simp add: query_interfaces_def case_prod_unfold)
qed

definition demo_ifaddrs :: "ifaddr list" where
  "demo_ifaddrs =
     [\<lparr>ifa_name = ''lo'', ifa_addr = Some (10, \<lparr>sa_half = 0, sa_word = 0\<rparr>), ifa_netmask = None\<rparr>,
      \<lparr>ifa_name = ''eth0'', ifa_addr = Some (AF_INET, \<lparr>sa_half = 0, sa_word = 0x0100000A\<rparr>),
       ifa_netmask = Some \<lparr>sa_half = 0, sa_word = 0x00FFFFFF\<rparr>\<rparr>,
      \<lparr>ifa_name = ''eth0'', ifa_addr = Some (AF_INET, \<lparr>sa_half = 0, sa_word = 0x0101000A\<rparr>),
       ifa_netmask = Some \<lparr>sa_half = 0, sa_word = 0x00FFFFFF\<rparr>\<rparr>]"

definition libc_from_3 :: "int libc" where
  "libc_from_3 = demo_libc\<lparr>default_socket := (\<lambda>n d t p. (3, n))\<rparr>"

text \<open>The value found is 77, which is not the descriptor 3 that was opened.\<close>

theorem startup_interfaces_witness:
  "\<exists>st'. query_interfaces libc_from_3 (\<lambda>s. 77) (\<lambda>fd n. if fd = 77 then Some [1, 2, 3, 4, 5, 6, 0] else None)
      (\<lambda>a. 0) (\<lambda>n. int (length n)) [] (Some demo_ifaddrs)
      \<lparr>g_socket_list = [], g_interface_list = [], g_shm = demo_shm, g_os = 0\<rparr> = Inr st' \<and>
    if_index ` set (g_interface_list st') = {4} \<and> if_mac ` set (g_interface_list st') = {[1, 2, 3, 4, 5, 6]}"
proof -
  let ?st = "\<lparr>g_socket_list = [], g_interface_list = [], g_shm = demo_shm, g_os = 0\<rparr> :: int ktsn"
  let ?ioctl = "\<lambda>(fd :: int) (n :: string). if fd = 77 then Some [1, 2, 3, 4, 5, 6, 0 :: u8] else None"
  let ?q = "query_interfaces libc_from_3 (\<lambda>s. 77) ?ioctl (\<lambda>a. 0) (\<lambda>n. int (length n)) [] (Some demo_ifaddrs) ?st"
  have ip: "{e \<in> set demo_ifaddrs. is_ipv4 e} = set (tl demo_ifaddrs)"
    by (auto simp: demo_ifaddrs_def is_ipv4_def AF_INET_def)
  have nm: "\<forall>e \<in> set demo_ifaddrs. is_ipv4 e \<longrightarrow> ifa_netmask e \<noteq> None"
    by (auto simp: demo_ifaddrs_def is_ipv4_def AF_INET_def)
  have fd: "\<forall>os. 0 \<le> fst (default_socket libc_from_3 os AF_INET 2 0)" by (simp add: libc_from_3_def)
  note p = startup_interfaces [of ?st libc_from_3 "\<lambda>s. 77" ?ioctl "\<lambda>a. 0" "\<lambda>n. int (length n)" "[]" demo_ifaddrs]
  obtain st' where q: "?q = Inr st'" using p nm fd by auto
  have r: "if_index ` set (g_interface_list st') = {4}" using p q unfolding ip by (simp add: demo_ifaddrs_def)
  have "\<forall>i \<in> set (g_interface_list st'). if_mac i = [1, 2, 3, 4, 5, 6]"
    using p q by (auto split: if_splits)
  then have "if_mac ` set (g_interface_list st') = {[1, 2, 3, 4, 5, 6]}" using r by auto
  then show ?thesis using q r by blast
qed

subsection \<open>Pointers\<close>

text \<open>Where the four objects lie in the application's address space.\<close>

definition pointer_regions :: "kt_pointers \<Rightarrow> (nat \<times> nat) list" where
  "pointer_regions p =
     [(unat (p_tx_ring p), sizeof_kt_ringbuf + 128 * 8), (unat (p_free_ring p), sizeof_kt_ringbuf + 128 * 8),
      (unat (p_mbuf_pool p), 127 * sizeof_kt_mbuf), (unat (p_metadata_pool p), 127 * sizeof_kt_metadata)]"

lemma unat_plus_small: "unat (b :: u64) + unat x < 2 ^ 64 \<Longrightarrow> unat (b + x) = unat b + unat x"
  by (subst unat_add_lem [symmetric]) simp

lemma pointers_shift:
  assumes "list_all (\<lambda>r. fst r + snd r \<le> 2 ^ 20) (layout_regions l)" "unat base + 2 ^ 20 \<le> 2 ^ 64"
  shows "pointer_regions (layout_pointers base l) = map (\<lambda>(a, n). (unat base + a, n)) (layout_regions l)"
proof -
  have "unat (tx_ring_offset l) < 2 ^ 20" "unat (free_ring_offset l) < 2 ^ 20"
    "unat (mbuf_pool_offset l) < 2 ^ 20" "unat (metadata_pool_offset l) < 2 ^ 20"
    using assms(1) by (simp_all add: layout_regions_def sizeof_kt_ringbuf_def sizeof_kt_mbuf_def sizeof_kt_metadata_def)
  then show ?thesis
    using assms(2) by (simp add: pointer_regions_def layout_pointers_def layout_regions_def unat_plus_small)
qed

lemma start_main_Some:
  assumes "libc_start_main libc env st = Inr (tr, Some (p, st'))" "ans_mmap (se_data env) = Some base"
  shows "p = layout_pointers base (se_layout env)"
    and "Ftruncate (ans_fd (se_ctrl env)) 1048576 0 \<in> set tr"
  using assms
  by (auto simp: libc_start_main_def kt_memory_attach_def kt_memory_alloc_def Let_def rbind_eq_Inr
      KT_DEFAULT_MEMORY_SIZE_def split: if_splits option.splits)

text \<open>
  C21. An application that starts after the daemon laid out the segment, wherever the system maps it:
  its four pointers are at the daemon's offsets from its own base without wrap-around, the objects
  behind them do not overlap and lie inside the megabyte it mapped. On the way it sets the length
  of the control segment, which the daemon made one page long, to a megabyte.
\<close>

theorem startup_attaches:
  assumes "ktsnd_init dat 4096 sp block = Inr (se_layout env, shm, q)"
    and "unat dat mod 4096 = 0" "unat dat + 2 ^ 21 \<le> 2 ^ 64"
    and "libc_start_main libc env st = Inr (tr, Some (p, st'))"
    and "ans_mmap (se_data env) = Some base" "unat base + 2 ^ 20 \<le> 2 ^ 64"
  shows "pointer_regions p = map (\<lambda>(a, n). (unat base + a, n)) (layout_regions (se_layout env)) \<and>
    sorted_wrt (\<lambda>r s. fst r + snd r \<le> fst s) (pointer_regions p) \<and>
    list_all (\<lambda>r. unat base \<le> fst r \<and> fst r + snd r \<le> unat base + 2 ^ 20) (pointer_regions p) \<and>
    Ftruncate (ans_fd (se_ctrl env)) 1048576 0 \<in> set tr"
proof -
  note s = start_main_Some [OF assms(4,5)]
  have l: "sorted_wrt (\<lambda>r s. fst r + snd r \<le> fst s) (layout_regions (se_layout env))"
      "list_all (\<lambda>r. fst r + snd r \<le> 2 ^ 20) (layout_regions (se_layout env))"
    using ktsnd_init_ok [OF assms(2,3), of sp block] assms(1) by auto
  have p: "pointer_regions p = map (\<lambda>(a, n). (unat base + a, n)) (layout_regions (se_layout env))"
    unfolding s(1) by (rule pointers_shift [OF l(2) assms(6)])
  moreover have "sorted_wrt (\<lambda>r s. fst r + snd r \<le> fst s) (pointer_regions p)"
    unfolding p sorted_wrt_map using l(1) by (simp add: case_prod_unfold)
  moreover have "list_all (\<lambda>r. unat base \<le> fst r \<and> fst r + snd r \<le> unat base + 2 ^ 20) (pointer_regions p)"
    unfolding p using l(2) by (auto simp: list_all_iff)
  ultimately show ?thesis using s(2) by blast
qed

definition demo_start :: "kt_mem_layout \<Rightarrow> int start_env" where
  "demo_start l = \<lparr>se_data = \<lparr>ans_malloc = True, ans_fd = 3, ans_ftruncate = 0, ans_mmap = Some 0x7FAA00000000\<rparr>,
     se_ctrl = \<lparr>ans_malloc = True, ans_fd = 4, ans_ftruncate = 0, ans_mmap = Some 0x7FAA00200000\<rparr>,
     se_layout = l, se_ifaddrs = Some [], se_getnameinfo = (\<lambda>a. 0), se_nametoindex = (\<lambda>n. 1),
     se_ioctl = (\<lambda>fd n. None), se_rax = (\<lambda>s. 0), se_junk_mac = []\<rparr>"

theorem startup_attaches_witness:
  "\<exists>l shm p tr st'. ktsnd_init 0x7F0000000000 4096 0 [] = Inr (l, shm, kt_prio_queue_init 127 []) \<and>
     libc_start_main demo_libc (demo_start l) demo_ktsn = Inr (tr, Some (p, st')) \<and>
     sorted_wrt (\<lambda>r s. fst r + snd r \<le> fst s) (pointer_regions p)"
proof -
  obtain l shm where i: "ktsnd_init 0x7F0000000000 4096 0 [] = Inr (l, shm, kt_prio_queue_init 127 [])"
    using ktsnd_init_ok [of "0x7F0000000000" 0 "[]"] by auto
  obtain tr p st' where m: "libc_start_main demo_libc (demo_start l) demo_ktsn = Inr (tr, Some (p, st'))"
    by (simp add: libc_start_main_def demo_start_def kt_memory_attach_def kt_memory_alloc_def Let_def
        query_interfaces_def)
  have l: "ktsnd_init 0x7F0000000000 4096 0 [] = Inr (se_layout (demo_start l), shm, kt_prio_queue_init 127 [])"
    using i by (simp add: demo_start_def)
  have "sorted_wrt (\<lambda>r s. fst r + snd r \<le> fst s) (pointer_regions p)"
  proof -
    have "ans_mmap (se_data (demo_start l)) = Some 0x7FAA00000000" by (simp add: demo_start_def)
    show ?thesis
      by (rule startup_attaches [OF l _ _ m \<open>_ = Some _\<close>, THEN conjunct2, THEN conjunct1]) simp_all
  qed
  then show ?thesis using i m by blast
qed

end
