(* ===== verification/KT_Support.thy ===== *)
theory KT_Support
  imports KT_Prelude
begin

section \<open>Logger (\<open>src/src/kt_logger.c\<close>) and memory pool (\<open>src/src/kt_mempool.c\<close>)\<close>

text \<open>
  The logger puts a coloured tag before a format string, in a buffer of 512 bytes, and prints the
  result; macros remove the calls above the level chosen at compile time. The memory pool is
  declared and its constructor stops at an assertion. \<open>vfprintf\<close> is a parameter: format and
  arguments to the text that is written.
\<close>

subsection \<open>Levels and tags\<close>

datatype log_level = LError | LWarn | LInfo | LDebug | LTrace

definition ascii :: "string \<Rightarrow> string" where "ascii code = CHR 0x1B # code"

definition ASCII_NONE :: string where "ASCII_NONE = ascii ''[0m''"

fun level_color :: "log_level \<Rightarrow> string" where
  "level_color LError = ascii ''[31m''"
| "level_color LWarn = ascii ''[33m''"
| "level_color LInfo = ascii ''[32m''"
| "level_color LDebug = ascii ''[34m''"
| "level_color LTrace = ascii ''[36m''"

fun level_name :: "log_level \<Rightarrow> string" where
  "level_name LError = ''error''"
| "level_name LWarn = ''warn''"
| "level_name LInfo = ''info''"
| "level_name LDebug = ''debug''"
| "level_name LTrace = ''trace''"

text \<open>\<open>snprintf (buff, 512, ...)\<close> keeps 511 characters and the terminating zero.\<close>

definition log_format :: "log_level \<Rightarrow> string \<Rightarrow> string" where
  "log_format l fmt =
     take 511 (level_color l @ ''['' @ level_name l @ '']'' @ ASCII_NONE @ '' '' @ fmt)"

definition do_log :: "(string \<Rightarrow> 'a list \<Rightarrow> string) \<Rightarrow> log_level \<Rightarrow> string \<Rightarrow> 'a list \<Rightarrow> string \<Rightarrow> string" where
  "do_log vfprintf l fmt ap err = err @ vfprintf (log_format l fmt) ap"

text \<open>\<open>do_vlog\<close> has the same body.\<close>

definition do_vlog :: "(string \<Rightarrow> 'a list \<Rightarrow> string) \<Rightarrow> log_level \<Rightarrow> string \<Rightarrow> 'a list \<Rightarrow> string \<Rightarrow> string" where
  "do_vlog vfprintf l fmt ap err = err @ vfprintf (log_format l fmt) ap"

definition log_error where "log_error vfprintf = do_log vfprintf LError"
definition log_warn where "log_warn vfprintf = do_log vfprintf LWarn"
definition log_info where "log_info vfprintf = do_log vfprintf LInfo"
definition log_debug where "log_debug vfprintf = do_log vfprintf LDebug"
definition log_trace where "log_trace vfprintf = do_log vfprintf LTrace"
definition vlog_trace where "vlog_trace vfprintf = do_vlog vfprintf LTrace"

text \<open>The macros \<open>LOG_ERROR\<close> to \<open>LOG_TRACE\<close> for a value of \<open>LOG_LEVEL\<close>.\<close>

fun log_macro ::
  "nat \<Rightarrow> (string \<Rightarrow> 'a list \<Rightarrow> string) \<Rightarrow> log_level \<Rightarrow> string \<Rightarrow> 'a list \<Rightarrow> string \<Rightarrow> string" where
  "log_macro n vf LError fmt ap err = (if 100 \<le> n then log_error vf fmt ap err else err)"
| "log_macro n vf LWarn fmt ap err = (if 200 \<le> n then log_warn vf fmt ap err else err)"
| "log_macro n vf LInfo fmt ap err = (if 300 \<le> n then log_info vf fmt ap err else err)"
| "log_macro n vf LDebug fmt ap err = (if 400 \<le> n then log_debug vf fmt ap err else err)"
| "log_macro n vf LTrace fmt ap err = (if 500 \<le> n then log_trace vf fmt ap err else err)"

lemmas log_defs = log_error_def log_warn_def log_info_def log_debug_def log_trace_def do_log_def

definition log_tag :: "log_level \<Rightarrow> string" where
  "log_tag l = level_color l @ ''['' @ level_name l @ '']'' @ ASCII_NONE @ '' ''"

lemma log_format_tag: "log_format l fmt = take 511 (log_tag l @ fmt)"
  by (simp add: log_format_def log_tag_def)

lemma log_tag_props: "length (log_tag l) \<le> 17" "filter (\<lambda>c. c = CHR ''%'') (log_tag l) = []"
  by (cases l; simp add: log_tag_def ascii_def ASCII_NONE_def)+

text \<open>Levels are ordered by the value of \<open>LOG_LEVEL\<close> from which on they are printed.\<close>

primrec level_value :: "log_level \<Rightarrow> nat" where
  "level_value LError = 100"
| "level_value LWarn = 200"
| "level_value LInfo = 300"
| "level_value LDebug = 400"
| "level_value LTrace = 500"

lemma level_value_inj: "level_value l = level_value l' \<Longrightarrow> l = l'"
  by (cases l; cases l'; simp)

instantiation log_level :: linorder
begin

definition less_eq_log_level :: "log_level \<Rightarrow> log_level \<Rightarrow> bool" where
  "l \<le> l' \<longleftrightarrow> level_value l \<le> level_value l'"

definition less_log_level :: "log_level \<Rightarrow> log_level \<Rightarrow> bool" where
  "l < l' \<longleftrightarrow> level_value l < level_value l'"

instance
  by standard (auto simp: less_eq_log_level_def less_log_level_def intro: level_value_inj)

end

lemma log_macro_level:
  "log_macro n vf l fmt ap err = (if level_value l \<le> n then err @ vf (log_format l fmt) ap else err)"
  by (cases l) (simp_all add: log_defs)

text \<open>At the level of one macro, that macro and those below it print and no other does.\<close>

lemma log_macro_at: "vf (log_format l fmt) ap \<noteq> [] \<Longrightarrow> log_macro (level_value l') vf l fmt ap err \<noteq> err \<longleftrightarrow> l \<le> l'"
  by (simp add: log_macro_level less_eq_log_level_def)

text \<open>
  The format handed to \<open>vfprintf\<close> never exceeds the 511 characters of the buffer. A format of at
  most 494 characters arrives whole behind the tag, with its conversion signs unchanged in number
  and order, so that they match the arguments. A message at a level above the one compiled in
  writes nothing, and raising the level never silences a message.
\<close>

theorem logger_bounds:
  assumes "length fmt \<le> 494" "n \<le> m" "log_macro n vf l fmt ap err \<noteq> err"
  shows "length (log_format l long) \<le> 511 \<and> log_format l fmt = log_tag l @ fmt \<and>
    filter (\<lambda>c. c = CHR ''%'') (log_format l fmt) = filter (\<lambda>c. c = CHR ''%'') fmt \<and>
    log_macro m vf l fmt ap err = err @ vf (log_tag l @ fmt) ap"
proof -
  have f: "log_format l fmt = log_tag l @ fmt"
    using assms(1) log_tag_props(1) [of l] by (simp add: log_format_tag)
  have "log_macro m vf l fmt ap err = err @ vf (log_format l fmt) ap"
    using assms(2,3) by (simp add: log_macro_level split: if_splits)
  moreover have "filter (\<lambda>c. c = CHR ''%'') (log_format l fmt) = filter (\<lambda>c. c = CHR ''%'') fmt"
    unfolding f filter_append log_tag_props(2) by simp
  moreover have "length (log_format l long) \<le> 511" by (simp add: log_format_def del: take_append)
  ultimately show ?thesis using f by simp
qed

theorem logger_bounds_witness:
  "length (log_format LWarn (replicate 1000 CHR ''x'')) \<le> 511 \<and>
   log_macro 500 (\<lambda>f (as :: nat list). f) LWarn ''lost %d'' [] ''a'' = ''a'' @ log_tag LWarn @ ''lost %d''"
proof -
  have "log_macro 200 (\<lambda>f (as :: nat list). f) LWarn ''lost %d'' [] ''a'' \<noteq> ''a''"
    by (simp add: log_defs log_format_def ascii_def ASCII_NONE_def)
  from logger_bounds [OF _ _ this, of 500 "replicate 1000 CHR ''x''"] show ?thesis by simp
qed

subsection \<open>Memory pool\<close>

record kt_mempool =
  mp_name :: string
  mp_esize :: int
  mp_count :: int
  mp_size :: int
  mp_capacity :: int

text \<open>\<open>kt_mempool_create\<close> is a stub; \<open>kt_mempool_lookup\<close> is declared and nowhere defined.\<close>

definition kt_mempool_create :: "'al \<Rightarrow> string \<Rightarrow> int \<Rightarrow> int \<Rightarrow> kt_mempool option res" where
  "kt_mempool_create al name esize cnt = Inl AssertFail"

end
