(* ===== verification/KT_OpcUa.thy ===== *)
theory KT_OpcUa
  imports KT_Prelude
begin

section \<open>OPC UA examples (\<open>src/apps/opcua_sub.c\<close>, \<open>opcua_pub.c\<close>, \<open>ua_pubsub_networkmessage.h\<close>)\<close>

text \<open>
  Two examples on the open62541 library: a publisher that configures a server to publish its time
  over Ethernet, and a subscriber that prints the fields of the messages it receives. The library
  is a parameter: the identities of the types it knows, its decoder, the conversion of times, and
  the answers of the calls; the message types come from the header beside the examples.

  Shown here: the subscriber prints exactly the fields of known type of the key frames that the
  payload header counts, message by message, and releases what it acquires; a field of known type
  whose array is empty makes it read outside the value; the two programs agree on the endpoint,
  and the publisher asks for the payload header without which the subscriber prints nothing.
\<close>

subsection \<open>Messages\<close>

text \<open>
  \<open>'t\<close> stands for the type descriptions of the library, compared by address, \<open>'p\<close> for the
  values of its types that neither program reads. A variant has the bytes its data pointer leads
  to: none for an empty one and for an empty array.
\<close>

record 't UA_Variant =
  var_type :: "'t option"
  var_data :: "u8 list"

record 't UA_DataValue =
  dv_value :: "'t UA_Variant"

record UA_DataSetPayloadHeader =
  ph_count :: u8
  ph_dataSetWriterIds :: "u16 list"

datatype UA_FieldEncoding =
    UA_FIELDENCODING_VARIANT
  | UA_FIELDENCODING_RAWDATA
  | UA_FIELDENCODING_DATAVALUE
  | UA_FIELDENCODING_UNKNOWN

datatype UA_DataSetMessageType =
    UA_DATASETMESSAGE_DATAKEYFRAME
  | UA_DATASETMESSAGE_DATADELTAFRAME
  | UA_DATASETMESSAGE_EVENT
  | UA_DATASETMESSAGE_KEEPALIVE

record UA_DataSetMessageHeader =
  dataSetMessageValid :: bool
  fieldEncoding :: UA_FieldEncoding
  dataSetMessageSequenceNrEnabled :: bool
  dh_timestampEnabled :: bool
  statusEnabled :: bool
  configVersionMajorVersionEnabled :: bool
  configVersionMinorVersionEnabled :: bool
  dataSetMessageType :: UA_DataSetMessageType
  picoSecondsIncluded :: bool
  dataSetMessageSequenceNr :: u16
  dh_timestamp :: int
  dh_picoSeconds :: u16
  dh_status :: u16
  configVersionMajorVersion :: u32
  configVersionMinorVersion :: u32

record ('t, 'p) UA_DataSetMessage_DataKeyFrameData =
  fieldCount :: u16
  dataSetFields :: "'t UA_DataValue list"
  rawFields :: "u8 list"
  fieldNames :: "string list"
  dataSetMetaDataType :: "'p option"

record 't UA_DataSetMessage_DeltaFrameField =
  fieldIndex :: u16
  fieldValue :: "'t UA_DataValue"

record 't UA_DataSetMessage_DataDeltaFrameData =
  df_fieldCount :: u16
  deltaFrameFields :: "'t UA_DataSetMessage_DeltaFrameField list"

datatype ('t, 'p) UA_DataSetMessage_data =
    keyFrameData "('t, 'p) UA_DataSetMessage_DataKeyFrameData"
  | deltaFrameData "'t UA_DataSetMessage_DataDeltaFrameData"

record ('t, 'p) UA_DataSetMessage =
  dsm_header :: UA_DataSetMessageHeader
  dsm_data :: "('t, 'p) UA_DataSetMessage_data"
  configuredSize :: nat

record ('t, 'p) UA_DataSetPayload =
  dp_sizes :: "u16 list"
  dataSetMessages :: "('t, 'p) UA_DataSetMessage list"

datatype UA_NetworkMessageType =
    UA_NETWORKMESSAGE_DATASET
  | UA_NETWORKMESSAGE_DISCOVERY_REQUEST
  | UA_NETWORKMESSAGE_DISCOVERY_RESPONSE

record UA_NetworkMessageGroupHeader =
  writerGroupIdEnabled :: bool
  groupVersionEnabled :: bool
  networkMessageNumberEnabled :: bool
  sequenceNumberEnabled :: bool
  gh_writerGroupId :: u16
  groupVersion :: u32
  networkMessageNumber :: u16
  sequenceNumber :: u16

record UA_NetworkMessageSecurityHeader =
  networkMessageSigned :: bool
  networkMessageEncrypted :: bool
  securityFooterEnabled :: bool
  forceKeyReset :: bool
  securityTokenId :: u32
  messageNonce :: "u8 list"
  messageNonceSize :: u16
  securityFooterSize :: u16

record ('t, 'p) UA_NetworkMessage =
  nm_version :: u8
  messageIdEnabled :: bool
  messageId :: string
  publisherIdEnabled :: bool
  groupHeaderEnabled :: bool
  payloadHeaderEnabled :: bool
  dataSetClassIdEnabled :: bool
  securityEnabled :: bool
  nm_timestampEnabled :: bool
  picosecondsEnabled :: bool
  chunkMessage :: bool
  promotedFieldsEnabled :: bool
  networkMessageType :: UA_NetworkMessageType
  nm_publisherIdType :: 'p
  nm_publisherId :: 'p
  dataSetClassId :: 'p
  groupHeader :: UA_NetworkMessageGroupHeader
  payloadHeader :: UA_DataSetPayloadHeader
  nm_timestamp :: int
  nm_picoseconds :: u16
  promotedFieldsSize :: u16
  promotedFields :: "'t UA_Variant list"
  securityHeader :: UA_NetworkMessageSecurityHeader
  nm_payload :: "('t, 'p) UA_DataSetPayload"
  securityFooter :: "u8 list"

text \<open>The message after \<open>memset\<close> to zero; \<open>z\<close> is the zeroed value of the library's types.\<close>

definition zeroed_message :: "'p \<Rightarrow> ('t, 'p) UA_NetworkMessage" where
  "zeroed_message z =
     \<lparr>nm_version = 0, messageIdEnabled = False, messageId = [], publisherIdEnabled = False,
      groupHeaderEnabled = False, payloadHeaderEnabled = False, dataSetClassIdEnabled = False,
      securityEnabled = False, nm_timestampEnabled = False, picosecondsEnabled = False,
      chunkMessage = False, promotedFieldsEnabled = False,
      networkMessageType = UA_NETWORKMESSAGE_DATASET, nm_publisherIdType = z, nm_publisherId = z,
      dataSetClassId = z,
      groupHeader = \<lparr>writerGroupIdEnabled = False, groupVersionEnabled = False,
        networkMessageNumberEnabled = False, sequenceNumberEnabled = False, gh_writerGroupId = 0,
        groupVersion = 0, networkMessageNumber = 0, sequenceNumber = 0\<rparr>,
      payloadHeader = \<lparr>ph_count = 0, ph_dataSetWriterIds = []\<rparr>,
      nm_timestamp = 0, nm_picoseconds = 0, promotedFieldsSize = 0, promotedFields = [],
      securityHeader = \<lparr>networkMessageSigned = False, networkMessageEncrypted = False,
        securityFooterEnabled = False, forceKeyReset = False, securityTokenId = 0,
        messageNonce = replicate 16 0, messageNonceSize = 0, securityFooterSize = 0\<rparr>,
      nm_payload = \<lparr>dp_sizes = [], dataSetMessages = []\<rparr>, securityFooter = []\<rparr>"

subsection \<open>The library\<close>

type_synonym UA_StatusCode = u32

definition UA_STATUSCODE_GOOD :: UA_StatusCode where "UA_STATUSCODE_GOOD = 0"

text \<open>The decoder gives its status, the new position and the message it left behind.\<close>

record ('t, 'p, 'd) ua_lib =
  UA_TYPES_BYTE :: 't
  UA_TYPES_UINT32 :: 't
  UA_TYPES_DATETIME :: 't
  ua_zero :: 'p
  DateTime_toStruct :: "int \<Rightarrow> 'd"
  decodeBinary :: "u8 list \<Rightarrow> nat \<Rightarrow> ('t, 'p) UA_NetworkMessage \<Rightarrow>
    UA_StatusCode \<times> nat \<times> ('t, 'p) UA_NetworkMessage"

text \<open>Reading an integer of \<open>n\<close> bytes through the data pointer, least byte first.\<close>

definition peek :: "nat \<Rightarrow> u8 list \<Rightarrow> int res" where
  "peek n bs = (if n \<le> length bs then Inr (horner_sum uint 256 (take n bs)) else Inl OutOfBounds)"

text \<open>A loop that appends what each pass prints.\<close>

definition rcollect :: "('a \<Rightarrow> 'b list res) \<Rightarrow> 'a list \<Rightarrow> 'b list res" where
  "rcollect f xs = rfold (\<lambda>ls x. rbind (f x) (\<lambda>l. Inr (ls @ l))) [] xs"

subsection \<open>The subscriber\<close>

record UA_PubSubConnectionConfig =
  cc_name :: string
  cc_transportProfileUri :: string
  cc_enabled :: bool
  cc_networkInterface :: string
  cc_url :: string
  cc_publisherId :: "u16 option"
  cc_properties :: "(string \<times> int) list"

datatype 'd sub_event =
    Usage string
  | CreateChannel UA_PubSubConnectionConfig
  | Regist
  | Listening string
  | AllocBuffer nat bool
  | AllocFailed
  | Receive nat
  | ReceiveFailed
  | MessageLength nat
  | ByteData int
  | UInt32Data int
  | DateTimeData 'd
  | ClearMessage
  | ClearBuffer
  | CloseChannel

text \<open>One field: its value is read with the width of its type and printed.\<close>

definition field_line :: "('t, 'p, 'd) ua_lib \<Rightarrow> 't UA_Variant \<Rightarrow> 'd sub_event list res" where
  "field_line lib v =
     (if var_type v = Some (UA_TYPES_BYTE lib) then
        rbind (peek 1 (var_data v)) (\<lambda>x. Inr [ByteData x])
      else if var_type v = Some (UA_TYPES_UINT32 lib) then
        rbind (peek 4 (var_data v)) (\<lambda>x. Inr [UInt32Data x])
      else if var_type v = Some (UA_TYPES_DATETIME lib) then
        rbind (peek 8 (var_data v)) (\<lambda>x.
        Inr [DateTimeData (DateTime_toStruct lib (i64_of_u64 (of_int x)))])
      else Inr [])"

text \<open>
  One data set message. The member \<open>keyFrameData\<close> of the union is read only under the type that
  says it is there; reading it while it holds a delta frame is an indeterminate value.
\<close>

definition dsm_lines :: "('t, 'p, 'd) ua_lib \<Rightarrow> ('t, 'p) UA_DataSetMessage \<Rightarrow> 'd sub_event list res" where
  "dsm_lines lib dsm =
     (if dataSetMessageType (dsm_header dsm) \<noteq> UA_DATASETMESSAGE_DATAKEYFRAME then Inr []
      else if fieldEncoding (dsm_header dsm) = UA_FIELDENCODING_RAWDATA then Inr []
      else
        case dsm_data dsm of
          deltaFrameData d \<Rightarrow> Inl Indeterminate
        | keyFrameData k \<Rightarrow>
            rcollect (\<lambda>i. rbind (arr_get (dataSetFields k) i) (\<lambda>f. field_line lib (dv_value f)))
              [0..<unat (fieldCount k)])"

definition customDecodeAndProcessCallback ::
  "('t, 'p, 'd) ua_lib \<Rightarrow> u8 list \<Rightarrow> (UA_StatusCode \<times> 'd sub_event list) res" where
  "customDecodeAndProcessCallback lib buffer =
     (let (status, currentPosition, networkMessage) = decodeBinary lib buffer 0 (zeroed_message (ua_zero lib));
          count = ph_count (payloadHeader networkMessage) in
      rbind
        (if networkMessageType networkMessage \<noteq> UA_NETWORKMESSAGE_DATASET then Inr []
         else if payloadHeaderEnabled networkMessage \<and> count < 1 then Inr []
         else
           rcollect (\<lambda>j. rbind (arr_get (dataSetMessages (nm_payload networkMessage)) j) (dsm_lines lib))
             [0..<unat count])
        (\<lambda>ls. Inr (UA_STATUSCODE_GOOD, MessageLength (length buffer) # ls @ [ClearMessage])))"

text \<open>
  What the environment answers to one call: the status of the allocation, and the status of
  \<open>receive\<close> with the messages for which it called the callback. The second test looks at the status
  of the allocation again.
\<close>

record sub_answer =
  sa_alloc :: UA_StatusCode
  sa_receive :: UA_StatusCode
  sa_messages :: "u8 list list"

definition subscriberListen ::
  "('t, 'p, 'd) ua_lib \<Rightarrow> sub_answer \<Rightarrow> (UA_StatusCode \<times> 'd sub_event list) res" where
  "subscriberListen lib ans =
     (let retval = sa_alloc ans; ok = (retval = UA_STATUSCODE_GOOD) in
      if \<not> ok then Inr (retval, [AllocBuffer 512 False, AllocFailed])
      else
        rbind (rcollect (\<lambda>b. rbind (customDecodeAndProcessCallback lib b) (\<lambda>(st, ls). Inr ls)) (sa_messages ans)) (\<lambda>ev.
        let rv = sa_receive ans in
        if retval \<noteq> UA_STATUSCODE_GOOD then
          Inr (retval, AllocBuffer 512 True # Receive 100 # ev @ [ReceiveFailed])
        else Inr (rv, AllocBuffer 512 True # Receive 100 # ev @ [ClearBuffer])))"

definition EXIT_SUCCESS :: int where "EXIT_SUCCESS = 0"
definition EXIT_FAILURE :: int where "EXIT_FAILURE = 1"

definition sub_config :: "string \<Rightarrow> UA_PubSubConnectionConfig" where
  "sub_config device =
     \<lparr>cc_name = ''UADP Connection 1'',
      cc_transportProfileUri = ''http://opcfoundation.org/UA-Profile/Transport/pubsub-eth-uadp'',
      cc_enabled = True, cc_networkInterface = device, cc_url = ''opc.eth://01-00-5E-00-00-01'',
      cc_publisherId = None, cc_properties = []\<rparr>"

text \<open>
  \<open>main\<close>: the channel may be a null pointer, whose function pointer is used all the same; there
  is one answer for each turn of the loop until a signal clears \<open>running\<close>.
\<close>

definition opcua_sub_main ::
  "('t, 'p, 'd) ua_lib \<Rightarrow> string list \<Rightarrow> bool \<Rightarrow> sub_answer list \<Rightarrow> (int \<times> 'd sub_event list) res" where
  "opcua_sub_main lib argv channel input =
     rbind (arr_get argv 0) (\<lambda>progname.
      if length argv \<noteq> 2 then Inr (EXIT_FAILURE, [Usage progname])
      else if argv ! 1 = ''-h'' then Inr (EXIT_SUCCESS, [Usage progname])
      else if \<not> channel then Inl NullDeref
      else
        rbind (rcollect (\<lambda>a. rbind (subscriberListen lib a) (\<lambda>(st, ev). Inr ev)) input) (\<lambda>ev.
        Inr (0, CreateChannel (sub_config (argv ! 1)) # Regist # Listening (argv ! 1) # ev @ [CloseChannel])))"

subsection \<open>The publisher\<close>

text \<open>
  The flags of the message content, as a list of those set; node and attribute identifiers of the
  library by their names.
\<close>

datatype ua_mask =
    UA_UADPNETWORKMESSAGECONTENTMASK_PUBLISHERID
  | UA_UADPNETWORKMESSAGECONTENTMASK_GROUPHEADER
  | UA_UADPNETWORKMESSAGECONTENTMASK_WRITERGROUPID
  | UA_UADPNETWORKMESSAGECONTENTMASK_PAYLOADHEADER

datatype 'i pub_call =
    ServerNew
  | AddTransportLayerUDPMP
  | AddTransportLayerEthernet
  | AddPubSubConnection UA_PubSubConnectionConfig
  | AddPublishedDataSet string
  | AddDataSetField 'i string bool string string
  | WriterGroupMessageNew
  | AddWriterGroup 'i string nat bool u16 string "ua_mask list"
  | WriterGroupMessageDelete
  | SetWriterGroupOperational 'i
  | AddDataSetWriter 'i 'i string u16 nat
  | RunUntilInterrupt
  | ServerDelete
  | PubUsage string

text \<open>The global identifiers and the calls so far; the library answers with new identifiers.\<close>

record 'i publisher =
  connectionIdent :: 'i
  publishedDataSetIdent :: 'i
  writerGroupIdent :: 'i
  pub_calls :: "'i pub_call list"

record 'i pub_ids =
  new_connection :: 'i
  new_dataset :: 'i
  new_group :: 'i

definition socketPriority :: int where "socketPriority = 3"
definition enableSoTxtime :: bool where "enableSoTxtime = True"

definition made :: "'i pub_call list \<Rightarrow> 'i publisher \<Rightarrow> 'i publisher" where
  "made cs p = p\<lparr>pub_calls := pub_calls p @ cs\<rparr>"

definition pub_config :: "string \<Rightarrow> string \<Rightarrow> string \<Rightarrow> UA_PubSubConnectionConfig" where
  "pub_config transportProfile interface url =
     \<lparr>cc_name = ''UADP Connection 1'', cc_transportProfileUri = transportProfile, cc_enabled = True,
      cc_networkInterface = interface, cc_url = url, cc_publisherId = Some 2234,
      cc_properties = [(''sockpriority'', socketPriority), (''enablesotxtime'', of_bool enableSoTxtime)]\<rparr>"

definition addPubSubConnection ::
  "'i pub_ids \<Rightarrow> string \<Rightarrow> string \<Rightarrow> string \<Rightarrow> 'i publisher \<Rightarrow> 'i publisher" where
  "addPubSubConnection ids transportProfile interface url p =
     (made [AddPubSubConnection (pub_config transportProfile interface url)] p)
       \<lparr>connectionIdent := new_connection ids\<rparr>"

definition addPublishedDataSet :: "'i pub_ids \<Rightarrow> 'i publisher \<Rightarrow> 'i publisher" where
  "addPublishedDataSet ids p =
     (made [AddPublishedDataSet ''Demo PDS''] p)\<lparr>publishedDataSetIdent := new_dataset ids\<rparr>"

definition addDataSetField :: "'i publisher \<Rightarrow> 'i publisher" where
  "addDataSetField p = made [AddDataSetField (publishedDataSetIdent p) ''Server localtime'' False
       ''UA_NS0ID_SERVER_SERVERSTATUS_CURRENTTIME'' ''UA_ATTRIBUTEID_VALUE''] p"

definition networkMessageContentMask :: "ua_mask list" where
  "networkMessageContentMask =
     [UA_UADPNETWORKMESSAGECONTENTMASK_PUBLISHERID, UA_UADPNETWORKMESSAGECONTENTMASK_GROUPHEADER,
      UA_UADPNETWORKMESSAGECONTENTMASK_WRITERGROUPID, UA_UADPNETWORKMESSAGECONTENTMASK_PAYLOADHEADER]"

definition addWriterGroup :: "'i pub_ids \<Rightarrow> 'i publisher \<Rightarrow> 'i publisher" where
  "addWriterGroup ids p =
     (let p1 = (made [WriterGroupMessageNew, AddWriterGroup (connectionIdent p) ''Demo WriterGroup'' 1 False 100
                 ''UA_PUBSUB_ENCODING_UADP'' networkMessageContentMask] p)
               \<lparr>writerGroupIdent := new_group ids\<rparr>
      in made [SetWriterGroupOperational (writerGroupIdent p1), WriterGroupMessageDelete] p1)"

definition addDataSetWriter :: "'i publisher \<Rightarrow> 'i publisher" where
  "addDataSetWriter p =
     made [AddDataSetWriter (writerGroupIdent p) (publishedDataSetIdent p) ''Demo DataSetWriter'' 62541 10] p"

text \<open>\<open>eth\<close>: whether the library was built with the Ethernet transport; \<open>retval\<close>: how the server ended.\<close>

definition opcua_pub_run ::
  "'i pub_ids \<Rightarrow> bool \<Rightarrow> UA_StatusCode \<Rightarrow> string \<Rightarrow> string \<Rightarrow> string \<Rightarrow> 'i publisher \<Rightarrow> int \<times> 'i publisher" where
  "opcua_pub_run ids eth retval transportProfile interface url p =
     (let p1 = made (ServerNew # AddTransportLayerUDPMP # (if eth then [AddTransportLayerEthernet] else [])) p;
          p2 = addPubSubConnection ids transportProfile interface url p1;
          p3 = addPublishedDataSet ids p2;
          p4 = addDataSetField p3;
          p5 = addWriterGroup ids p4;
          p6 = addDataSetWriter p5;
          p7 = made [RunUntilInterrupt, ServerDelete] p6
      in (if retval = UA_STATUSCODE_GOOD then EXIT_SUCCESS else EXIT_FAILURE, p7))"

definition opcua_pub_main ::
  "'i pub_ids \<Rightarrow> bool \<Rightarrow> UA_StatusCode \<Rightarrow> string list \<Rightarrow> 'i publisher \<Rightarrow> (int \<times> 'i publisher) res" where
  "opcua_pub_main ids eth retval argv p =
     rbind (arr_get argv 0) (\<lambda>progname.
      if length argv \<noteq> 2 then Inr (EXIT_FAILURE, made [PubUsage progname] p)
      else if argv ! 1 = ''-h'' then Inr (EXIT_SUCCESS, made [PubUsage progname] p)
      else Inr (opcua_pub_run ids eth retval ''http://opcfoundation.org/UA-Profile/Transport/pubsub-eth-uadp''
             (argv ! 1) ''opc.eth://01-00-5E-00-00-01'' p))"

subsection \<open>What the subscriber prints\<close>

text \<open>
  The specification: a field is readable when its value has the bytes of its type; a message
  prints the fields of known type of the first \<open>count\<close> data set messages that are key frames and
  not raw.
\<close>

definition field_width :: "('t, 'p, 'd) ua_lib \<Rightarrow> 't UA_Variant \<Rightarrow> nat" where
  "field_width lib v =
     (if var_type v = Some (UA_TYPES_BYTE lib) then 1
      else if var_type v = Some (UA_TYPES_UINT32 lib) then 4
      else if var_type v = Some (UA_TYPES_DATETIME lib) then 8 else 0)"

definition readable_field :: "('t, 'p, 'd) ua_lib \<Rightarrow> 't UA_DataValue \<Rightarrow> bool" where
  "readable_field lib f \<longleftrightarrow> field_width lib (dv_value f) \<le> length (var_data (dv_value f))"

definition field_shown :: "('t, 'p, 'd) ua_lib \<Rightarrow> 't UA_DataValue \<Rightarrow> 'd sub_event list" where
  "field_shown lib f =
     (let v = dv_value f; x = horner_sum uint 256 (take (field_width lib v) (var_data v)) in
      if var_type v = Some (UA_TYPES_BYTE lib) then [ByteData x]
      else if var_type v = Some (UA_TYPES_UINT32 lib) then [UInt32Data x]
      else if var_type v = Some (UA_TYPES_DATETIME lib) then
        [DateTimeData (DateTime_toStruct lib (i64_of_u64 (of_int x)))]
      else [])"

definition printed_frame :: "('t, 'p) UA_DataSetMessage \<Rightarrow> bool" where
  "printed_frame dsm \<longleftrightarrow> dataSetMessageType (dsm_header dsm) = UA_DATASETMESSAGE_DATAKEYFRAME \<and>
     fieldEncoding (dsm_header dsm) \<noteq> UA_FIELDENCODING_RAWDATA"

fun key_fields :: "('t, 'p) UA_DataSetMessage_data \<Rightarrow> 't UA_DataValue list" where
  "key_fields (keyFrameData k) = take (unat (fieldCount k)) (dataSetFields k)"
| "key_fields (deltaFrameData d) = []"

fun complete_keys :: "('t, 'p) UA_DataSetMessage_data \<Rightarrow> bool" where
  "complete_keys (keyFrameData k) \<longleftrightarrow> unat (fieldCount k) \<le> length (dataSetFields k)"
| "complete_keys (deltaFrameData d) \<longleftrightarrow> False"

definition readable_dsm :: "('t, 'p, 'd) ua_lib \<Rightarrow> ('t, 'p) UA_DataSetMessage \<Rightarrow> bool" where
  "readable_dsm lib dsm \<longleftrightarrow> (if printed_frame dsm then complete_keys (dsm_data dsm) \<and>
     list_all (readable_field lib) (key_fields (dsm_data dsm)) else True)"

definition dsm_shown :: "('t, 'p, 'd) ua_lib \<Rightarrow> ('t, 'p) UA_DataSetMessage \<Rightarrow> 'd sub_event list" where
  "dsm_shown lib dsm =
     (if printed_frame dsm then concat (map (field_shown lib) (key_fields (dsm_data dsm))) else [])"

definition decoded :: "('t, 'p, 'd) ua_lib \<Rightarrow> u8 list \<Rightarrow> ('t, 'p) UA_NetworkMessage" where
  "decoded lib b = snd (snd (decodeBinary lib b 0 (zeroed_message (ua_zero lib))))"

text \<open>The data set messages of a message that the subscriber looks at, and those it has.\<close>

definition counted :: "('t, 'p) UA_NetworkMessage \<Rightarrow> nat" where
  "counted nm =
     (if networkMessageType nm = UA_NETWORKMESSAGE_DATASET then unat (ph_count (payloadHeader nm)) else 0)"

definition readable_message :: "('t, 'p, 'd) ua_lib \<Rightarrow> ('t, 'p) UA_NetworkMessage \<Rightarrow> bool" where
  "readable_message lib nm \<longleftrightarrow> counted nm \<le> length (dataSetMessages (nm_payload nm)) \<and>
     list_all (readable_dsm lib) (take (counted nm) (dataSetMessages (nm_payload nm)))"

definition message_shown :: "('t, 'p, 'd) ua_lib \<Rightarrow> ('t, 'p) UA_NetworkMessage \<Rightarrow> 'd sub_event list" where
  "message_shown lib nm = concat (map (dsm_shown lib) (take (counted nm) (dataSetMessages (nm_payload nm))))"

text \<open>A loop whose passes return exactly under a condition returns exactly when all hold.\<close>

lemma rcollect_Cons: "rcollect f (x # xs) = rbind (f x) (\<lambda>l. rbind (rcollect f xs) (\<lambda>ls. Inr (l @ ls)))"
proof -
  have acc: "rfold (\<lambda>ls x. rbind (f x) (\<lambda>l. Inr (ls @ l))) (a @ b) xs =
    rbind (rfold (\<lambda>ls x. rbind (f x) (\<lambda>l. Inr (ls @ l))) b xs) (\<lambda>ls. Inr (a @ ls))" for a b xs
  proof (induction xs arbitrary: b)
    case (Cons x xs)
    show ?case
    proof (cases "f x")
      case (Inr l)
      then show ?thesis using Cons.IH [of "b @ l"] by simp
    qed simp
  qed simp
  show ?thesis
  proof (cases "f x")
    case (Inr l)
    then show ?thesis using acc [of l "[]"] by (simp add: rcollect_def)
  qed (simp add: rcollect_def)
qed

lemma rcollect_iff:
  assumes "\<And>x l. x \<in> set xs \<Longrightarrow> f x = Inr l \<longleftrightarrow> P x \<and> l = g x"
  shows "rcollect f xs = Inr ls \<longleftrightarrow> list_all P xs \<and> ls = concat (map g xs)"
  using assms
proof (induction xs arbitrary: ls)
  case Nil
  then show ?case by (auto simp: rcollect_def)
next
  case (Cons x xs)
  then show ?case by (simp add: rcollect_Cons rbind_eq_Inr) blast
qed

lemma rcollect_index:
  assumes "\<And>y l. h y = Inr l \<longleftrightarrow> P y \<and> l = g y"
  shows "rcollect (\<lambda>i. rbind (arr_get ys i) h) [0..<n] = Inr ls \<longleftrightarrow>
    n \<le> length ys \<and> list_all P (take n ys) \<and> ls = concat (map g (take n ys))"
proof -
  let ?P = "\<lambda>i. i < length ys \<and> P (ys ! i)"
  have "rcollect (\<lambda>i. rbind (arr_get ys i) h) [0..<n] = Inr ls \<longleftrightarrow>
    list_all ?P [0..<n] \<and> ls = concat (map (\<lambda>i. g (ys ! i)) [0..<n])"
    by (rule rcollect_iff) (auto simp: rbind_eq_Inr arr_get_eq_Inr assms)
  moreover have "list_all ?P [0..<n] \<longleftrightarrow> n \<le> length ys \<and> list_all P (take n ys)"
  proof -
    have "(\<forall>i<n. i < length ys) \<longleftrightarrow> n \<le> length ys" by (meson linorder_not_less order_refl order_less_le_trans)
    then show ?thesis by (auto simp: list_all_length list_all_iff [of _ "[0..<n]"])
  qed
  moreover have "n \<le> length ys \<Longrightarrow> map (\<lambda>i. g (ys ! i)) [0..<n] = map g (take n ys)"
    by (simp add: list_eq_iff_nth_eq)
  ultimately show ?thesis by auto
qed

lemma field_line_iff:
  "field_line lib (dv_value f) = Inr ls \<longleftrightarrow> readable_field lib f \<and> ls = field_shown lib f"
  by (auto simp: field_line_def readable_field_def field_shown_def field_width_def peek_def Let_def)

lemma dsm_lines_iff: "dsm_lines lib dsm = Inr ls \<longleftrightarrow> readable_dsm lib dsm \<and> ls = dsm_shown lib dsm"
  by (cases "dsm_data dsm")
     (auto simp: dsm_lines_def readable_dsm_def dsm_shown_def printed_frame_def
        rcollect_index [of "\<lambda>f. field_line lib (dv_value f)", OF field_line_iff])

definition message_events :: "('t, 'p, 'd) ua_lib \<Rightarrow> u8 list \<Rightarrow> 'd sub_event list" where
  "message_events lib b = MessageLength (length b) # message_shown lib (decoded lib b) @ [ClearMessage]"

lemma callback_iff:
  "customDecodeAndProcessCallback lib b = Inr (st, ev) \<longleftrightarrow>
   readable_message lib (decoded lib b) \<and> st = UA_STATUSCODE_GOOD \<and> ev = message_events lib b"
proof -
  obtain s pos nm where d: "decodeBinary lib b 0 (zeroed_message (ua_zero lib)) = (s, pos, nm)"
    by (metis prod_cases3)
  then have nm: "decoded lib b = nm" by (simp add: decoded_def)
  have zero: "ph_count (payloadHeader nm) < 1 \<longleftrightarrow> ph_count (payloadHeader nm) = 0"
    by (simp add: word_less_nat_alt unat_eq_zero)
  show ?thesis
    by (auto simp: customDecodeAndProcessCallback_def d nm zero Let_def rbind_eq_Inr readable_message_def counted_def
        message_shown_def message_events_def rcollect_index [of "dsm_lines lib", OF dsm_lines_iff])
qed

text \<open>The messages that reach the callback in one turn, and what the turn does.\<close>

definition arrived :: "sub_answer \<Rightarrow> u8 list list" where
  "arrived a = (if sa_alloc a = UA_STATUSCODE_GOOD then sa_messages a else [])"

definition listen_events :: "('t, 'p, 'd) ua_lib \<Rightarrow> sub_answer \<Rightarrow> 'd sub_event list" where
  "listen_events lib a =
     (if sa_alloc a = UA_STATUSCODE_GOOD
      then AllocBuffer 512 True # Receive 100 # concat (map (message_events lib) (arrived a)) @ [ClearBuffer]
      else [AllocBuffer 512 False, AllocFailed])"

definition readable_bytes :: "('t, 'p, 'd) ua_lib \<Rightarrow> u8 list \<Rightarrow> bool" where
  "readable_bytes lib b \<longleftrightarrow> readable_message lib (decoded lib b)"

lemma listen_iff:
  "subscriberListen lib a = Inr (st, ev) \<longleftrightarrow> list_all (readable_bytes lib) (arrived a) \<and>
   st = (if sa_alloc a = UA_STATUSCODE_GOOD then sa_receive a else sa_alloc a) \<and> ev = listen_events lib a"
proof -
  have "rcollect (\<lambda>b. rbind (customDecodeAndProcessCallback lib b) (\<lambda>(st, ls). Inr ls)) (sa_messages a) = Inr ls \<longleftrightarrow>
    list_all (readable_bytes lib) (sa_messages a) \<and> ls = concat (map (message_events lib) (sa_messages a))" for ls
    by (rule rcollect_iff) (auto simp: rbind_eq_Inr callback_iff readable_bytes_def)
  then show ?thesis
    by (auto simp: subscriberListen_def Let_def arrived_def listen_events_def rbind_eq_Inr)
qed

lemma sub_main_iff:
  assumes "device \<noteq> ''-h''"
  shows "opcua_sub_main lib [prog, device] True input = Inr (st, ev) \<longleftrightarrow>
    list_all (readable_bytes lib) (concat (map arrived input)) \<and> st = 0 \<and>
    ev = CreateChannel (sub_config device) # Regist # Listening device #
      concat (map (listen_events lib) input) @ [CloseChannel]"
proof -
  have "rcollect (\<lambda>a. rbind (subscriberListen lib a) (\<lambda>(st, ev). Inr ev)) input = Inr ls \<longleftrightarrow>
    list_all (\<lambda>a. list_all (readable_bytes lib) (arrived a)) input \<and> ls = concat (map (listen_events lib) input)" for ls
    by (rule rcollect_iff) (auto simp: rbind_eq_Inr listen_iff)
  moreover have "list_all (\<lambda>a. list_all (readable_bytes lib) (arrived a)) input \<longleftrightarrow>
      list_all (readable_bytes lib) (concat (map arrived input))"
    by (induction input) simp_all
  ultimately show ?thesis
    using assms by (auto simp: opcua_sub_main_def rbind_eq_Inr)
qed

text \<open>Events that show a field; everything a message shows is one.\<close>

fun is_data :: "'d sub_event \<Rightarrow> bool" where
  "is_data (ByteData x) = True"
| "is_data (UInt32Data x) = True"
| "is_data (DateTimeData x) = True"
| "is_data e = False"

lemma message_shown_data: "e \<in> set (message_shown lib nm) \<Longrightarrow> is_data e"
  by (auto simp: message_shown_def dsm_shown_def field_shown_def Let_def split: if_splits)

lemma filter_message_events: "filter is_data (message_events lib b) = message_shown lib (decoded lib b)"
  by (simp add: message_events_def message_shown_data)

lemma count_message_events:
  "count_list (message_events lib b) ClearMessage = 1"
  "\<not> is_data e \<Longrightarrow> e \<noteq> ClearMessage \<Longrightarrow> (\<forall>n. e \<noteq> MessageLength n) \<Longrightarrow> count_list (message_events lib b) e = 0"
  using message_shown_data [of ClearMessage lib] message_shown_data [of e lib]
  by (auto simp: message_events_def count_list_0_iff)

lemma count_messages:
  "count_list (concat (map (message_events lib) bs)) ClearMessage = length bs"
  "count_list (concat (map (message_events lib) bs)) ClearBuffer = 0"
  "count_list (concat (map (message_events lib) bs)) (AllocBuffer n x) = 0"
  by (induction bs) (simp_all add: count_message_events)

lemma listen_counts:
  "filter is_data (listen_events lib a) = concat (map (\<lambda>b. message_shown lib (decoded lib b)) (arrived a))"
  "count_list (listen_events lib a) ClearMessage = length (arrived a)"
  "count_list (listen_events lib a) (AllocBuffer 512 True) = count_list (listen_events lib a) ClearBuffer"
  by (simp_all add: listen_events_def count_messages filter_concat o_def filter_message_events arrived_def)

lemma input_counts:
  "filter is_data (concat (map (listen_events lib) input)) =
     concat (map (\<lambda>b. message_shown lib (decoded lib b)) (concat (map arrived input)))"
  "count_list (concat (map (listen_events lib) input)) ClearMessage = length (concat (map arrived input))"
  "count_list (concat (map (listen_events lib) input)) (AllocBuffer 512 True) =
     count_list (concat (map (listen_events lib) input)) ClearBuffer"
  by (induction input) (simp_all add: listen_counts)

text \<open>
  C25. The subscriber, for every device, every library and every sequence of answers: it ends with
  status 0 exactly when every field of known type that it has to print has the bytes of its type;
  a field of known type with an empty array stops it. When it ends it has printed exactly the
  fields of known type of the counted key frames, in the order the messages arrived, whatever the
  status of \<open>receive\<close>, has cleared each message once and released each buffer it allocated.
\<close>

theorem subscriber_prints_fields:
  assumes "device \<noteq> ''-h''"
  shows "((\<exists>r. opcua_sub_main lib [prog, device] True input = Inr r) \<longleftrightarrow>
      list_all (\<lambda>b. readable_message lib (decoded lib b)) (concat (map arrived input))) \<and>
    (\<forall>st ev. opcua_sub_main lib [prog, device] True input = Inr (st, ev) \<longrightarrow>
      st = 0 \<and>
      filter is_data ev = concat (map (\<lambda>b. message_shown lib (decoded lib b)) (concat (map arrived input))) \<and>
      count_list ev ClearMessage = length (concat (map arrived input)) \<and>
      count_list ev (AllocBuffer 512 True) = count_list ev ClearBuffer)"
proof -
  have "readable_bytes lib = (\<lambda>b. readable_message lib (decoded lib b))" by (simp add: fun_eq_iff readable_bytes_def)
  then show ?thesis
    by (auto simp: sub_main_iff [OF assms] input_counts)
qed

text \<open>A library with a one-byte message format, to run the subscriber on.\<close>

definition demo_header :: UA_DataSetMessageHeader where
  "demo_header =
     \<lparr>dataSetMessageValid = True, fieldEncoding = UA_FIELDENCODING_VARIANT,
      dataSetMessageSequenceNrEnabled = False, dh_timestampEnabled = False, statusEnabled = False,
      configVersionMajorVersionEnabled = False, configVersionMinorVersionEnabled = False,
      dataSetMessageType = UA_DATASETMESSAGE_DATAKEYFRAME, picoSecondsIncluded = False,
      dataSetMessageSequenceNr = 0, dh_timestamp = 0, dh_picoSeconds = 0, dh_status = 0,
      configVersionMajorVersion = 0, configVersionMinorVersion = 0\<rparr>"

definition demo_lib :: "(nat, unit, int) ua_lib" where
  "demo_lib =
     \<lparr>UA_TYPES_BYTE = 2, UA_TYPES_UINT32 = 6, UA_TYPES_DATETIME = 12, ua_zero = (), DateTime_toStruct = id,
      decodeBinary = (\<lambda>b pos nm. (UA_STATUSCODE_GOOD, length b,
        nm\<lparr>payloadHeaderEnabled := True, payloadHeader := \<lparr>ph_count = 1, ph_dataSetWriterIds = [62541]\<rparr>,
           nm_payload := \<lparr>dp_sizes = [], dataSetMessages = [\<lparr>dsm_header = demo_header,
             dsm_data = keyFrameData \<lparr>fieldCount = 1, dataSetFields = [\<lparr>dv_value = \<lparr>var_type = Some 2, var_data = b\<rparr>\<rparr>],
               rawFields = [], fieldNames = [], dataSetMetaDataType = None\<rparr>, configuredSize = 0\<rparr>]\<rparr>\<rparr>))\<rparr>"

theorem subscriber_prints_fields_witness:
  "(\<exists>ev. opcua_sub_main demo_lib [''sub'', ''eth0''] True
       [\<lparr>sa_alloc = 0, sa_receive = 0, sa_messages = [[7], [9]]\<rparr>] = Inr (0, ev) \<and>
     filter is_data ev = [ByteData 7, ByteData 9] \<and> count_list ev ClearMessage = 2) \<and>
   (\<forall>r. opcua_sub_main demo_lib [''sub'', ''eth0''] True
       [\<lparr>sa_alloc = 0, sa_receive = 0, sa_messages = [[7], []]\<rparr>] \<noteq> Inr r)"
proof -
  note demo = arrived_def UA_STATUSCODE_GOOD_def demo_lib_def decoded_def zeroed_message_def demo_header_def
    readable_message_def counted_def readable_dsm_def printed_frame_def readable_field_def field_width_def
    message_shown_def dsm_shown_def field_shown_def
  have d: "''eth0'' \<noteq> ''-h''" by simp
  note one = subscriber_prints_fields [OF d, of demo_lib "''sub''"
    "[\<lparr>sa_alloc = 0, sa_receive = 0, sa_messages = [[7], [9]]\<rparr>]"]
  have "\<exists>r. opcua_sub_main demo_lib [''sub'', ''eth0''] True
       [\<lparr>sa_alloc = 0, sa_receive = 0, sa_messages = [[7], [9]]\<rparr>] = Inr r"
    using one [THEN conjunct1] by (simp add: demo)
  then obtain st ev where r: "opcua_sub_main demo_lib [''sub'', ''eth0''] True
       [\<lparr>sa_alloc = 0, sa_receive = 0, sa_messages = [[7], [9]]\<rparr>] = Inr (st, ev)" by (metis surj_pair)
  note two = one [THEN conjunct2, rule_format, OF r]
  have "\<not> (\<exists>r. opcua_sub_main demo_lib [''sub'', ''eth0''] True
       [\<lparr>sa_alloc = 0, sa_receive = 0, sa_messages = [[7], []]\<rparr>] = Inr r)"
    using subscriber_prints_fields [OF d, of demo_lib "''sub''"
      "[\<lparr>sa_alloc = 0, sa_receive = 0, sa_messages = [[7], []]\<rparr>]", THEN conjunct1]
    by (simp add: demo)
  then show ?thesis using r two by (simp add: demo)
qed

text \<open>
  The two programs, started for the same device, use the same transport profile, interface and
  address; the publisher's group belongs to its connection, its writer to the group and the data
  set, and it asks for the payload header, without which a subscriber, whose counter then keeps the
  zero of \<open>memset\<close>, shows nothing.
\<close>

theorem publisher_matches_subscriber:
  assumes "device \<noteq> ''-h''" "opcua_pub_main ids eth retval [prog, device] p = Inr (code, p')"
  defines "cp \<equiv> pub_config (cc_transportProfileUri (sub_config device)) device (cc_url (sub_config device))"
  shows "code = EXIT_SUCCESS \<longleftrightarrow> retval = UA_STATUSCODE_GOOD"
    and "AddPubSubConnection cp \<in> set (pub_calls p')"
    and "AddWriterGroup (new_connection ids) ''Demo WriterGroup'' 1 False 100 ''UA_PUBSUB_ENCODING_UADP''
        networkMessageContentMask \<in> set (pub_calls p')"
    and "AddDataSetWriter (new_group ids) (new_dataset ids) ''Demo DataSetWriter'' 62541 10 \<in> set (pub_calls p')"
    and "UA_UADPNETWORKMESSAGECONTENTMASK_PAYLOADHEADER \<in> set networkMessageContentMask"
    and "ph_count (payloadHeader nm) = 0 \<Longrightarrow> message_shown lib nm = []"
  using assms
  by (auto simp: opcua_pub_main_def opcua_pub_run_def addPubSubConnection_def addPublishedDataSet_def
      addDataSetField_def addWriterGroup_def addDataSetWriter_def made_def Let_def sub_config_def
      networkMessageContentMask_def message_shown_def counted_def EXIT_SUCCESS_def EXIT_FAILURE_def
      split: if_splits)

end
