(* ===== verification/KT_Delivery.thy ===== *)
theory KT_Delivery
  imports KT_System
begin

section \<open>Delivery of messages under interleaving\<close>

text \<open>
  Here the processes are interleaved inside their calls: \<open>sendmsg\<close> takes a buffer, copies the
  payload, fills the metadata and puts the index into the transmit ring as four steps, the daemon
  polls, decides, builds and transmits the frame and returns the buffer as four steps, and between
  any two of them every other process may run. A call on a ring is one step here: \<open>KT_Ringbuf_Lin\<close>
  shows that whatever callers observe of the interleaved ring is what such steps can produce, so
  that what is shown below (which is about safety) carries over; that a call waits inside the ring for
  earlier reservations is the subject of \<open>KT_Ringbuf_Conc\<close>.

  Two things the code does are counted and not left out: polls whose burst crosses the end of the
  transmit ring, and payloads of more than a buffer. Shown here: as long as there was neither, no frame
  is made up, doubled or corrupted; each accepted message is pending, was transmitted once, within its
  window, or was dropped as late.
\<close>

subsection \<open>The steps of a call\<close>

definition take_buffer :: "nat \<Rightarrow> u64 \<Rightarrow> kt_shm \<Rightarrow> (kt_shm \<times> u64 option) res" where
  "take_buffer sp junk shm =
     rbind (kt_ringbuf_dequeue_burst sp (shm_free shm) [junk] 8 1) (\<lambda>(rb, mbuf_index, nb_free, av).
     Inr (shm\<lparr>shm_free := rb\<rparr>, if nb_free = 0 then None else Some (mbuf_index ! 0)))"

definition copy_payload :: "u64 \<Rightarrow> u8 list \<Rightarrow> kt_shm \<Rightarrow> kt_shm res" where
  "copy_payload index iov shm =
     rbind (mem_write (shm_mbufs shm) (unat index * sizeof_kt_mbuf) iov (length iov)) (\<lambda>bytes.
     Inr (shm\<lparr>shm_mbufs := bytes\<rparr>))"

definition fill_metadata :: "u64 \<Rightarrow> (kt_metadata \<Rightarrow> kt_metadata) \<Rightarrow> kt_shm \<Rightarrow> kt_shm res" where
  "fill_metadata index f shm =
     rbind (arr_get (shm_metadata shm) (unat index)) (\<lambda>md.
     rbind (arr_set (shm_metadata shm) (unat index) (f md)) (\<lambda>mds.
     Inr (shm\<lparr>shm_metadata := mds\<rparr>)))"

definition put_buffer :: "nat \<Rightarrow> u64 \<Rightarrow> kt_shm \<Rightarrow> (kt_shm \<times> bool) res" where
  "put_buffer sp index shm =
     rbind (kt_ringbuf_enqueue_burst sp (shm_tx shm) [index] 8 1) (\<lambda>(tx, nb_enqueued, fs).
     Inr (shm\<lparr>shm_tx := tx\<rparr>, nb_enqueued = 1))"

text \<open>Which messages a process schedules, and what it writes into the metadata.\<close>

definition scheduled ::
  "kt_socket list \<Rightarrow> kt_interface list \<Rightarrow> int \<Rightarrow> msghdr \<Rightarrow> (u64 \<Rightarrow> kt_metadata \<Rightarrow> kt_metadata) option" where
  "scheduled sockets interfaces sockfd msg =
     (case (kt_socket_find sockets sockfd, find_txtime (msg_control msg)) of
        (Some node, Some txtime) \<Rightarrow>
          if so_txtime node = 0 then None
          else if so_domain node = Some PF_PACKET then
            (case msg_name msg of
               None \<Rightarrow> None
             | Some addr \<Rightarrow>
                 map_option (\<lambda>iface sz md. md\<lparr>md_txtime := txtime, md_size := sz,
                     md_transport := KT_METADATA_TRANSPORT_ETHERNET,
                     md_eth_src := if_mac iface, md_eth_dst := kt_multicast_mac\<rparr>)
                   (kt_interface_find interfaces (sint (sa_word addr))))
          else if so_domain node = Some AF_INET then
            (case msg_name msg of
               None \<Rightarrow> None
             | Some addr \<Rightarrow>
                 map_option (\<lambda>iface sz md. md\<lparr>md_txtime := txtime, md_size := sz,
                     md_eth_src := if_mac iface, md_eth_dst := kt_default_dst_mac,
                     md_ip_dst := ntohl (sa_word addr), md_ip_src := ntohl (sa_word (if_addr iface)),
                     md_udp_dport := ntohs (sa_half addr), md_transport := KT_METADATA_TRANSPORT_UDP\<rparr>)
                   (interface_of_net interfaces addr))
          else None
      | _ \<Rightarrow> None)"

subsection \<open>The steps of an iteration of the daemon\<close>

text \<open>The decision; \<open>Sent i\<close> means that the packet at \<open>i\<close> was taken out of the queue to be sent.\<close>

definition tx_decide :: "int \<times> int \<Rightarrow> 'd ktsnd \<Rightarrow> ('d ktsnd \<times> action) res" where
  "tx_decide clock st =
     (if kt_prio_queue_is_empty (d_queue st) \<noteq> 0 then Inr (st, Idle)
      else
        rbind (kt_get_realtime_ns (fst clock) (snd clock)) (\<lambda>now.
        rbind (kt_prio_queue_getmin (d_queue st)) (\<lambda>txtime.
        rbind (kt_get_time_diff_ns now txtime) (\<lambda>diff.
        if tx_delta_ns < diff then Inr (st, Wait)
        else if diff < 0 then
          rbind (kt_prio_queue_extract_min (d_queue st) False) (\<lambda>(q, r, d).
          Inr (st\<lparr>d_queue := q\<rparr>, Lost))
        else
          rbind (kt_prio_queue_extract_min (d_queue st) True) (\<lambda>(q, r, d).
          case d of
            None \<Rightarrow> Inl Indeterminate
          | Some mbuf_index \<Rightarrow> Inr (st\<lparr>d_queue := q\<rparr>, Sent mbuf_index))))))"

definition tx_frame :: "'d dpdk \<Rightarrow> u64 \<Rightarrow> 'd ktsnd \<Rightarrow> (rte_mbuf \<times> 'd ktsnd) res" where
  "tx_frame ops mbuf_index st =
     (case rte_pktmbuf_alloc ops (d_dev st) of
        (None, dev) \<Rightarrow> Inl NullDeref
      | (Some room, dev) \<Rightarrow>
          let tx_buf = \<lparr>mb_data = room, mb_data_len = 0, mb_pkt_len = 0, mb_next_null = True, mb_nb_segs = 1\<rparr> in
          rbind (arr_get (shm_metadata (d_shm st)) (unat mbuf_index)) (\<lambda>md.
          rbind (prepare_packet (rte_ipv4_cksum ops) tx_buf (shm_mbufs (d_shm st))
                   (unat mbuf_index * sizeof_kt_mbuf) md) (\<lambda>buf.
          let (nb_tx, dev') = rte_eth_tx_burst ops dev buf in
          Inr (buf, st\<lparr>d_dev := dev'\<rparr>))))"

definition tx_return :: "nat \<Rightarrow> u64 \<Rightarrow> 'd ktsnd \<Rightarrow> 'd ktsnd res" where
  "tx_return sp mbuf_index st =
     rbind (kt_ringbuf_enqueue_burst sp (shm_free (d_shm st)) [mbuf_index] 8 1) (\<lambda>(rb, n, fs).
     rbind (i64_checked (d_counter st + 1)) (\<lambda>c.
     Inr (st\<lparr>d_shm := (d_shm st)\<lparr>shm_free := rb\<rparr>, d_counter := c\<rparr>)))"

subsection \<open>The steps make up the calls\<close>

lemma hand_over_steps:
  assumes "rb_wf (shm_free (g_shm st))"
  shows "hand_over sp junk msg fill st =
    rbind (take_buffer sp junk (g_shm st)) (\<lambda>(shm1, i).
      case i of
        None \<Rightarrow> Inr (st\<lparr>g_shm := shm1\<rparr>, - ENOBUFS)
      | Some index \<Rightarrow>
          rbind (arr_get (msg_iov msg) 0) (\<lambda>iov.
          rbind (copy_payload index iov shm1) (\<lambda>shm2.
          rbind (fill_metadata index (fill (of_nat (length iov))) shm2) (\<lambda>shm3.
          rbind (put_buffer sp index shm3) (\<lambda>(shm4, ok).
          Inr (st\<lparr>g_shm := shm4\<rparr>, if ok then int (length iov) else - ENOBUFS))))))"
proof (cases "rb_items (shm_free (g_shm st))")
  case Nil
  then show ?thesis
    using dequeue_none [OF assms, of sp junk] by (auto simp: hand_over_def take_buffer_def Let_def)
next
  case (Cons x xs)
  obtain rb av where d: "kt_ringbuf_dequeue_burst sp (shm_free (g_shm st)) [junk] 8 1 = Inr (rb, [x], 1, av)"
    using dequeue_one [OF assms Cons, of sp junk] by blast
  show ?thesis
    by (auto simp: hand_over_def take_buffer_def copy_payload_def fill_metadata_def put_buffer_def Let_def d
        rbind_def split: sum.splits)
qed

lemma sendmsg_scheduled:
  assumes "scheduled (g_socket_list st) (g_interface_list st) sockfd msg = Some fill"
  shows "sendmsg libc sp junk sockfd msg flags st =
    rbind (hand_over sp junk msg fill st) (\<lambda>(st', r). Inr (st', Some r))"
  using assms
  by (auto simp: scheduled_def sendmsg_def sendmsg_packet_def sendmsg_inet_def kt_interface_get_by_net_def
      Let_def split: option.splits if_splits)

lemma interface_found: "kt_interface_find is n = Some i \<Longrightarrow> i \<in> set is" "interface_of_net is a = Some i \<Longrightarrow> i \<in> set is"
  by (induction "is") (auto split: if_splits)

text \<open>What a call writes: the size it was given and addresses of six bytes.\<close>

definition fills :: "(u64 \<Rightarrow> kt_metadata \<Rightarrow> kt_metadata) \<Rightarrow> bool" where
  "fills f \<longleftrightarrow> (\<forall>sz md. md_size (f sz md) = sz \<and> length (md_eth_src (f sz md)) = 6 \<and> length (md_eth_dst (f sz md)) = 6)"

lemma scheduled_fills:
  assumes "scheduled ss is sockfd msg = Some fill" "\<forall>iface \<in> set is. length (if_mac iface) = 6"
  shows "fills fill"
  using assms
  by (auto simp: scheduled_def fills_def kt_multicast_mac_def kt_default_dst_mac_def dest: interface_found
      split: option.splits if_splits)

lemma ktsnd_tx_steps:
  "ktsnd_tx ops sp clock st =
    rbind (tx_decide clock st) (\<lambda>(st1, a).
      case a of
        Sent i \<Rightarrow> rbind (tx_frame ops i st1) (\<lambda>(mb, st2). rbind (tx_return sp i st2) (\<lambda>st3. Inr (st3, Sent i)))
      | _ \<Rightarrow> Inr (st1, a))"
proof -
  have send: "ktsnd_send ops sp i st1 = rbind (tx_frame ops i st1) (\<lambda>(mb, st2). tx_return sp i st2)" for i st1
    by (cases st1 rule: ktsnd.cases)
      (simp add: ktsnd_send_def tx_frame_def tx_return_def Let_def rbind_assoc case_prod_unfold
        split: option.splits)
  show ?thesis
    by (simp add: ktsnd_tx_def tx_decide_def send rbind_assoc case_prod_unfold if_distrib [of "\<lambda>m. rbind m _"]
        option.case_distrib [of "\<lambda>m. rbind m _"] cong: option.case_cong if_cong)
qed

subsection \<open>Processes\<close>

text \<open>A packet is its metadata and its payload.\<close>

type_synonym packet = "kt_metadata \<times> u8 list"

text \<open>
  Where a process is in \<open>sendmsg\<close>, with the index it holds, the payload and what it writes into the
  metadata; where the daemon is in its loop.
\<close>

datatype call =
    Ready
  | Taken u64 "u8 list" "u64 \<Rightarrow> kt_metadata \<Rightarrow> kt_metadata"
  | Copied u64 "u8 list" "u64 \<Rightarrow> kt_metadata \<Rightarrow> kt_metadata"
  | Filled u64 packet

datatype daemon_pc =
    DPoll
  | DDecide
  | DFrame u64 "int \<times> int"
  | DReturn u64

text \<open>
  The last five fields record what happened: the packets for which \<open>sendmsg\<close> reported success,
  those handed to the device with the time of the decision and the frame, those dropped; the number of
  polls that crossed the end of the transmit ring and of messages longer than a buffer.
\<close>

record 'd world =
  w_daemon :: "'d ktsnd"
  w_calls :: "call list"
  w_pc :: daemon_pc
  w_accepted :: "packet list"
  w_sent :: "(packet \<times> (int \<times> int) \<times> rte_mbuf) list"
  w_dropped :: "(packet \<times> (int \<times> int)) list"
  w_crossed :: nat
  w_overlong :: nat

definition w_shm :: "'d world \<Rightarrow> kt_shm" where
  "w_shm w = d_shm (w_daemon w)"

definition set_shm :: "kt_shm \<Rightarrow> 'd world \<Rightarrow> 'd world" where
  "set_shm shm w = w\<lparr>w_daemon := (w_daemon w)\<lparr>d_shm := shm\<rparr>\<rparr>"

text \<open>What lies in the segment for an index.\<close>

definition content :: "kt_shm \<Rightarrow> u64 \<Rightarrow> packet" where
  "content shm i =
     (let md = shm_metadata shm ! unat i
      in (md, take (unat (md_size md)) (drop (unat i * sizeof_kt_mbuf) (shm_mbufs shm))))"

inductive world_step :: "'d dpdk \<Rightarrow> 'd world \<Rightarrow> 'd world \<Rightarrow> bool" for ops where
  w_take: "t < length (w_calls w) \<Longrightarrow> w_calls w ! t = Ready \<Longrightarrow>
    scheduled sockets interfaces fd msg = Some fill \<Longrightarrow> (\<forall>iface \<in> set interfaces. length (if_mac iface) = 6) \<Longrightarrow>
    msg_iov msg = iov # iovs \<Longrightarrow>
    take_buffer sp junk (w_shm w) = Inr (shm, r) \<Longrightarrow>
    world_step ops w ((set_shm shm w)\<lparr>w_calls := (w_calls w)[t :=
      (case r of None \<Rightarrow> Ready | Some i \<Rightarrow> Taken i iov fill)],
      w_overlong := w_overlong w + (if length iov \<le> sizeof_kt_mbuf then 0 else 1)\<rparr>)"
| w_copy: "t < length (w_calls w) \<Longrightarrow> w_calls w ! t = Taken i iov fill \<Longrightarrow>
    copy_payload i iov (w_shm w) = Inr shm \<Longrightarrow>
    world_step ops w ((set_shm shm w)\<lparr>w_calls := (w_calls w)[t := Copied i iov fill]\<rparr>)"
| w_fill: "t < length (w_calls w) \<Longrightarrow> w_calls w ! t = Copied i iov fill \<Longrightarrow>
    fill_metadata i (fill (of_nat (length iov))) (w_shm w) = Inr shm \<Longrightarrow>
    world_step ops w ((set_shm shm w)\<lparr>w_calls := (w_calls w)[t :=
      Filled i (fill (of_nat (length iov)) (shm_metadata (w_shm w) ! unat i), iov)]\<rparr>)"
| w_put: "t < length (w_calls w) \<Longrightarrow> w_calls w ! t = Filled i p \<Longrightarrow>
    put_buffer sp i (w_shm w) = Inr (shm, ok) \<Longrightarrow>
    world_step ops w ((set_shm shm w)\<lparr>w_calls := (w_calls w)[t := Ready],
      w_accepted := w_accepted w @ (if ok then [p] else [])\<rparr>)"
| w_poll: "w_pc w = DPoll \<Longrightarrow> length table = 64 \<Longrightarrow>
    ktsnd_intake sp table (w_daemon w) = Inr d \<Longrightarrow>
    world_step ops w (w\<lparr>w_daemon := d, w_pc := DDecide,
      w_crossed := w_crossed w + (if no_crossing (shm_tx (w_shm w)) then 0 else 1)\<rparr>)"
| w_decide: "w_pc w = DDecide \<Longrightarrow> tx_decide clock (w_daemon w) = Inr (d, act) \<Longrightarrow>
    world_step ops w (w\<lparr>w_daemon := d,
      w_pc := (case act of Sent i \<Rightarrow> DFrame i clock | _ \<Rightarrow> DPoll),
      w_dropped := w_dropped w @ (if act = Lost
        then [(content (w_shm w) (data (elems (d_queue (w_daemon w)) ! 0)), clock)] else [])\<rparr>)"
| w_frame: "w_pc w = DFrame i clock \<Longrightarrow> tx_frame ops i (w_daemon w) = Inr (mb, d) \<Longrightarrow>
    world_step ops w (w\<lparr>w_daemon := d, w_pc := DReturn i,
      w_sent := w_sent w @ [(content (w_shm w) i, clock, mb)]\<rparr>)"
| w_return: "w_pc w = DReturn i \<Longrightarrow> tx_return sp i (w_daemon w) = Inr d \<Longrightarrow>
    world_step ops w (w\<lparr>w_daemon := d, w_pc := DPoll\<rparr>)"

subsection \<open>Invariant\<close>

text \<open>Who owns an index: the rings, the queue, a process inside its call, the daemon while it sends.\<close>

fun held :: "call \<Rightarrow> u64 list" where
  "held Ready = []"
| "held (Taken i iov fill) = [i]"
| "held (Copied i iov fill) = [i]"
| "held (Filled i p) = [i]"

definition all_held :: "call list \<Rightarrow> u64 multiset" where
  "all_held cs = mset (concat (map held cs))"

fun unsent :: "daemon_pc \<Rightarrow> u64 list" where
  "unsent (DFrame i clock) = [i]"
| "unsent pc = []"

fun unreturned :: "daemon_pc \<Rightarrow> u64 list" where
  "unreturned (DReturn i) = [i]"
| "unreturned pc = []"

definition in_flight :: "'d world \<Rightarrow> u64 multiset" where
  "in_flight w = mset (rb_items (shm_tx (w_shm w))) + queue_indices (d_queue (w_daemon w)) + mset (unsent (w_pc w))"

definition owned :: "'d world \<Rightarrow> u64 multiset" where
  "owned w = in_flight w + mset (rb_items (shm_free (w_shm w))) + all_held (w_calls w) + mset (unreturned (w_pc w))"

definition resources_ok :: "'d world \<Rightarrow> bool" where
  "resources_ok w \<longleftrightarrow> shm_ok (w_shm w) \<and> 127 * sizeof_kt_mbuf \<le> length (shm_mbufs (w_shm w)) \<and>
     pq_wf (d_queue (w_daemon w)) \<and> pq_cap (d_queue (w_daemon w)) = 127 \<and> owned w \<subseteq># all_indices"

text \<open>A packet that fits its buffer.\<close>

definition fitting :: "packet \<Rightarrow> bool" where
  "fitting p \<longleftrightarrow> unat (md_size (fst p)) \<le> 2048 \<and> length (md_eth_src (fst p)) = 6 \<and> length (md_eth_dst (fst p)) = 6"

definition tx_time :: "packet \<Rightarrow> int" where
  "tx_time p = i64_of_u64 (md_txtime (fst p))"

fun call_ok :: "kt_shm \<Rightarrow> call \<Rightarrow> bool" where
  "call_ok shm Ready \<longleftrightarrow> True"
| "call_ok shm (Taken i iov fill) \<longleftrightarrow> length iov \<le> 2048 \<and> fills fill"
| "call_ok shm (Copied i iov fill) \<longleftrightarrow> length iov \<le> 2048 \<and> fills fill \<and>
     take (length iov) (drop (unat i * sizeof_kt_mbuf) (shm_mbufs shm)) = iov"
| "call_ok shm (Filled i p) \<longleftrightarrow> content shm i = p \<and> fitting p"

text \<open>Time of the decision: before the window, within it, or too late.\<close>

definition early :: "int \<times> int \<Rightarrow> int \<Rightarrow> bool" where
  "early clock t \<longleftrightarrow> (case kt_get_realtime_ns (fst clock) (snd clock) of
     Inl e \<Rightarrow> False | Inr now \<Rightarrow> now + tx_delta_ns < t)"

definition due :: "int \<times> int \<Rightarrow> int \<Rightarrow> bool" where
  "due clock t \<longleftrightarrow> (case kt_get_realtime_ns (fst clock) (snd clock) of
     Inl e \<Rightarrow> False | Inr now \<Rightarrow> now \<le> t \<and> t \<le> now + tx_delta_ns)"

definition late :: "int \<times> int \<Rightarrow> int \<Rightarrow> bool" where
  "late clock t \<longleftrightarrow> (case kt_get_realtime_ns (fst clock) (snd clock) of Inl e \<Rightarrow> False | Inr now \<Rightarrow> t < now)"

definition data_ok :: "'d world \<Rightarrow> bool" where
  "data_ok w \<longleftrightarrow> (\<forall>c \<in> set (w_calls w). call_ok (w_shm w) c) \<and>
     (\<forall>i \<in># in_flight w. fitting (content (w_shm w) i)) \<and>
     (\<forall>n \<in># pq_mset (d_queue (w_daemon w)). prio n = tx_time (content (w_shm w) (data n))) \<and>
     (\<forall>i clock. w_pc w = DFrame i clock \<longrightarrow> due clock (tx_time (content (w_shm w) i)))"

text \<open>What a receiver makes of a frame: a UDP datagram, or the bytes the application gave.\<close>

definition framed :: "packet \<Rightarrow> rte_mbuf \<Rightarrow> bool" where
  "framed p mb \<longleftrightarrow>
     (if md_transport (fst p) = KT_METADATA_TRANSPORT_UDP
      then parse_udp (mbuf_frame mb) = Some \<lparr>v_eth_dst = md_eth_dst (fst p), v_eth_src = md_eth_src (fst p),
        v_ip_src = md_ip_src (fst p), v_ip_dst = md_ip_dst (fst p), v_sport = 9999,
        v_dport = md_udp_dport (fst p), v_payload = snd p\<rparr>
      else mbuf_frame mb = snd p)"

definition log_ok :: "'d world \<Rightarrow> bool" where
  "log_ok w \<longleftrightarrow> (\<forall>(p, clock, mb) \<in> set (w_sent w). due clock (tx_time p) \<and> framed p mb) \<and>
     (\<forall>(p, clock) \<in> set (w_dropped w). late clock (tx_time p))"

text \<open>The account: what was accepted is on its way, was sent or was dropped, each once.\<close>

definition account_ok :: "'d world \<Rightarrow> bool" where
  "account_ok w \<longleftrightarrow> mset (w_accepted w) = image_mset (content (w_shm w)) (in_flight w) +
     mset (map fst (w_sent w)) + mset (map fst (w_dropped w))"

definition world_inv :: "'d world \<Rightarrow> bool" where
  "world_inv w \<longleftrightarrow> resources_ok w \<and> data_ok w \<and> log_ok w \<and> account_ok w"

subsection \<open>Ownership\<close>

definition others :: "call list \<Rightarrow> nat \<Rightarrow> u64 multiset" where
  "others cs t = all_held (take t cs @ drop (Suc t) cs)"

lemma held_update: "t < length cs \<Longrightarrow> all_held (cs[t := c]) = mset (held c) + others cs t"
  by (simp add: upd_conv_take_nth_drop all_held_def others_def)

lemma held_at: "t < length cs \<Longrightarrow> all_held cs = mset (held (cs ! t)) + others cs t"
  using held_update [of t cs "cs ! t"] by simp

lemma held_others: "t < length cs \<Longrightarrow> c \<in> set (cs[t := Ready]) \<Longrightarrow> j \<in> set (held c) \<Longrightarrow> j \<in># others cs t"
  by (auto simp: upd_conv_take_nth_drop all_held_def others_def)

lemma owner_unique:
  assumes "A + B \<subseteq># all_indices" "i \<in># A" "j \<in># B"
  shows "i \<noteq> j"
proof
  assume "i = j"
  then have "2 \<le> count (A + B) i" using assms(2,3) by (simp add: Suc_le_eq flip: count_greater_zero_iff)
  moreover have "count (A + B) i \<le> count all_indices i" using assms(1) by (simp only: subseteq_mset_def)
  ultimately show False using all_indices_unique [of i] by linarith
qed

text \<open>A step of an application that holds \<open>i\<close>: nobody else has anything to do with \<open>i\<close>.\<close>

lemma holder_alone:
  assumes "resources_ok w" "t < length (w_calls w)" "i \<in> set (held (w_calls w ! t))"
  shows "unat i < 127" "j \<in># in_flight w \<Longrightarrow> j \<noteq> i"
    "c \<in> set ((w_calls w)[t := Ready]) \<Longrightarrow> j \<in> set (held c) \<Longrightarrow> j \<noteq> i"
proof -
  have sub: "owned w \<subseteq># all_indices" using assms(1) by (simp add: resources_ok_def)
  note R = held_at [OF assms(2)]
  have i: "i \<in># mset (held (w_calls w ! t))" using assms(3) by simp
  then have "i \<in># owned w" by (simp add: owned_def R)
  then show "unat i < 127" using all_indices_bound mset_subset_eqD [OF sub] by blast
  show "j \<noteq> i" if "j \<in># in_flight w" for j
  proof (rule owner_unique [OF _ that])
    show "in_flight w + (mset (held (w_calls w ! t)) + (others (w_calls w) t +
        mset (rb_items (shm_free (w_shm w))) + mset (unreturned (w_pc w)))) \<subseteq># all_indices"
      using sub unfolding owned_def R by (simp add: ac_simps)
  qed (use i in simp)
  show "j \<noteq> i" if "c \<in> set ((w_calls w)[t := Ready])" "j \<in> set (held c)" for j c
  proof (rule owner_unique)
    show "j \<in># others (w_calls w) t + (in_flight w + mset (rb_items (shm_free (w_shm w))) + mset (unreturned (w_pc w)))"
      using held_others [OF assms(2) that] by simp
    show "others (w_calls w) t + (in_flight w + mset (rb_items (shm_free (w_shm w))) + mset (unreturned (w_pc w))) +
        mset (held (w_calls w ! t)) \<subseteq># all_indices"
      using sub unfolding owned_def R by (simp add: ac_simps)
  qed (use i in simp)
qed

subsection \<open>What a step leaves alone\<close>

lemma content_rings [simp]:
  "content (shm\<lparr>shm_free := fr\<rparr>) = content shm" "content (shm\<lparr>shm_tx := tx\<rparr>) = content shm"
  by (simp_all add: fun_eq_iff content_def)

lemma call_ok_rings [simp]:
  "call_ok (shm\<lparr>shm_free := fr\<rparr>) c = call_ok shm c" "call_ok (shm\<lparr>shm_tx := tx\<rparr>) c = call_ok shm c"
  by (cases c; simp)+

text \<open>A copy of at most 2048 bytes into buffer \<open>i\<close> changes no byte of another buffer.\<close>

lemma copy_other:
  assumes "copy_payload i iov shm = Inr shm'" "length iov \<le> 2048" "j \<noteq> i" "n \<le> 2048"
  shows "take n (drop (unat j * sizeof_kt_mbuf) (shm_mbufs shm')) = take n (drop (unat j * sizeof_kt_mbuf) (shm_mbufs shm))"
proof -
  have w: "shm_mbufs shm' = blit (length iov) (shm_mbufs shm) (unat i * 2048) iov 0"
      "unat i * 2048 + length iov \<le> length (shm_mbufs shm)"
    using assms(1) by (auto simp: copy_payload_def rbind_eq_Inr mem_write_def sizeof_kt_mbuf_def split: if_splits)
  have "unat j \<noteq> unat i" using assms(3) by (simp add: word_unat_eq_iff)
  then have "unat j * 2048 + n \<le> unat i * 2048 \<or> unat i * 2048 + length iov \<le> unat j * 2048"
    using assms(2,4) by (cases "unat j < unat i") auto
  then show ?thesis
    using field_write_other [of "unat j * 2048" n "unat i * 2048" "length iov" "shm_mbufs shm" iov] w
    by (simp add: field_def sizeof_kt_mbuf_def)
qed

lemma copy_shape:
  "copy_payload i iov shm = Inr shm' \<Longrightarrow> \<exists>bs. shm' = shm\<lparr>shm_mbufs := bs\<rparr> \<and> length bs = length (shm_mbufs shm)"
  by (auto simp: copy_payload_def rbind_eq_Inr mem_write_def split: if_splits)

lemma copy_own:
  assumes "copy_payload i iov shm = Inr shm'"
  shows "take (length iov) (drop (unat i * sizeof_kt_mbuf) (shm_mbufs shm')) = iov"
  using assms by (auto simp: copy_payload_def rbind_eq_Inr mem_write_def blit_slices split: if_splits)

lemma copy_content:
  assumes "copy_payload i iov shm = Inr shm'" "length iov \<le> 2048" "j \<noteq> i" "fitting (content shm j)"
  shows "content shm' j = content shm j"
proof -
  have "shm_metadata shm' = shm_metadata shm" using copy_shape [OF assms(1)] by auto
  then show ?thesis
    using copy_other [OF assms(1-3), of "unat (md_size (shm_metadata shm ! unat j))"] assms(4)
    by (simp add: content_def Let_def fitting_def)
qed

lemma fill_shape:
  "fill_metadata i f shm = Inr shm' \<Longrightarrow>
   shm' = shm\<lparr>shm_metadata := (shm_metadata shm)[unat i := f (shm_metadata shm ! unat i)]\<rparr> \<and>
   unat i < length (shm_metadata shm)"
  by (auto simp: fill_metadata_def rbind_eq_Inr arr_get_eq_Inr arr_set_eq_Inr)

lemma fill_content:
  assumes "fill_metadata i f shm = Inr shm'" "j \<noteq> i"
  shows "content shm' j = content shm j"
proof -
  have "unat j \<noteq> unat i" using assms(2) by (simp add: word_unat_eq_iff)
  then show ?thesis using fill_shape [OF assms(1)] by (auto simp: content_def)
qed

text \<open>So a call that does not hold \<open>i\<close> is as it was.\<close>

lemma call_ok_copy:
  assumes "copy_payload i iov shm = Inr shm'" "length iov \<le> 2048" "i \<notin> set (held c)" "call_ok shm c"
  shows "call_ok shm' c"
proof (cases c)
  case (Copied j bs f)
  then show ?thesis using copy_other [OF assms(1,2), of j "length bs"] assms(3,4) by simp
next
  case (Filled j p)
  then show ?thesis using copy_content [OF assms(1,2), of j] assms(3,4) by auto
qed (use assms(4) in simp_all)

lemma call_ok_fill:
  assumes "fill_metadata i f shm = Inr shm'" "i \<notin> set (held c)" "call_ok shm c"
  shows "call_ok shm' c"
proof (cases c)
  case (Copied j bs g)
  then show ?thesis using fill_shape [OF assms(1)] assms(3) by auto
next
  case (Filled j p)
  then show ?thesis using fill_content [OF assms(1), of j] assms(2,3) by auto
qed (use assms(3) in simp_all)

subsection \<open>Steps of an application\<close>

lemmas world_shape = w_shm_def set_shm_def in_flight_def owned_def

lemma account_same:
  assumes "account_ok w" "w_accepted w' = w_accepted w" "w_sent w' = w_sent w" "w_dropped w' = w_dropped w"
    and "in_flight w' = in_flight w" "\<And>i. i \<in># in_flight w \<Longrightarrow> content (w_shm w') i = content (w_shm w) i"
  shows "account_ok w'"
proof -
  have "image_mset (content (w_shm w')) (in_flight w) = image_mset (content (w_shm w)) (in_flight w)"
    using assms(6) by (rule image_mset_cong)
  then show ?thesis using assms(1-5) by (simp add: account_ok_def)
qed

lemma take_result:
  assumes "shm_ok shm" "take_buffer sp junk shm = Inr (shm', r)"
  shows "\<exists>rb. shm' = shm\<lparr>shm_free := rb\<rparr> \<and> shm_ok shm' \<and>
    rb_items (shm_free shm) = (case r of None \<Rightarrow> [] | Some i \<Rightarrow> [i]) @ rb_items rb"
proof (cases "rb_items (shm_free shm)")
  case Nil
  then show ?thesis
    using dequeue_none [OF _ Nil, of sp junk] assms
    by (intro exI [of _ "shm_free shm"]) (auto simp: take_buffer_def shm_ok_def)
next
  case (Cons x xs)
  then show ?thesis
    using dequeue_one [OF _ Cons, of sp junk] assms
    by (intro exI [of _ "shm_free shm'"]) (auto simp: take_buffer_def shm_ok_def)
qed

lemma put_result:
  assumes "shm_ok shm" "length (rb_items (shm_tx shm)) < 127" "put_buffer sp i shm = Inr (shm', ok)"
  shows "ok \<and> (\<exists>tx. shm' = shm\<lparr>shm_tx := tx\<rparr> \<and> shm_ok shm' \<and> rb_items tx = rb_items (shm_tx shm) @ [i])"
  using enqueue_one [of "shm_tx shm" sp i] assms
  by (intro conjI exI [of _ "shm_tx shm'"]) (auto simp: put_buffer_def shm_ok_def)

lemma take_step:
  fixes n :: nat
  assumes inv: "world_inv w" and t: "t < length (w_calls w)" "w_calls w ! t = Ready"
    and msg: "fills fill" "length iov \<le> 2048" and call: "take_buffer sp junk (w_shm w) = Inr (shm, r)"
  defines "w' \<equiv> (set_shm shm w)\<lparr>w_calls := (w_calls w)[t :=
      (case r of None \<Rightarrow> Ready | Some i \<Rightarrow> Taken i iov fill)], w_overlong := n\<rparr>"
  shows "world_inv w'"
proof -
  obtain rb where shm: "shm = (w_shm w)\<lparr>shm_free := rb\<rparr>" "shm_ok shm"
      and items: "rb_items (shm_free (w_shm w)) = (case r of None \<Rightarrow> [] | Some i \<Rightarrow> [i]) @ rb_items rb"
    using take_result [OF _ call] inv by (auto simp: world_inv_def resources_ok_def)
  have fl: "in_flight w' = in_flight w" "w_shm w' = shm" by (simp_all add: w'_def shm world_shape)
  have "owned w' = owned w"
    using held_at [OF t(1)] t fl
    by (cases r) (simp_all add: owned_def held_update w'_def items, simp_all add: shm world_shape items)
  then have "resources_ok w'" using inv shm fl(2) by (auto simp: world_inv_def resources_ok_def) (simp_all add: w'_def set_shm_def)
  moreover have "data_ok w'"
    using inv msg fl unfolding world_inv_def data_ok_def shm
    by (auto simp: w'_def set_shm_def split: option.splits dest!: set_update_subset_insert [THEN subsetD])
  moreover have "log_ok w'" using inv by (simp add: world_inv_def log_ok_def w'_def set_shm_def)
  moreover have "account_ok w'"
    by (rule account_same [of w]) (use inv fl in \<open>simp_all add: world_inv_def w'_def set_shm_def shm\<close>)
  ultimately show ?thesis by (simp add: world_inv_def)
qed

text \<open>A step that writes only what the process holds, and keeps holding it.\<close>

lemma write_step:
  assumes inv: "world_inv w" and t: "t < length (w_calls w)" "held (w_calls w ! t) = [i]" "held c = [i]"
    and shm: "shm_tx shm = shm_tx (w_shm w)" "shm_free shm = shm_free (w_shm w)"
      "length (shm_mbufs shm) = length (shm_mbufs (w_shm w))"
      "length (shm_metadata shm) = length (shm_metadata (w_shm w))"
    and keep: "\<And>j. j \<noteq> i \<Longrightarrow> fitting (content (w_shm w) j) \<Longrightarrow> content shm j = content (w_shm w) j"
      "\<And>c'. i \<notin> set (held c') \<Longrightarrow> call_ok (w_shm w) c' \<Longrightarrow> call_ok shm c'"
    and c: "call_ok shm c"
  defines "w' \<equiv> (set_shm shm w)\<lparr>w_calls := (w_calls w)[t := c]\<rparr>"
  shows "world_inv w'"
proof -
  have res: "resources_ok w" and dat: "data_ok w" and log: "log_ok w" and acc: "account_ok w" using inv by (auto simp: world_inv_def)
  have fl: "in_flight w' = in_flight w" "w_shm w' = shm" "d_queue (w_daemon w') = d_queue (w_daemon w)" "w_pc w' = w_pc w"
    by (simp_all add: w'_def world_shape shm(1) [unfolded w_shm_def])
  have i: "i \<in> set (held (w_calls w ! t))" using t(2) by simp
  note alone = holder_alone [OF res t(1) i]
  have same: "content shm j = content (w_shm w) j" if "j \<in># in_flight w" for j
    using keep(1) [OF alone(2) [OF that]] that dat by (simp add: data_ok_def)
  have "owned w' = owned w"
    using held_at [OF t(1)] fl shm(2) t by (simp add: owned_def w'_def set_shm_def held_update)
  then have "resources_ok w'"
    using res fl shm unfolding resources_ok_def shm_ok_def by simp
  moreover have "data_ok w'"
  proof -
    have "call_ok shm c'" if "c' \<in> set (w_calls w')" for c'
    proof -
      have "c' = c \<or> c' \<in> set ((w_calls w)[t := Ready])" "c' = c \<or> c' \<in> set (w_calls w)"
        using that t(1) by (auto simp: w'_def set_conv_nth nth_list_update) metis+
      then show ?thesis using c keep(2) [of c'] alone(3) [of c'] dat by (auto simp: data_ok_def)
    qed
    moreover have "data n \<in># in_flight w" if "n \<in># pq_mset (d_queue (w_daemon w))" for n
      using that by (simp add: in_flight_def queue_indices_def)
    moreover have "j \<in># in_flight w" if "w_pc w = DFrame j clock" for j clock
      using that by (simp add: in_flight_def)
    ultimately show ?thesis using dat same unfolding data_ok_def fl by auto
  qed
  moreover have "log_ok w'" using log by (simp add: log_ok_def w'_def set_shm_def)
  moreover have "account_ok w'"
    by (rule account_same [of w]) (use inv fl same in \<open>simp_all add: world_inv_def w'_def set_shm_def\<close>)
  ultimately show ?thesis by (simp add: world_inv_def)
qed

lemma call_ok_at: "world_inv w \<Longrightarrow> t < length (w_calls w) \<Longrightarrow> call_ok (w_shm w) (w_calls w ! t)"
  by (auto simp: world_inv_def data_ok_def)

lemma copy_step:
  assumes "world_inv w" "t < length (w_calls w)" "w_calls w ! t = Taken i iov fill"
    and call: "copy_payload i iov (w_shm w) = Inr shm"
  defines "w' \<equiv> (set_shm shm w)\<lparr>w_calls := (w_calls w)[t := Copied i iov fill]\<rparr>"
  shows "world_inv w'"
proof -
  have ok: "length iov \<le> 2048" "fills fill" using call_ok_at [OF assms(1,2)] assms(3) by simp_all
  show ?thesis
    unfolding w'_def
  proof (rule write_step [OF assms(1,2)])
    show "call_ok shm (Copied i iov fill)" using ok copy_own [OF call] by simp
    show "content shm j = content (w_shm w) j" if "j \<noteq> i" "fitting (content (w_shm w) j)" for j
      using copy_content [OF call ok(1) that] .
    show "call_ok shm c" if "i \<notin> set (held c)" "call_ok (w_shm w) c" for c
      using call_ok_copy [OF call ok(1) that] .
  qed (use copy_shape [OF call] assms(3) in auto)
qed

lemma fill_step:
  assumes "world_inv w" "t < length (w_calls w)" "w_calls w ! t = Copied i iov fill"
    and call: "fill_metadata i (fill (of_nat (length iov))) (w_shm w) = Inr shm"
  defines "w' \<equiv> (set_shm shm w)\<lparr>w_calls := (w_calls w)[t :=
      Filled i (fill (of_nat (length iov)) (shm_metadata (w_shm w) ! unat i), iov)]\<rparr>"
  shows "world_inv w'"
proof -
  have ok: "length iov \<le> 2048" "fills fill" "take (length iov) (drop (unat i * sizeof_kt_mbuf) (shm_mbufs (w_shm w))) = iov"
    using call_ok_at [OF assms(1,2)] assms(3) by simp_all
  note shape = fill_shape [OF call]
  let ?md = "fill (of_nat (length iov)) (shm_metadata (w_shm w) ! unat i)"
  have md: "shm_metadata shm ! unat i = ?md" "shm_mbufs shm = shm_mbufs (w_shm w)" using shape by auto
  have sz: "unat (md_size ?md) = length iov"
    using ok(1,2) unat_of_nat_u64 [of "md_size ?md" "length iov"] by (simp add: fills_def)
  show ?thesis
    unfolding w'_def
  proof (rule write_step [OF assms(1,2)])
    show "call_ok shm (Filled i (?md, iov))"
      using ok sz md by (auto simp: content_def fitting_def fills_def)
    show "content shm j = content (w_shm w) j" if "j \<noteq> i" "fitting (content (w_shm w) j)" for j
      using fill_content [OF call that(1)] .
    show "call_ok shm c" if "i \<notin> set (held c)" "call_ok (w_shm w) c" for c
      using call_ok_fill [OF call that] .
  qed (use shape assms(3) in auto)
qed

lemma owned_size: "resources_ok w \<Longrightarrow> size (owned w) \<le> 127"
  using size_mset_mono [of "owned w" all_indices] by (simp add: resources_ok_def all_indices_size)

lemma put_step:
  assumes inv: "world_inv w" and t: "t < length (w_calls w)" "w_calls w ! t = Filled i p"
    and call: "put_buffer sp i (w_shm w) = Inr (shm, ok)"
  defines "w' \<equiv> (set_shm shm w)\<lparr>w_calls := (w_calls w)[t := Ready], w_accepted := w_accepted w @ (if ok then [p] else [])\<rparr>"
  shows "world_inv w'"
proof -
  have res: "resources_ok w" and dat: "data_ok w" and log: "log_ok w" and acc: "account_ok w" using inv by (auto simp: world_inv_def)
  have p: "content (w_shm w) i = p" "fitting p" using call_ok_at [OF inv t(1)] t(2) by simp_all
  have "length (rb_items (shm_tx (w_shm w))) < 127"
    using owned_size [OF res] held_at [OF t(1)] t(2) by (simp add: owned_def in_flight_def)
  then obtain tx where ok: "ok" and shm: "shm = (w_shm w)\<lparr>shm_tx := tx\<rparr>" "shm_ok shm"
      "rb_items tx = rb_items (shm_tx (w_shm w)) @ [i]"
    using put_result [OF _ _ call] res by (auto simp: resources_ok_def)
  have fl: "in_flight w' = add_mset i (in_flight w)" "w_shm w' = shm" "d_queue (w_daemon w') = d_queue (w_daemon w)"
      "w_pc w' = w_pc w"
    by (simp_all add: w'_def world_shape shm(1)) (simp add: shm(3) w_shm_def)
  have "shm_free shm = shm_free (w_shm w)" by (simp add: shm(1))
  then have "owned w' = owned w"
    using held_at [OF t(1)] fl t by (simp add: owned_def w'_def set_shm_def held_update)
  then have "resources_ok w'" using res fl shm by (auto simp: resources_ok_def)
  moreover have "data_ok w'"
  proof -
    have "\<forall>c \<in> set (w_calls w'). c = Ready \<or> c \<in> set (w_calls w)"
      using set_update_subset_insert [of "w_calls w" t Ready] by (auto simp: w'_def)
    then show ?thesis using dat p fl unfolding data_ok_def fl shm(1) by auto
  qed
  moreover have "log_ok w'" using log by (simp add: log_ok_def w'_def set_shm_def)
  moreover have "account_ok w'"
    using inv fl ok p(1) by (simp add: world_inv_def account_ok_def w'_def set_shm_def shm(1))
  ultimately show ?thesis by (simp add: world_inv_def)
qed

subsection \<open>Steps of the daemon\<close>

text \<open>
  All of them leave the packets of the segment as they are; what is left to show of a step is what
  happens to the indices and to the record of what was sent and dropped.
\<close>

lemma daemon_step_inv:
  assumes "world_inv w" "w_calls w' = w_calls w" "content (w_shm w') = content (w_shm w)"
    and "shm_mbufs (w_shm w') = shm_mbufs (w_shm w)"
    and "shm_ok (w_shm w')" "pq_wf (d_queue (w_daemon w'))" "pq_cap (d_queue (w_daemon w')) = 127"
    and "owned w' \<subseteq># owned w" "in_flight w' \<subseteq># in_flight w"
    and "\<forall>n \<in># pq_mset (d_queue (w_daemon w')). prio n = tx_time (content (w_shm w) (data n))"
    and "\<forall>i clock. w_pc w' = DFrame i clock \<longrightarrow> due clock (tx_time (content (w_shm w) i))"
    and "log_ok w'" "account_ok w'"
  shows "world_inv w'"
proof -
  have res: "resources_ok w" and dat: "data_ok w" using assms(1) by (auto simp: world_inv_def)
  have "owned w' \<subseteq># all_indices" using res assms(8) by (auto simp: resources_ok_def)
  then have "resources_ok w'" using res assms(4-7) by (simp add: resources_ok_def)
  moreover have "call_ok (w_shm w') c = call_ok (w_shm w) c" for c
    using assms(3,4) by (cases c) simp_all
  then have "data_ok w'"
    using dat assms(2,9-11) unfolding data_ok_def assms(3) by (auto dest: mset_subset_eqD)
  ultimately show ?thesis using assms(12,13) by (simp add: world_inv_def)
qed

lemma tx_time_node: "prio (packet_node (shm_metadata shm) x) = tx_time (content shm x)" "data (packet_node pool x) = x"
  by (simp_all add: packet_node_def tx_time_def content_def Let_def)

lemma poll_result:
  assumes inv: "world_inv w" and poll: "length table = 64" "no_crossing (shm_tx (w_shm w))"
  shows "\<exists>rb q xs. ktsnd_intake sp table (w_daemon w) =
      Inr ((w_daemon w)\<lparr>d_shm := (w_shm w)\<lparr>shm_tx := rb\<rparr>, d_queue := q\<rparr>) \<and>
    shm_ok ((w_shm w)\<lparr>shm_tx := rb\<rparr>) \<and> rb_items (shm_tx (w_shm w)) = xs @ rb_items rb \<and> pq_wf q \<and> pq_cap q = 127 \<and>
    pq_mset q = pq_mset (d_queue (w_daemon w)) + image_mset (packet_node (shm_metadata (w_shm w))) (mset xs) \<and>
    length xs = min 8 (rb_len (shm_tx (w_shm w))) \<and> (pq_heap (d_queue (w_daemon w)) \<longrightarrow> pq_heap q)"
proof -
  have res: "shm_ok (w_shm w)" "pq_wf (d_queue (w_daemon w))" "pq_cap (d_queue (w_daemon w)) = 127" "owned w \<subseteq># all_indices"
    using inv by (auto simp: world_inv_def resources_ok_def)
  have "mset (rb_items (shm_tx (w_shm w))) + queue_indices (d_queue (w_daemon w)) \<subseteq># all_indices"
    using res(4) by (rule subset_mset.order_trans [rotated]) (simp add: owned_def in_flight_def)
  from intake_result [OF res(1) [unfolded w_shm_def] res(2,3) this [unfolded w_shm_def] poll(1) poll(2) [unfolded w_shm_def]]
  show ?thesis unfolding w_shm_def .
qed

lemma poll_step:
  fixes n :: nat
  assumes inv: "world_inv w" and pc: "w_pc w = DPoll"
    and poll: "length table = 64" "no_crossing (shm_tx (w_shm w))" "ktsnd_intake sp table (w_daemon w) = Inr d"
  defines "w' \<equiv> w\<lparr>w_daemon := d, w_pc := DDecide, w_crossed := n\<rparr>"
  shows "world_inv w'"
proof -
  have dat: "data_ok w" and log: "log_ok w" and acc: "account_ok w" using inv by (auto simp: world_inv_def)
  obtain rb q xs where d: "d = (w_daemon w)\<lparr>d_shm := (w_shm w)\<lparr>shm_tx := rb\<rparr>, d_queue := q\<rparr>"
    and r: "shm_ok ((w_shm w)\<lparr>shm_tx := rb\<rparr>)" "rb_items (shm_tx (w_shm w)) = xs @ rb_items rb" "pq_wf q" "pq_cap q = 127"
      "pq_mset q = pq_mset (d_queue (w_daemon w)) + image_mset (packet_node (shm_metadata (w_shm w))) (mset xs)"
    using poll_result [OF inv poll(1,2), of sp] poll(3) by auto
  note r = d r
  have fl: "in_flight w' = in_flight w"
    using r(1,3) pc queue_indices_nodes [OF r(6)] by (simp add: w'_def in_flight_def w_shm_def)
  have own: "owned w' = owned w"
    using fl r(1) pc by (simp add: w'_def owned_def w_shm_def)
  have "\<forall>n \<in># pq_mset q. prio n = tx_time (content (w_shm w) (data n))"
    using dat unfolding data_ok_def r(6) w_shm_def by (auto simp: tx_time_node)
  moreover have w': "w_shm w' = (w_shm w)\<lparr>shm_tx := rb\<rparr>" "d_queue (w_daemon w') = q" "w_pc w' = DDecide"
      "w_calls w' = w_calls w" "w_sent w' = w_sent w" "w_dropped w' = w_dropped w" "w_accepted w' = w_accepted w"
    by (simp_all add: w'_def w_shm_def d)
  moreover have "account_ok w'" by (rule account_same [OF acc]) (simp_all add: w' fl)
  ultimately show ?thesis
    using log r(2,4,5) fl own
    by (intro daemon_step_inv [OF inv]) (simp_all add: w' log_ok_def)
qed

lemma decide_cases:
  assumes "pq_wf (d_queue d)" "tx_decide clock d = Inr (d', act)"
  obtains "d' = d" "act \<in> {Idle, Wait}" "pq_size (d_queue d) = 0 \<or> early clock (prio_at (d_queue d) 0)"
    | q where "d' = d\<lparr>d_queue := q\<rparr>" "act = Lost" "late clock (prio_at (d_queue d) 0)" "pq_wf q"
        "pq_cap q = pq_cap (d_queue d)" "pq_mset (d_queue d) = add_mset (elems (d_queue d) ! 0) (pq_mset q)"
    | q where "d' = d\<lparr>d_queue := q\<rparr>" "act = Sent (data (elems (d_queue d) ! 0))" "due clock (prio_at (d_queue d) 0)"
        "pq_wf q" "pq_cap q = pq_cap (d_queue d)"
        "pq_mset (d_queue d) = add_mset (elems (d_queue d) ! 0) (pq_mset q)"
proof (cases "pq_size (d_queue d) = 0")
  case True
  then show ?thesis using assms(2) that(1) by (auto simp: tx_decide_def kt_prio_queue_is_empty_def)
next
  case False
  note e = extract_correct [OF assms(1)] and m = getmin_correct [OF assms(1)]
  obtain now where now: "kt_get_realtime_ns (fst clock) (snd clock) = Inr now"
    using assms(2) False by (auto simp: tx_decide_def kt_prio_queue_is_empty_def rbind_eq_Inr)
  let ?t = "prio_at (d_queue d) 0"
  have dec: "tx_decide clock d = rbind (i64_checked (?t - now)) (\<lambda>diff.
      if tx_delta_ns < diff then Inr (d, Wait)
      else if diff < 0 then
        rbind (kt_prio_queue_extract_min (d_queue d) False) (\<lambda>(q, r, x). Inr (d\<lparr>d_queue := q\<rparr>, Lost))
      else rbind (kt_prio_queue_extract_min (d_queue d) True) (\<lambda>(q, r, x).
        case x of None \<Rightarrow> Inl Indeterminate | Some i \<Rightarrow> Inr (d\<lparr>d_queue := q\<rparr>, Sent i)))"
    using False now m by (simp add: tx_decide_def kt_prio_queue_is_empty_def kt_get_time_diff_ns_def)
  consider "tx_delta_ns < ?t - now" | "?t < now" | "now \<le> ?t" "?t \<le> now + tx_delta_ns" by linarith
  then show ?thesis
  proof cases
    case 1
    then show ?thesis
      using assms(2) now that(1) unfolding dec by (auto simp: rbind_eq_Inr i64_checked_def early_def split: if_splits)
  next
    case 2
    then show ?thesis
      using assms(2) e [of False] False now that(2) unfolding dec
      by (auto simp: rbind_eq_Inr i64_checked_def late_def tx_delta_ns_def split: if_splits)
  next
    case 3
    then show ?thesis
      using assms(2) e [of True] False now that(3) unfolding dec
      by (auto simp: rbind_eq_Inr i64_checked_def due_def split: if_splits)
  qed
qed

lemma decide_step:
  assumes inv: "world_inv w" and pc: "w_pc w = DDecide" and dec: "tx_decide clock (w_daemon w) = Inr (d, act)"
  defines "w' \<equiv> w\<lparr>w_daemon := d, w_pc := (case act of Sent i \<Rightarrow> DFrame i clock | _ \<Rightarrow> DPoll),
      w_dropped := w_dropped w @ (if act = Lost
        then [(content (w_shm w) (data (elems (d_queue (w_daemon w)) ! 0)), clock)] else [])\<rparr>"
  shows "world_inv w'"
proof -
  have res: "resources_ok w" and dat: "data_ok w" and log: "log_ok w" and acc: "account_ok w" using inv by (auto simp: world_inv_def)
  let ?d = "w_daemon w" and ?i = "data (elems (d_queue (w_daemon w)) ! 0)"
  have wf: "pq_wf (d_queue ?d)" "pq_cap (d_queue ?d) = 127" "shm_ok (w_shm w)" using res by (auto simp: resources_ok_def)
  have time: "prio_at (d_queue ?d) 0 = tx_time (content (w_shm w) ?i)"
    if "pq_mset (d_queue ?d) = add_mset (elems (d_queue ?d) ! 0) M" for M
    using dat that by (simp add: data_ok_def)
  from wf(1) dec show ?thesis
  proof (cases rule: decide_cases)
    case 1
    then have w': "w_daemon w' = ?d" "w_pc w' = DPoll" "w_calls w' = w_calls w" "w_sent w' = w_sent w"
        "w_dropped w' = w_dropped w" "w_accepted w' = w_accepted w"
      by (auto simp: w'_def)
    then have fl: "in_flight w' = in_flight w" "owned w' = owned w" "w_shm w' = w_shm w"
      using pc by (simp_all add: in_flight_def owned_def w_shm_def)
    have "account_ok w'" by (rule account_same [OF acc]) (simp_all add: w' fl)
    then show ?thesis
      using log wf dat by (intro daemon_step_inv [OF inv]) (simp_all add: w' fl log_ok_def data_ok_def)
  next
    case (2 q)
    have w': "w_shm w' = w_shm w" "d_queue (w_daemon w') = q" "w_pc w' = DPoll" "w_calls w' = w_calls w"
        "w_sent w' = w_sent w" "w_dropped w' = w_dropped w @ [(content (w_shm w) ?i, clock)]" "w_accepted w' = w_accepted w"
      by (simp_all add: w'_def w_shm_def 2(1,2))
    have fl: "in_flight w = add_mset ?i (in_flight w')" "owned w = add_mset ?i (owned w')"
      using pc 2(6) by (simp_all add: in_flight_def owned_def w' queue_indices_def)
    have "\<forall>n \<in># pq_mset q. prio n = tx_time (content (w_shm w) (data n))"
      using dat unfolding data_ok_def 2(6) by simp
    moreover have "log_ok w'" using log 2(3) time [OF 2(6)] by (auto simp: log_ok_def w')
    moreover have "account_ok w'" using acc by (simp add: account_ok_def fl w')
    ultimately show ?thesis
      using wf 2(4,5) by (intro daemon_step_inv [OF inv]) (simp_all add: w' fl)
  next
    case (3 q)
    have w': "w_shm w' = w_shm w" "d_queue (w_daemon w') = q" "w_pc w' = DFrame ?i clock" "w_calls w' = w_calls w"
        "w_sent w' = w_sent w" "w_dropped w' = w_dropped w" "w_accepted w' = w_accepted w"
      by (simp_all add: w'_def w_shm_def 3(1,2))
    have fl: "in_flight w' = in_flight w" "owned w' = owned w"
      using pc 3(6) by (simp_all add: in_flight_def owned_def w' queue_indices_def)
    have "\<forall>n \<in># pq_mset q. prio n = tx_time (content (w_shm w) (data n))"
      using dat unfolding data_ok_def 3(6) by simp
    moreover have "account_ok w'" by (rule account_same [OF acc]) (simp_all add: w' fl)
    ultimately show ?thesis
      using wf 3(3-5) log time [OF 3(6)] by (intro daemon_step_inv [OF inv]) (simp_all add: w' fl log_ok_def del: split_paired_All)
  qed
qed

text \<open>DPDK gives buffers with 2048 bytes of data, as \<open>RTE_MBUF_DEFAULT_BUF_SIZE\<close> asks for.\<close>

definition default_rooms :: "'d dpdk \<Rightarrow> bool" where
  "default_rooms ops \<longleftrightarrow> (\<forall>dev room dev'. rte_pktmbuf_alloc ops dev = (Some room, dev') \<longrightarrow> length room = 2048)"

lemma prepare_framed:
  assumes "prepare_packet cksum tx (shm_mbufs shm) (unat i * sizeof_kt_mbuf) (shm_metadata shm ! unat i) = Inr mb"
    and "fitting (content shm i)" "length (mb_data tx) = 2048"
    and "unat i * sizeof_kt_mbuf + 2048 \<le> length (shm_mbufs shm)"
  shows "framed (content shm i) mb"
proof -
  let ?md = "shm_metadata shm ! unat i"
  have md: "length (md_eth_src ?md) = 6" "length (md_eth_dst ?md) = 6" "unat (md_size ?md) \<le> 2048"
      "unat i * sizeof_kt_mbuf + unat (md_size ?md) \<le> length (shm_mbufs shm)"
    using assms(2,4) by (simp_all add: fitting_def content_def Let_def)
  show ?thesis
  proof (cases "md_transport ?md = KT_METADATA_TRANSPORT_UDP")
    case True
    have "unat (md_size ?md) \<le> 2006"
      using udp_payload_overruns_dpdk_buffer [OF True md(1,2) assms(3) _ md(4), of cksum] assms(1) by fastforce
    then show ?thesis
      using prepare_udp_parses [OF True md(1,2,4), of tx cksum] assms(1,3) True
      by (auto simp: framed_def content_def Let_def)
  next
    case False
    then show ?thesis
      using raw_frame_is_payload [OF False md(1,2,4), of tx cksum] md(3) assms(1,3)
      by (auto simp: framed_def content_def Let_def)
  qed
qed

lemma frame_step:
  assumes inv: "world_inv w" and ops: "default_rooms ops" and pc: "w_pc w = DFrame i clock"
    and call: "tx_frame ops i (w_daemon w) = Inr (mb, d)"
  defines "w' \<equiv> w\<lparr>w_daemon := d, w_pc := DReturn i, w_sent := w_sent w @ [(content (w_shm w) i, clock, mb)]\<rparr>"
  shows "world_inv w'"
proof -
  have res: "resources_ok w" and dat: "data_ok w" and log: "log_ok w" and acc: "account_ok w" using inv by (auto simp: world_inv_def)
  obtain room dev where alloc: "rte_pktmbuf_alloc ops (d_dev (w_daemon w)) = (Some room, dev)"
    using call by (cases "rte_pktmbuf_alloc ops (d_dev (w_daemon w))")
      (auto simp: tx_frame_def split: option.splits)
  then obtain dev' where f: "prepare_packet (rte_ipv4_cksum ops) \<lparr>mb_data = room, mb_data_len = 0, mb_pkt_len = 0,
        mb_next_null = True, mb_nb_segs = 1\<rparr>
        (shm_mbufs (w_shm w)) (unat i * sizeof_kt_mbuf) (shm_metadata (w_shm w) ! unat i) = Inr mb"
      "d = (w_daemon w)\<lparr>d_dev := dev'\<rparr>"
    using call by (auto simp: tx_frame_def rbind_eq_Inr arr_get_eq_Inr w_shm_def case_prod_unfold)
  have i: "i \<in># in_flight w" using pc by (simp add: in_flight_def)
  then have "i \<in># owned w" by (simp add: owned_def)
  then have "unat i < 127" using res all_indices_bound mset_subset_eqD by (fastforce simp: resources_ok_def)
  then have "unat i * sizeof_kt_mbuf + 2048 \<le> length (shm_mbufs (w_shm w))"
    using res by (auto simp: resources_ok_def sizeof_kt_mbuf_def)
  then have "framed (content (w_shm w) i) mb"
    using prepare_framed [OF f(1)] ops alloc i dat by (auto simp: default_rooms_def data_ok_def)
  moreover have w': "w_shm w' = w_shm w" "d_queue (w_daemon w') = d_queue (w_daemon w)" "w_pc w' = DReturn i"
      "w_calls w' = w_calls w" "w_sent w' = w_sent w @ [(content (w_shm w) i, clock, mb)]"
      "w_dropped w' = w_dropped w" "w_accepted w' = w_accepted w"
    by (simp_all add: w'_def w_shm_def f(2))
  ultimately have "log_ok w'" using log dat pc by (auto simp: log_ok_def data_ok_def simp del: split_paired_All)
  moreover have fl: "in_flight w = add_mset i (in_flight w')" "owned w' = owned w"
    using pc by (simp_all add: in_flight_def owned_def w')
  moreover have "account_ok w'" using acc fl(1) by (simp add: account_ok_def w')
  ultimately show ?thesis
    using res dat by (intro daemon_step_inv [OF inv]) (simp_all add: w' fl resources_ok_def data_ok_def)
qed

lemma return_step:
  assumes inv: "world_inv w" and pc: "w_pc w = DReturn i" and call: "tx_return sp i (w_daemon w) = Inr d"
  defines "w' \<equiv> w\<lparr>w_daemon := d, w_pc := DPoll\<rparr>"
  shows "world_inv w'"
proof -
  have res: "resources_ok w" and dat: "data_ok w" and log: "log_ok w" and acc: "account_ok w" using inv by (auto simp: world_inv_def)
  have ok: "shm_ok (w_shm w)" using res by (simp add: resources_ok_def)
  have "length (rb_items (shm_free (w_shm w))) < 127" using owned_size [OF res] pc by (simp add: owned_def)
  then obtain rb fs where rb: "kt_ringbuf_enqueue_burst sp (shm_free (w_shm w)) [i] 8 1 = Inr (rb, 1, fs)"
      "rb_wf rb" "rb_items rb = rb_items (shm_free (w_shm w)) @ [i]" "rb_capacity rb = 127"
    using enqueue_one [of "shm_free (w_shm w)" sp i] ok by (auto simp: shm_ok_def)
  obtain c where d: "d = (w_daemon w)\<lparr>d_shm := (w_shm w)\<lparr>shm_free := rb\<rparr>, d_counter := c\<rparr>"
    using call rb(1) by (auto simp: tx_return_def rbind_eq_Inr w_shm_def)
  have w': "w_shm w' = (w_shm w)\<lparr>shm_free := rb\<rparr>" "d_queue (w_daemon w') = d_queue (w_daemon w)" "w_pc w' = DPoll"
      "w_calls w' = w_calls w" "w_sent w' = w_sent w" "w_dropped w' = w_dropped w" "w_accepted w' = w_accepted w"
    by (simp_all add: w'_def w_shm_def d)
  have fl: "in_flight w' = in_flight w" "owned w' = owned w"
    using pc rb(3) by (simp_all add: in_flight_def owned_def w')
  have "shm_ok ((w_shm w)\<lparr>shm_free := rb\<rparr>)" using ok rb by (simp add: shm_ok_def)
  moreover have "account_ok w'" by (rule account_same [OF acc]) (simp_all add: w' fl)
  ultimately show ?thesis
    using res dat log by (intro daemon_step_inv [OF inv]) (simp_all add: w' fl resources_ok_def data_ok_def log_ok_def)
qed

subsection \<open>Every step keeps the invariant\<close>

lemma world_step_counts: "world_step ops w w' \<Longrightarrow> w_crossed w \<le> w_crossed w' \<and> w_overlong w \<le> w_overlong w'"
  by (induction rule: world_step.induct) (simp_all add: set_shm_def)

lemma world_step_inv:
  assumes "world_step ops w w'" "world_inv w" "default_rooms ops" "w_crossed w' = 0" "w_overlong w' = 0"
  shows "world_inv w'"
  using assms
proof (induction rule: world_step.induct)
  case (w_take t w sockets interfaces fd msg fill iov iovs sp junk shm r)
  then have "length iov \<le> 2048" by (simp add: sizeof_kt_mbuf_def split: if_splits)
  then show ?case using take_step w_take scheduled_fills by blast
next
  case (w_copy t w i iov fill shm)
  then show ?case using copy_step by blast
next
  case (w_fill t w i iov fill shm)
  then show ?case using fill_step by blast
next
  case (w_put t w i p sp shm ok)
  then show ?case using put_step by blast
next
  case (w_poll w table sp d)
  then have "no_crossing (shm_tx (w_shm w))" by (simp split: if_splits)
  then show ?case using poll_step w_poll by blast
next
  case (w_decide w clock d act)
  then show ?case using decide_step by blast
next
  case (w_frame w i clock mb d)
  then show ?case using frame_step by blast
next
  case (w_return w i sp d)
  then show ?case using return_step by blast
qed

interpretation delivery: guarded_invariant "world_step ops" "\<lambda>w. world_inv w \<and> default_rooms ops"
  "\<lambda>w. w_crossed w = 0 \<and> w_overlong w = 0" for ops
proof unfold_locales
  fix w w' assume step: "world_step ops w w'" and good: "w_crossed w' = 0 \<and> w_overlong w' = 0"
  show "w_crossed w = 0 \<and> w_overlong w = 0" using world_step_counts [OF step] good by simp
  assume "world_inv w \<and> default_rooms ops"
  then show "world_inv w' \<and> default_rooms ops" using world_step_inv [OF step] good by simp
qed

text \<open>The processes after start-up: the daemon's layout, no call under way, nothing recorded.\<close>

definition world_booted :: "'d world \<Rightarrow> bool" where
  "world_booted w \<longleftrightarrow> (\<exists>dat sp block l. unat dat mod 4096 = 0 \<and> unat dat + 2 ^ 21 \<le> 2 ^ 64 \<and> length block = 127 \<and>
     ktsnd_init dat 4096 sp block = Inr (l, w_shm w, d_queue (w_daemon w))) \<and>
     set (w_calls w) \<subseteq> {Ready} \<and> w_pc w = DPoll \<and> d_counter (w_daemon w) = 0 \<and>
     w_accepted w = [] \<and> w_sent w = [] \<and> w_dropped w = [] \<and> w_crossed w = 0 \<and> w_overlong w = 0"

lemma no_call_held: "set cs \<subseteq> {Ready} \<Longrightarrow> all_held cs = {#}"
  by (induction cs) (auto simp: all_held_def)

lemma world_booted_inv:
  assumes "world_booted w"
  shows "world_inv w" "in_flight w = {#}" "rb_items (shm_free (w_shm w)) = map of_nat [0..<127]"
proof -
  obtain dat sp block l where b: "unat dat mod 4096 = 0" "unat dat + 2 ^ 21 \<le> 2 ^ 64" "length block = 127"
      "ktsnd_init dat 4096 sp block = Inr (l, w_shm w, d_queue (w_daemon w))"
      and c: "set (w_calls w) \<subseteq> {Ready}" "w_pc w = DPoll" "w_accepted w = []" "w_sent w = []" "w_dropped w = []"
    using assms unfolding world_booted_def by (elim exE conjE) (rule that)
  from ktsnd_init_ok [OF b(1,2), of sp block] b(4)
  have i: "d_queue (w_daemon w) = kt_prio_queue_init 127 block" "rb_items (shm_tx (w_shm w)) = []"
      "rb_items (shm_free (w_shm w)) = map of_nat [0..<127]" "shm_ok (w_shm w)"
      "127 * sizeof_kt_mbuf \<le> length (shm_mbufs (w_shm w))"
    by (auto simp: shm_ok_def)
  have q: "pq_mset (d_queue (w_daemon w)) = {#}" by (simp add: i(1))
  have fl: "in_flight w = {#}" "owned w = all_indices"
    by (simp_all add: in_flight_def owned_def i q c no_call_held queue_indices_def all_indices_def)
  have "resources_ok w"
    using i init_wf [OF b(3)] fl by (simp add: resources_ok_def) (simp add: kt_prio_queue_init_def)
  moreover have "data_ok w" using c fl q by (auto simp: data_ok_def)
  moreover have "log_ok w" using c by (simp add: log_ok_def)
  moreover have "account_ok w" using c fl by (simp add: account_ok_def)
  ultimately show "world_inv w" by (simp add: world_inv_def)
  show "in_flight w = {#}" by (rule fl(1))
  show "rb_items (shm_free (w_shm w)) = map of_nat [0..<127]" by (rule i(3))
qed

lemma booted_reach:
  assumes "world_booted w0" "default_rooms ops" "(world_step ops)\<^sup>*\<^sup>* w0 w" "w_crossed w = 0" "w_overlong w = 0"
  shows "world_inv w"
  using delivery.reachable_inv [OF assms(3)] world_booted_inv(1) [OF assms(1)] assms(2,4,5) by blast

text \<open>
  A call of \<open>sendmsg\<close> that finds a free buffer can always run to its end, and is accepted: from its
  last step back to its first.
\<close>

definition app_step :: "'d dpdk \<Rightarrow> 'd world \<Rightarrow> 'd world \<Rightarrow> bool" where
  "app_step ops w w' \<longleftrightarrow> world_step ops w w' \<and> w_pc w' = w_pc w \<and> w_accepted w' = w_accepted w \<and>
     w_crossed w' = w_crossed w \<and> w_overlong w' = w_overlong w"

definition completes :: "'d dpdk \<Rightarrow> 'd world \<Rightarrow> nat \<Rightarrow> packet \<Rightarrow> 'd world \<Rightarrow> bool" where
  "completes ops w t p w' \<longleftrightarrow> (\<exists>w1. (app_step ops)\<^sup>*\<^sup>* w w1 \<and> world_step ops w1 w') \<and> w_pc w' = w_pc w \<and>
     w_accepted w' = w_accepted w @ [p] \<and> w_sent w' = w_sent w \<and> w_dropped w' = w_dropped w \<and>
     w_calls w' = (w_calls w)[t := Ready] \<and> w_crossed w' = w_crossed w \<and> w_overlong w' = w_overlong w"

lemma app_steps_world: "(app_step ops)\<^sup>*\<^sup>* w w' \<Longrightarrow> (world_step ops)\<^sup>*\<^sup>* w w'"
  by (induction rule: rtranclp_induct) (auto simp: app_step_def)

lemma completes_run: "completes ops w t p w' \<Longrightarrow> (world_step ops)\<^sup>*\<^sup>* w w'"
  unfolding completes_def by (meson app_steps_world rtranclp.rtrancl_into_rtrancl)

lemma completes_step:
  assumes "world_step ops w w1" "completes ops w1 t p w'" "w_accepted w1 = w_accepted w" "w_sent w1 = w_sent w"
    and "w_dropped w1 = w_dropped w" "w_calls w1 = (w_calls w)[t := c]" "w_pc w1 = w_pc w"
    and "w_crossed w1 = w_crossed w" "w_overlong w1 = w_overlong w"
  shows "completes ops w t p w'"
proof -
  have "app_step ops w w1" using assms by (simp add: app_step_def)
  then show ?thesis using assms unfolding completes_def by (auto intro: converse_rtranclp_into_rtranclp)
qed

lemma held_index:
  assumes "world_inv w" "t < length (w_calls w)" "i \<in> set (held (w_calls w ! t))" "length iov \<le> 2048"
  shows "unat i < length (shm_metadata (w_shm w))" "unat i * 2048 + length iov \<le> length (shm_mbufs (w_shm w))"
  using holder_alone(1) [OF _ assms(2,3)] assms(1,4)
  by (auto simp: world_inv_def resources_ok_def shm_ok_def sizeof_kt_mbuf_def)

lemma filled_completes:
  assumes inv: "world_inv w" and t: "t < length (w_calls w)" "w_calls w ! t = Filled i p"
  shows "\<exists>w'. completes ops w t p w'"
proof -
  have ok: "shm_ok (w_shm w)" using inv by (simp add: world_inv_def resources_ok_def)
  have "length (rb_items (shm_tx (w_shm w))) < 127"
    using owned_size [of w] held_at [OF t(1)] t(2) inv by (simp add: world_inv_def owned_def in_flight_def)
  then obtain tx fs where "kt_ringbuf_enqueue_burst 0 (shm_tx (w_shm w)) [i] 8 1 = Inr (tx, 1, fs)"
    using enqueue_one [of "shm_tx (w_shm w)" 0 i] ok by (auto simp: shm_ok_def)
  then have "put_buffer 0 i (w_shm w) = Inr ((w_shm w)\<lparr>shm_tx := tx\<rparr>, True)" by (simp add: put_buffer_def)
  note put = world_step.w_put [OF t this, of ops]
  show ?thesis
    unfolding completes_def by (intro exI conjI, rule rtranclp.rtrancl_refl, rule put) (simp_all add: set_shm_def)
qed

lemma copied_completes:
  assumes inv: "world_inv w" "default_rooms ops" and z: "w_crossed w = 0" "w_overlong w = 0"
    and t: "t < length (w_calls w)" "w_calls w ! t = Copied i iov fill"
  shows "\<exists>w'. completes ops w t (fill (of_nat (length iov)) (shm_metadata (w_shm w) ! unat i), iov) w'"
proof -
  have iov: "length iov \<le> 2048" using call_ok_at [OF inv(1) t(1)] t(2) by simp
  have lt: "unat i < length (shm_metadata (w_shm w))" using held_index(1) [OF inv(1) t(1) _ iov] t(2) by simp
  let ?md = "fill (of_nat (length iov)) (shm_metadata (w_shm w) ! unat i)"
  let ?w = "(set_shm ((w_shm w)\<lparr>shm_metadata := (shm_metadata (w_shm w))[unat i := ?md]\<rparr>) w)
    \<lparr>w_calls := (w_calls w)[t := Filled i (?md, iov)]\<rparr>"
  have s: "world_step ops w ?w" using lt by (intro world_step.w_fill [OF t]) (simp add: fill_metadata_def)
  then have "world_inv ?w" using world_step_inv [OF _ inv] z by (simp add: set_shm_def)
  then obtain w' where c: "completes ops ?w t (?md, iov) w'" using filled_completes [of ?w t i "(?md, iov)" ops] t(1) by auto
  show ?thesis by (rule exI, rule completes_step [OF s c]) (simp_all add: set_shm_def)
qed

lemma taken_completes:
  assumes inv: "world_inv w" "default_rooms ops" and z: "w_crossed w = 0" "w_overlong w = 0"
    and t: "t < length (w_calls w)" "w_calls w ! t = Taken i iov fill"
  shows "\<exists>w'. completes ops w t (fill (of_nat (length iov)) (shm_metadata (w_shm w) ! unat i), iov) w'"
proof -
  have iov: "length iov \<le> 2048" using call_ok_at [OF inv(1) t(1)] t(2) by simp
  have lt: "unat i * 2048 + length iov \<le> length (shm_mbufs (w_shm w))" using held_index(2) [OF inv(1) t(1) _ iov] t(2) by simp
  let ?s = "(w_shm w)\<lparr>shm_mbufs := blit (length iov) (shm_mbufs (w_shm w)) (unat i * 2048) iov 0\<rparr>"
  let ?w = "(set_shm ?s w)\<lparr>w_calls := (w_calls w)[t := Copied i iov fill]\<rparr>"
  have s: "world_step ops w ?w"
    using lt by (intro world_step.w_copy [OF t]) (simp add: copy_payload_def sizeof_kt_mbuf_def)
  then have "world_inv ?w" using world_step_inv [OF _ inv] z by (simp add: set_shm_def)
  then have "\<exists>w'. completes ops ?w t (fill (of_nat (length iov)) (shm_metadata (w_shm ?w) ! unat i), iov) w'"
    using t(1) inv(2) z by (intro copied_completes) (simp_all add: set_shm_def)
  then obtain w' where c: "completes ops ?w t (fill (of_nat (length iov)) (shm_metadata (w_shm w) ! unat i), iov) w'"
    by (auto simp: world_shape)
  show ?thesis by (rule exI, rule completes_step [OF s c]) (simp_all add: set_shm_def)
qed

lemma call_completes:
  assumes inv: "world_inv w" "default_rooms ops" and z: "w_crossed w = 0" "w_overlong w = 0"
    and t: "t < length (w_calls w)" "w_calls w ! t = Ready"
    and msg: "scheduled sockets interfaces fd msg = Some fill" "\<forall>iface \<in> set interfaces. length (if_mac iface) = 6"
      "msg_iov msg = iov # iovs" "length iov \<le> 2048"
    and free: "rb_items (shm_free (w_shm w)) = i # rest"
  shows "\<exists>w'. completes ops w t (fill (of_nat (length iov)) (shm_metadata (w_shm w) ! unat i), iov) w'"
proof -
  have ok: "shm_ok (w_shm w)" using inv by (simp add: world_inv_def resources_ok_def)
  obtain rb av where "kt_ringbuf_dequeue_burst 0 (shm_free (w_shm w)) [0] 8 1 = Inr (rb, [i], 1, av)"
    using dequeue_one [OF _ free, of 0 0] ok by (auto simp: shm_ok_def)
  then have "take_buffer 0 0 (w_shm w) = Inr ((w_shm w)\<lparr>shm_free := rb\<rparr>, Some i)" by (simp add: take_buffer_def)
  from world_step.w_take [OF t msg(1-3) this, of ops]
  have s: "world_step ops w ((set_shm ((w_shm w)\<lparr>shm_free := rb\<rparr>) w)\<lparr>w_calls := (w_calls w)[t := Taken i iov fill]\<rparr>)"
      (is "world_step ops w ?w") using msg(4) by (simp add: sizeof_kt_mbuf_def set_shm_def)
  then have "world_inv ?w" using world_step_inv [OF _ inv] z by (simp add: set_shm_def)
  then have "\<exists>w'. completes ops ?w t (fill (of_nat (length iov)) (shm_metadata (w_shm ?w) ! unat i), iov) w'"
    using t(1) inv(2) z by (intro taken_completes) (simp_all add: set_shm_def)
  then obtain w' where c: "completes ops ?w t (fill (of_nat (length iov)) (shm_metadata (w_shm w) ! unat i), iov) w'"
    by (auto simp: world_shape)
  show ?thesis by (rule exI, rule completes_step [OF s c]) (simp_all add: set_shm_def)
qed

subsection \<open>Properties\<close>

text \<open>
  C1. After start-up, with any number of applications inside their calls of \<open>sendmsg\<close> interleaved in any
  way with each other and with the daemon (each call on a ring being one step), as long as no poll's
  burst has crossed the end of the transmit ring and no message was longer than a buffer (2048 bytes):
  the packets for which \<open>sendmsg\<close> reported success are exactly those whose buffers are on their way,
  those that were transmitted and those that were dropped, each once; a transmitted packet was within
  its window when the daemon decided, and its frame is what the application sent; a dropped packet was
  late. No buffer index has two owners.
\<close>

theorem every_message_accounted:
  assumes "world_booted w0" "default_rooms ops" "(world_step ops)\<^sup>*\<^sup>* w0 w" "w_crossed w = 0" "w_overlong w = 0"
  shows "mset (w_accepted w) =
      image_mset (content (w_shm w)) (in_flight w) + mset (map fst (w_sent w)) + mset (map fst (w_dropped w)) \<and>
    (\<forall>(p, clock, mb) \<in> set (w_sent w). due clock (tx_time p) \<and> framed p mb) \<and>
    (\<forall>(p, clock) \<in> set (w_dropped w). late clock (tx_time p)) \<and>
    (\<forall>i. count (owned w) i \<le> 1)"
proof -
  note inv = booted_reach [OF assms]
  have "count (owned w) i \<le> 1" for i
    using inv all_indices_unique [of i] by (auto simp: world_inv_def resources_ok_def subseteq_mset_def intro: order_trans)
  then show ?thesis using inv by (simp add: world_inv_def log_ok_def account_ok_def)
qed

text \<open>A system of two processes, and a run in which the second sends a message.\<close>

lemma demo_world_exists:
  obtains w0 :: "rte_mbuf list world" where "world_booted w0" "w_calls w0 = [Ready, Ready]"
proof -
  let ?block = "replicate 127 \<lparr>prio = 0, data = 0\<rparr>"
  obtain l shm where "ktsnd_init 0x7F0000000000 4096 0 ?block = Inr (l, shm, kt_prio_queue_init 127 ?block)"
    using ktsnd_init_ok [of "0x7F0000000000" 0 ?block] by auto
  then have "world_booted (\<lparr>w_daemon = \<lparr>d_shm = shm, d_queue = kt_prio_queue_init 127 ?block, d_counter = 0, d_dev = []\<rparr>,
      w_calls = [Ready, Ready], w_pc = DPoll, w_accepted = [], w_sent = [], w_dropped = [], w_crossed = 0, w_overlong = 0\<rparr> :: rte_mbuf list world)"
    unfolding world_booted_def w_shm_def
    by (intro conjI exI [of _ "0x7F0000000000"] exI [of _ 0] exI [of _ ?block] exI [of _ l]) simp_all
  then show thesis by (rule that) simp
qed

lemma demo_rooms: "default_rooms demo_dpdk"
  by (simp add: default_rooms_def demo_dpdk_def)

lemma demo_scheduled:
  obtains fill where
    "scheduled (g_socket_list demo_ktsn) (g_interface_list demo_ktsn) 3 (demo_msg [7, 8, 9]) = Some fill"
  by (rule that) (simp add: scheduled_def demo_ktsn_lookup AF_INET_def PF_PACKET_def)

lemma demo_macs: "\<forall>iface \<in> set (g_interface_list demo_ktsn). length (if_mac iface) = 6"
  by (simp add: demo_ktsn_def)

lemma delivery_demo_run:
  obtains w0 w :: "rte_mbuf list world" where "world_booted w0" "(world_step demo_dpdk)\<^sup>*\<^sup>* w0 w"
    "map snd (w_accepted w) = [[7, 8, 9]]" "w_sent w = []" "w_dropped w = []" "w_crossed w = 0" "w_overlong w = 0"
proof -
  obtain w0 :: "rte_mbuf list world" where b: "world_booted w0" "w_calls w0 = [Ready, Ready]"
    by (rule demo_world_exists)
  note boot = world_booted_inv [OF b(1)]
  have z: "w_accepted w0 = []" "w_sent w0 = []" "w_dropped w0 = []" "w_crossed w0 = 0" "w_overlong w0 = 0" using b(1) by (simp_all add: world_booted_def)
  have free: "rb_items (shm_free (w_shm w0)) = 0 # map of_nat [1..<127]" unfolding boot(3) by (simp add: upt_conv_Cons)
  obtain fill where f: "scheduled (g_socket_list demo_ktsn) (g_interface_list demo_ktsn) 3 (demo_msg [7, 8, 9]) = Some fill"
    by (rule demo_scheduled)
  obtain w where c: "completes demo_dpdk w0 1 (fill (of_nat (length [7, 8, 9 :: u8])) (shm_metadata (w_shm w0) ! unat 0), [7, 8, 9]) w"
    using call_completes [OF boot(1) demo_rooms z(4,5) _ _ f demo_macs _ _ free, of 1 "[7, 8, 9]" "[]"] b(2)
    by (auto simp: demo_msg_def)
  then show thesis using that [OF b(1) completes_run [OF c]] z by (auto simp: completes_def)
qed

theorem every_message_accounted_witness:
  "\<exists>w0 w :: rte_mbuf list world. world_booted w0 \<and> (world_step demo_dpdk)\<^sup>*\<^sup>* w0 w \<and>
     image_mset snd (image_mset (content (w_shm w)) (in_flight w)) = {#[7, 8, 9]#}"
proof (rule delivery_demo_run)
  fix w0 w :: "rte_mbuf list world"
  assume r: "world_booted w0" "(world_step demo_dpdk)\<^sup>*\<^sup>* w0 w" "map snd (w_accepted w) = [[7, 8, 9]]"
    "w_sent w = []" "w_dropped w = []" "w_crossed w = 0" "w_overlong w = 0"
  have "image_mset (content (w_shm w)) (in_flight w) = mset (w_accepted w)"
    using every_message_accounted [OF r(1) demo_rooms r(2,6,7)] r(4,5) by simp
  moreover have "image_mset snd (mset (w_accepted w)) = {#[7, 8, 9]#}"
    using r(3) by (metis mset.simps(1) mset.simps(2) mset_map)
  ultimately show ?thesis by (intro exI [of _ w0] exI [of _ w] conjI r) simp
qed

end
