(* ===== verification/KT_Realtime.thy ===== *)
theory KT_Realtime
  imports KT_Delivery
begin

section \<open>Deadlines\<close>

text \<open>
  When does the daemon keep the transmission times? The processes of \<open>KT_Delivery\<close> in real time: time
  passes between the steps, but at most \<open>e\<close> nanoseconds from one step of the daemon to the next (so
  \<open>e\<close> bounds what each of its four steps takes, with any wait inside a ring), and its decision reads the
  clock of that instant. When \<open>4 * e\<close> is within the 50 microseconds of \<open>tx_delta_ns\<close> the pace
  of decisions follows. A packet is put into the transmit ring at least 100 microseconds before its time,
  when the ring is empty and at most one other packet waits, whose time is at least 50 microseconds away.
  Two packets are what the queue orders correctly (\<open>KT_Queue\<close> and \<open>KT_Daemon_Faults\<close> say what happens
  with three).

  Shown here: under these conditions, whatever the interleaving, no packet is ever dropped, packets
  leave in the order of their times, each handed to the device no earlier than 50 microseconds before
  its time and no later than \<open>e\<close> after it; no poll crosses the end of the ring; and the daemon never
  faults, so that time is never stopped by it.
\<close>

subsection \<open>Steps in time\<close>

definition decided :: "int \<times> int \<Rightarrow> 'd ktsnd \<Rightarrow> action \<Rightarrow> 'd world \<Rightarrow> 'd world" where
  "decided clock d act w = w\<lparr>w_daemon := d,
     w_pc := (case act of Sent i \<Rightarrow> DFrame i clock | _ \<Rightarrow> DPoll),
     w_dropped := w_dropped w @ (if act = Lost
       then [(content (w_shm w) (data (elems (d_queue (w_daemon w)) ! 0)), clock)] else [])\<rparr>"

text \<open>
  The instant, the instants of the daemon's last step and of its last decision, and those at which the
  frames of \<open>w_sent\<close> were handed to the device.
\<close>

record 'd timed =
  t_world :: "'d world"
  t_now :: int
  t_last :: int
  t_dec :: int
  t_times :: "int list"

inductive timed_step :: "'d dpdk \<Rightarrow> int \<Rightarrow> 'd timed \<Rightarrow> 'd timed \<Rightarrow> bool" for ops e where
  t_tick: "t_now x \<le> n \<Longrightarrow> n \<le> t_last x + e \<Longrightarrow> timed_step ops e x (x\<lparr>t_now := n\<rparr>)"
| t_app: "world_step ops (t_world x) w \<Longrightarrow> w_pc w = w_pc (t_world x) \<Longrightarrow> timed_step ops e x (x\<lparr>t_world := w\<rparr>)"
| t_decide: "w_pc (t_world x) = DDecide \<Longrightarrow> clock_ok clock \<Longrightarrow> clock_ns clock = t_now x \<Longrightarrow>
    tx_decide clock (w_daemon (t_world x)) = Inr (d, act) \<Longrightarrow>
    timed_step ops e x (x\<lparr>t_world := decided clock d act (t_world x), t_last := t_now x, t_dec := t_now x\<rparr>)"
| t_daemon: "world_step ops (t_world x) w \<Longrightarrow> w_pc (t_world x) \<noteq> DDecide \<Longrightarrow> w_pc w \<noteq> w_pc (t_world x) \<Longrightarrow>
    timed_step ops e x (x\<lparr>t_world := w, t_last := t_now x,
      t_times := t_times x @ map (\<lambda>_. t_now x) (unsent (w_pc (t_world x)))\<rparr>)"

text \<open>The packets that wait for the daemon, and their times.\<close>

definition waiting :: "'d world \<Rightarrow> u64 multiset" where
  "waiting w = mset (rb_items (shm_tx (w_shm w))) + queue_indices (d_queue (w_daemon w))"

definition time_of :: "'d world \<Rightarrow> u64 \<Rightarrow> int" where
  "time_of w i = tx_time (content (w_shm w) i)"

text \<open>A step that accepts a packet accepts it in time, alone in the ring and apart from the one that waits.\<close>

definition admissible :: "int \<Rightarrow> 'd world \<Rightarrow> packet \<Rightarrow> bool" where
  "admissible now w p \<longleftrightarrow> now + 2 * tx_delta_ns \<le> tx_time p \<and> rb_items (shm_tx (w_shm w)) = [] \<and>
     size (waiting w) \<le> 1 \<and> (\<forall>i \<in># waiting w. tx_delta_ns \<le> \<bar>tx_time p - time_of w i\<bar>)"

definition admitted :: "'d timed \<Rightarrow> 'd timed \<Rightarrow> bool" where
  "admitted x y \<longleftrightarrow> (\<forall>p. w_accepted (t_world y) = w_accepted (t_world x) @ [p] \<longrightarrow> admissible (t_now x) (t_world x) p)"

definition paced_step :: "'d dpdk \<Rightarrow> int \<Rightarrow> 'd timed \<Rightarrow> 'd timed \<Rightarrow> bool" where
  "paced_step ops e x y \<longleftrightarrow> timed_step ops e x y \<and> admitted x y"

text \<open>Start-up at some instant.\<close>

definition timed_booted :: "'d timed \<Rightarrow> bool" where
  "timed_booted x \<longleftrightarrow> world_booted (t_world x) \<and> t_last x = t_now x \<and> t_dec x = t_now x \<and> t_times x = []"

lemma decided_step:
  "w_pc w = DDecide \<Longrightarrow> tx_decide clock (w_daemon w) = Inr (d, act) \<Longrightarrow> world_step ops w (decided clock d act w)"
  unfolding decided_def by (rule world_step.w_decide)

lemma timed_world_step: "timed_step ops e x y \<Longrightarrow> t_world y = t_world x \<or> world_step ops (t_world x) (t_world y)"
  by (induction rule: timed_step.induct) (simp_all add: decided_step)

subsection \<open>Invariant\<close>

text \<open>
  Times of the packets in the queue are at least one period ahead of the last decision; those of the
  packets in the ring that miss the coming decision, because the daemon has polled already, two.
  What has left, or is being framed, is sorted and within one period.
\<close>

definition horizon_of :: "int \<Rightarrow> daemon_pc \<Rightarrow> int" where
  "horizon_of now pc = (if pc = DDecide then now + 2 * tx_delta_ns else now + tx_delta_ns)"

definition left_times :: "'d world \<Rightarrow> int list" where
  "left_times w = map (tx_time \<circ> fst) (w_sent w) @ map (time_of w) (unsent (w_pc w))"

definition apart :: "'d world \<Rightarrow> bool" where
  "apart w \<longleftrightarrow> size (waiting w) \<le> 2 \<and>
     (\<forall>i \<in># waiting w. \<forall>j \<in># waiting w. i \<noteq> j \<longrightarrow> tx_delta_ns \<le> \<bar>time_of w i - time_of w j\<bar>)"

definition ahead :: "int \<Rightarrow> 'd world \<Rightarrow> bool" where
  "ahead now w \<longleftrightarrow>
     (\<forall>i \<in># queue_indices (d_queue (w_daemon w)). now + tx_delta_ns \<le> time_of w i) \<and>
     (\<forall>i \<in> set (rb_items (shm_tx (w_shm w))). horizon_of now (w_pc w) \<le> time_of w i)"

definition behind :: "int \<Rightarrow> 'd world \<Rightarrow> bool" where
  "behind now w \<longleftrightarrow> sorted (left_times w) \<and> (\<forall>t \<in> set (left_times w). t \<le> now + tx_delta_ns)"

definition punctual :: "int \<Rightarrow> 'd world \<Rightarrow> bool" where
  "punctual now w \<longleftrightarrow> world_inv w \<and> pq_heap (d_queue (w_daemon w)) \<and> apart w \<and> ahead now w \<and> behind now w \<and>
     w_dropped w = [] \<and> length (rb_items (shm_tx (w_shm w))) \<le> 1 \<and> w_crossed w = 0"

lemmas punctual_defs = punctual_def apart_def ahead_def behind_def

lemma in_flight_waiting: "in_flight w = waiting w + mset (unsent (w_pc w))"
  by (simp add: in_flight_def waiting_def)

lemma delta_pos: "0 \<le> tx_delta_ns" "0 < tx_delta_ns"
  by (simp_all add: tx_delta_ns_def)

subsection \<open>Steps of the applications\<close>

text \<open>Nothing changes for the packets under way.\<close>

definition unmoved :: "'d world \<Rightarrow> 'd world \<Rightarrow> bool" where
  "unmoved w w' \<longleftrightarrow> rb_items (shm_tx (w_shm w')) = rb_items (shm_tx (w_shm w)) \<and>
     d_queue (w_daemon w') = d_queue (w_daemon w) \<and> w_pc w' = w_pc w \<and> w_accepted w' = w_accepted w \<and>
     w_sent w' = w_sent w \<and> w_dropped w' = w_dropped w \<and> w_crossed w' = w_crossed w \<and>
     (\<forall>i \<in># in_flight w. content (w_shm w') i = content (w_shm w) i)"

lemma take_unmoved:
  assumes "world_inv w" "take_buffer sp junk (w_shm w) = Inr (shm, r)"
  shows "unmoved w ((set_shm shm w)\<lparr>w_calls := cs, w_overlong := n\<rparr>)"
proof -
  obtain rb where "shm = (w_shm w)\<lparr>shm_free := rb\<rparr>"
    using take_result [OF _ assms(2)] assms(1) by (auto simp: world_inv_def resources_ok_def)
  then show ?thesis by (simp add: unmoved_def w_shm_def set_shm_def)
qed

lemma copy_unmoved:
  assumes inv: "world_inv w" and t: "t < length (w_calls w)" "w_calls w ! t = Taken i iov fill"
    and call: "copy_payload i iov (w_shm w) = Inr shm"
  shows "unmoved w ((set_shm shm w)\<lparr>w_calls := cs\<rparr>)"
proof -
  have iov: "length iov \<le> 2048" using call_ok_at [OF inv t(1)] t(2) by simp
  have "content shm j = content (w_shm w) j" if "j \<in># in_flight w" for j
  proof (rule copy_content [OF call iov])
    show "j \<noteq> i" using holder_alone(2) [OF _ t(1)] t(2) that inv by (simp add: world_inv_def)
    show "fitting (content (w_shm w) j)" using inv that by (simp add: world_inv_def data_ok_def)
  qed
  then show ?thesis using copy_shape [OF call] by (auto simp: unmoved_def w_shm_def set_shm_def)
qed

lemma fill_unmoved:
  assumes inv: "world_inv w" and t: "t < length (w_calls w)" "w_calls w ! t = Copied i iov fill"
    and call: "fill_metadata i f (w_shm w) = Inr shm"
  shows "unmoved w ((set_shm shm w)\<lparr>w_calls := cs\<rparr>)"
proof -
  have "content shm j = content (w_shm w) j" if "j \<in># in_flight w" for j
    using holder_alone(2) [OF _ t(1)] t(2) that inv by (intro fill_content [OF call]) (simp add: world_inv_def)
  then show ?thesis using fill_shape [OF call] by (auto simp: unmoved_def w_shm_def set_shm_def)
qed

lemma punctual_unmoved:
  assumes "punctual now w" "world_inv w'" "unmoved w w'"
  shows "punctual now w'"
proof -
  have s: "waiting w' = waiting w" "w_pc w' = w_pc w" "d_queue (w_daemon w') = d_queue (w_daemon w)"
      "rb_items (shm_tx (w_shm w')) = rb_items (shm_tx (w_shm w))" "w_sent w' = w_sent w" "w_dropped w' = w_dropped w"
      "w_crossed w' = w_crossed w"
    using assms(3) by (auto simp: unmoved_def waiting_def)
  have t: "time_of w' i = time_of w i" if "i \<in># waiting w \<or> i \<in> set (unsent (w_pc w))" for i
    using assms(3) that by (auto simp: unmoved_def time_of_def in_flight_waiting)
  have "left_times w' = left_times w" using t by (simp add: left_times_def s)
  moreover have "apart w'" using assms(1) t by (simp add: punctual_def apart_def s)
  moreover have "ahead now w'"
    using assms(1) t unfolding punctual_def ahead_def s by (auto simp: waiting_def)
  ultimately show ?thesis using assms(1,2) by (simp add: punctual_def behind_def s)
qed

lemma punctual_put:
  assumes inv: "punctual now w" and t: "t < length (w_calls w)" "w_calls w ! t = Filled i p"
    and call: "put_buffer sp i (w_shm w) = Inr (shm, ok)"
  defines "w' \<equiv> (set_shm shm w)\<lparr>w_calls := (w_calls w)[t := Ready], w_accepted := w_accepted w @ (if ok then [p] else [])\<rparr>"
  assumes adm: "\<And>p. w_accepted w' = w_accepted w @ [p] \<Longrightarrow> admissible now w p"
  shows "punctual now w'"
proof -
  have wi: "world_inv w" using inv by (simp add: punctual_def)
  have p: "content (w_shm w) i = p" using call_ok_at [OF wi t(1)] t(2) by simp
  have "length (rb_items (shm_tx (w_shm w))) < 127"
    using owned_size [of w] held_at [OF t(1)] t(2) wi by (simp add: world_inv_def owned_def in_flight_def)
  then obtain tx where tx: "ok" "shm = (w_shm w)\<lparr>shm_tx := tx\<rparr>" "rb_items tx = rb_items (shm_tx (w_shm w)) @ [i]"
    using put_result [OF _ _ call] wi by (auto simp: world_inv_def resources_ok_def)
  have s: "w_shm w' = (w_shm w)\<lparr>shm_tx := tx\<rparr>" "d_queue (w_daemon w') = d_queue (w_daemon w)" "w_pc w' = w_pc w"
      "w_sent w' = w_sent w" "w_dropped w' = w_dropped w" "w_accepted w' = w_accepted w @ [p]" "w_crossed w' = w_crossed w"
    by (simp_all add: w'_def w_shm_def set_shm_def tx(1,2))
  have new: "time_of w' = time_of w" "waiting w' = add_mset i (waiting w)" "left_times w' = left_times w" "time_of w i = tx_time p"
    using tx(3) p by (simp_all add: fun_eq_iff time_of_def waiting_def left_times_def s)
  have a: "now + 2 * tx_delta_ns \<le> time_of w i" "size (waiting w) \<le> 1"
      "\<forall>j \<in># waiting w. tx_delta_ns \<le> \<bar>time_of w i - time_of w j\<bar>" "rb_items (shm_tx (w_shm w)) = []"
    using adm [OF s(6)] new(4) by (auto simp: admissible_def)
  have "apart w'" using a(2,3) inv by (auto simp: punctual_def apart_def new abs_minus_commute)
  moreover have "ahead now w'"
    using a(1) [unfolded new(4)] inv delta_pos(1) by (auto simp: punctual_def ahead_def new s tx(3) horizon_of_def)
  moreover have "world_inv w'" using put_step [OF wi t call] by (simp add: w'_def)
  ultimately show ?thesis using inv a(4) by (simp add: punctual_def behind_def new s tx(3))
qed

subsection \<open>Steps of the daemon\<close>

lemma punctual_no_crossing:
  assumes "punctual now w"
  shows "no_crossing (shm_tx (w_shm w))"
  using assms length_rb_items [of "shm_tx (w_shm w)"]
  by (intro no_crossing_one) (simp_all add: punctual_def world_inv_def resources_ok_def shm_ok_def)

lemma punctual_poll:
  assumes inv: "punctual now w" and pc: "w_pc w = DPoll"
    and poll: "length table = 64" "ktsnd_intake sp table (w_daemon w) = Inr d"
  defines "w' \<equiv> w\<lparr>w_daemon := d, w_pc := DDecide, w_crossed := w_crossed w + (if no_crossing (shm_tx (w_shm w)) then 0 else 1)\<rparr>"
  shows "punctual now w'"
proof -
  have wi: "world_inv w" using inv by (simp add: punctual_def)
  note nc = punctual_no_crossing [OF inv]
  obtain rb q xs where d: "d = (w_daemon w)\<lparr>d_shm := (w_shm w)\<lparr>shm_tx := rb\<rparr>, d_queue := q\<rparr>"
      and r: "rb_items (shm_tx (w_shm w)) = xs @ rb_items rb" "length xs = min 8 (rb_len (shm_tx (w_shm w)))"
      "pq_mset q = pq_mset (d_queue (w_daemon w)) + image_mset (packet_node (shm_metadata (w_shm w))) (mset xs)"
      "pq_heap (d_queue (w_daemon w)) \<longrightarrow> pq_heap q"
    using poll_result [OF wi poll(1) nc, of sp] poll(2) by auto
  have "length (rb_items (shm_tx (w_shm w))) \<le> 2"
    using inv by (simp add: punctual_def apart_def waiting_def)
  then have "length xs = length (rb_items (shm_tx (w_shm w)))" using r(2) by simp
  then have all: "rb_items rb = []" "rb_items (shm_tx (w_shm w)) = xs" using r(1) by (metis append_Nil2 append_eq_append_conv)+
  have s: "w_shm w' = (w_shm w)\<lparr>shm_tx := rb\<rparr>" "d_queue (w_daemon w') = q" "w_pc w' = DDecide"
      "w_sent w' = w_sent w" "w_dropped w' = w_dropped w" "w_crossed w' = w_crossed w"
    by (simp_all add: w'_def w_shm_def d nc [unfolded w_shm_def])
  have q: "queue_indices q = queue_indices (d_queue (w_daemon w)) + mset xs" by (rule queue_indices_nodes [OF r(3)])
  have new: "time_of w' = time_of w" "waiting w' = waiting w" "left_times w' = left_times w"
    using q pc by (simp_all add: fun_eq_iff time_of_def waiting_def left_times_def s all)
  have "ahead now w'"
    using inv pc by (auto simp: punctual_def ahead_def new s all q horizon_of_def)
  moreover have "world_inv w'" using poll_step [OF wi pc poll(1) nc poll(2)] by (simp add: w'_def)
  ultimately show ?thesis using inv r(4) by (simp add: punctual_def apart_def behind_def new s all)
qed

text \<open>The head of the queue is the first to be due.\<close>

lemma waiting_unique: "world_inv w \<Longrightarrow> waiting w = add_mset h R \<Longrightarrow> j \<in># R \<Longrightarrow> j \<noteq> h"
proof -
  assume inv: "world_inv w" and w: "waiting w = add_mset h R" and j: "j \<in># R"
  have "waiting w \<subseteq># owned w" by (simp add: owned_def in_flight_waiting)
  then have "R + {#h#} \<subseteq># all_indices" using inv w by (auto simp: world_inv_def resources_ok_def)
  from owner_unique [OF this j, of h] show ?thesis by simp
qed

lemma head_first:
  assumes inv: "punctual now w" and q: "pq_wf q"
    and rest: "pq_mset (d_queue (w_daemon w)) = add_mset (elems (d_queue (w_daemon w)) ! 0) (pq_mset q)"
  defines "h \<equiv> data (elems (d_queue (w_daemon w)) ! 0)"
  shows "prio_at (d_queue (w_daemon w)) 0 = time_of w h" "now + tx_delta_ns \<le> time_of w h" "pq_heap q"
    and "\<And>j. j \<in># queue_indices q \<Longrightarrow> time_of w h + tx_delta_ns \<le> time_of w j"
    and "waiting w = add_mset h (mset (rb_items (shm_tx (w_shm w))) + queue_indices q)"
proof -
  let ?q = "d_queue (w_daemon w)"
  have wi: "world_inv w" and heap: "pq_heap ?q" and ap: "apart w" and ah: "ahead now w" using inv by (simp_all add: punctual_def)
  have wf: "pq_wf ?q" using wi by (simp add: world_inv_def resources_ok_def)
  have prio: "prio n = time_of w (data n)" if "n \<in># pq_mset ?q" for n
    using wi that by (simp add: world_inv_def data_ok_def time_of_def)
  show h: "prio_at ?q 0 = time_of w h" using prio rest by (simp add: h_def)
  have ix: "queue_indices ?q = add_mset h (queue_indices q)" using rest by (simp add: queue_indices_def h_def)
  then show "now + tx_delta_ns \<le> time_of w h" using ah by (simp add: ahead_def)
  show w: "waiting w = add_mset h (mset (rb_items (shm_tx (w_shm w))) + queue_indices q)" by (simp add: waiting_def ix)
  have "pq_size q \<le> 1" using ap size_queue_indices [OF q] by (simp add: apart_def w)
  then show "pq_heap q" by (auto simp: pq_heap_def)
  show "time_of w h + tx_delta_ns \<le> time_of w j" if j: "j \<in># queue_indices q" for j
  proof -
    have "j \<noteq> h" using waiting_unique [OF wi w] j by simp
    moreover have "j \<in># waiting w" "h \<in># waiting w" using j by (simp_all add: w)
    ultimately have d: "tx_delta_ns \<le> \<bar>time_of w j - time_of w h\<bar>" using ap unfolding apart_def by blast
    obtain n where n: "n \<in># pq_mset ?q" "data n = j" using j rest by (auto simp: queue_indices_def)
    then have "prio_at ?q 0 \<le> prio n" using in_pq_mset [OF wf] heap_root_le [OF heap] by auto
    then show ?thesis using prio [OF n(1)] n(2) h d by simp
  qed
qed

lemma punctual_decide:
  assumes inv: "punctual now w" and pc: "w_pc w = DDecide" and dec: "tx_decide clock (w_daemon w) = Inr (d, act)"
    and clk: "clock_ok clock" "now \<le> clock_ns clock" "clock_ns clock \<le> now + tx_delta_ns"
  shows "punctual (clock_ns clock) (decided clock d act w)"
proof -
  let ?q = "d_queue (w_daemon w)" and ?c = "clock_ns clock" and ?w = "decided clock d act w"
  have wi: "world_inv w" using inv by (simp add: punctual_def)
  have wf: "pq_wf ?q" using wi by (simp add: world_inv_def resources_ok_def)
  have wi': "world_inv ?w" unfolding decided_def by (rule decide_step [OF wi pc dec])
  have ring: "?c + tx_delta_ns \<le> time_of w i" if "i \<in> set (rb_items (shm_tx (w_shm w)))" for i
    using inv pc that clk(3) by (force simp: punctual_def ahead_def horizon_of_def)
  have old: "t \<le> ?c + tx_delta_ns" if "t \<in> set (left_times w)" for t
    using inv that clk(2) by (force simp: punctual_def behind_def)
  note read = clock_reading [OF clk(1)]
  from wf dec show ?thesis
  proof (cases rule: decide_cases)
    case 1
    have s: "w_shm ?w = w_shm w" "d_queue (w_daemon ?w) = ?q" "w_pc ?w = DPoll" "w_sent ?w = w_sent w" "w_dropped ?w = w_dropped w"
        "w_crossed ?w = w_crossed w"
      using 1(1,2) by (auto simp: decided_def w_shm_def)
    have new: "time_of ?w = time_of w" "waiting ?w = waiting w" "left_times ?w = left_times w"
      using pc by (simp_all add: fun_eq_iff time_of_def waiting_def left_times_def s)
    have "?c + tx_delta_ns \<le> time_of w i" if i: "i \<in># queue_indices ?q" for i
    proof -
      obtain n where n: "n \<in># pq_mset ?q" "data n = i" using i by (auto simp: queue_indices_def)
      then obtain k where k: "k < pq_size ?q" "elems ?q ! k = n" using in_pq_mset [OF wf] by auto
      then have "?c + tx_delta_ns < prio_at ?q 0" using 1(3) read by (auto simp: early_def)
      also have "prio_at ?q 0 \<le> prio n" using heap_root_le [of ?q k] k inv by (simp add: punctual_def)
      also have "prio n = time_of w i" using wi n by (auto simp: world_inv_def data_ok_def time_of_def)
      finally show ?thesis by simp
    qed
    then have "ahead ?c ?w" using ring by (simp add: ahead_def new s horizon_of_def)
    then show ?thesis using inv wi' old by (simp add: punctual_def apart_def behind_def new s)
  next
    case (2 q)
    then show ?thesis using head_first(1,2) [OF inv 2(4,6)] read clk(3) by (simp add: late_def)
  next
    case (3 q)
    note h = head_first [OF inv 3(4,6)]
    have s: "w_shm ?w = w_shm w" "d_queue (w_daemon ?w) = q" "w_pc ?w = DFrame (data (elems ?q ! 0)) clock"
        "w_sent ?w = w_sent w" "w_dropped ?w = w_dropped w"
        "w_crossed ?w = w_crossed w"
      using 3(1,2) by (auto simp: decided_def w_shm_def)
    have new: "time_of ?w = time_of w" "left_times ?w = left_times w @ [time_of w (data (elems ?q ! 0))]"
        "waiting w = add_mset (data (elems ?q ! 0)) (waiting ?w)"
      using pc h(5) by (simp_all add: fun_eq_iff time_of_def waiting_def left_times_def s)
    have due: "?c \<le> time_of w (data (elems ?q ! 0))" "time_of w (data (elems ?q ! 0)) \<le> ?c + tx_delta_ns"
      using 3(3) read h(1) by (simp_all add: due_def)
    have "ahead ?c ?w" using ring h(4) due(1) by (force simp: ahead_def new s horizon_of_def)
    moreover have "behind ?c ?w"
      using inv due old h(2) unfolding punctual_def behind_def new(2)
      by (auto simp: sorted_append)
    moreover have "apart ?w" using inv unfolding punctual_def apart_def new(1,3) by simp
    ultimately show ?thesis using inv wi' h(3) by (simp add: punctual_def s)
  qed
qed

lemma punctual_frame:
  assumes inv: "punctual now w" "default_rooms ops" and pc: "w_pc w = DFrame i clock"
    and call: "tx_frame ops i (w_daemon w) = Inr (mb, d)"
  shows "punctual now (w\<lparr>w_daemon := d, w_pc := DReturn i, w_sent := w_sent w @ [(content (w_shm w) i, clock, mb)]\<rparr>)"
    (is "punctual now ?w")
proof -
  have d: "d_shm d = d_shm (w_daemon w)" "d_queue d = d_queue (w_daemon w)"
    using call by (auto simp: tx_frame_def rbind_eq_Inr case_prod_unfold Let_def split: prod.splits option.splits)
  then have s: "w_shm ?w = w_shm w" "d_queue (w_daemon ?w) = d_queue (w_daemon w)" by (simp_all add: w_shm_def)
  have new: "time_of ?w = time_of w" "waiting ?w = waiting w" "left_times ?w = left_times w"
    using pc by (simp_all add: fun_eq_iff time_of_def waiting_def left_times_def s d)
  have "world_inv ?w" using frame_step [OF _ inv(2) pc call] inv(1) by (simp add: punctual_def)
  then show ?thesis using inv(1) pc by (simp add: punctual_def apart_def ahead_def behind_def new s d horizon_of_def)
qed

lemma punctual_return:
  assumes inv: "punctual now w" and pc: "w_pc w = DReturn i" and call: "tx_return sp i (w_daemon w) = Inr d"
  shows "punctual now (w\<lparr>w_daemon := d, w_pc := DPoll\<rparr>)" (is "punctual now ?w")
proof -
  obtain rb where d: "d_shm d = (w_shm w)\<lparr>shm_free := rb\<rparr>" "d_queue d = d_queue (w_daemon w)"
    using call by (auto simp: tx_return_def rbind_eq_Inr w_shm_def)
  then have s: "w_shm ?w = (w_shm w)\<lparr>shm_free := rb\<rparr>" "d_queue (w_daemon ?w) = d_queue (w_daemon w)"
    by (simp_all add: w_shm_def)
  have new: "time_of ?w = time_of w" "waiting ?w = waiting w" "left_times ?w = left_times w"
    using pc by (simp_all add: fun_eq_iff time_of_def waiting_def left_times_def s d)
  have "world_inv ?w" using return_step [OF _ pc call] inv(1) by (simp add: punctual_def)
  then show ?thesis using inv(1) pc by (simp add: punctual_def apart_def ahead_def behind_def new s d horizon_of_def)
qed

lemma punctual_other:
  assumes step: "world_step ops w w'" and inv: "punctual now w" "default_rooms ops" "w_overlong w' = 0"
    and adm: "\<And>p. w_accepted w' = w_accepted w @ [p] \<Longrightarrow> admissible now w p"
    and pc: "w_pc w = DDecide \<longrightarrow> w_pc w' = DDecide"
  shows "punctual now w'"
proof -
  have wi: "world_inv w" "w_crossed w = 0" using inv(1) by (simp_all add: punctual_def)
  note nc = punctual_no_crossing [OF inv(1)]
  have "w_crossed w' = 0" using step wi(2) nc by (cases; simp add: set_shm_def)
  then have wi': "world_inv w'" using world_step_inv [OF step wi(1) inv(2)] inv(3) by simp
  from step show ?thesis
  proof cases
    case w_take
    show ?thesis using punctual_unmoved [OF inv(1) wi'] take_unmoved [OF wi(1) w_take(7)] unfolding w_take(1) by blast
  next
    case w_copy
    show ?thesis using punctual_unmoved [OF inv(1) wi'] copy_unmoved [OF wi(1) w_copy(2-4)] unfolding w_copy(1) by blast
  next
    case w_fill
    show ?thesis using punctual_unmoved [OF inv(1) wi'] fill_unmoved [OF wi(1) w_fill(2-4)] unfolding w_fill(1) by blast
  next
    case w_put
    show ?thesis using punctual_put [OF inv(1) w_put(2-4)] adm unfolding w_put(1) by blast
  next
    case w_poll
    show ?thesis unfolding w_poll(1) by (rule punctual_poll [OF inv(1) w_poll(2-4)])
  next
    case (w_decide clock d act)
    then show ?thesis using pc by (cases act) auto
  next
    case w_frame
    show ?thesis unfolding w_frame(1) by (rule punctual_frame [OF inv(1,2) w_frame(2,3)])
  next
    case w_return
    show ?thesis unfolding w_return(1) by (rule punctual_return [OF inv(1) w_return(2,3)])
  qed
qed

lemma booted_punctual:
  assumes "world_booted w"
  shows "punctual now w"
proof -
  have b: "w_sent w = []" "w_dropped w = []" "w_pc w = DPoll" "w_crossed w = 0" using assms by (simp_all add: world_booted_def)
  have w: "waiting w = {#}" using world_booted_inv(2) [OF assms] by (simp add: in_flight_waiting)
  then have z: "rb_items (shm_tx (w_shm w)) = []" "queue_indices (d_queue (w_daemon w)) = {#}" by (simp_all add: waiting_def)
  then have "pq_size (d_queue (w_daemon w)) = 0"
    using world_booted_inv(1) [OF assms] size_queue_indices [of "d_queue (w_daemon w)"]
    by (simp add: world_inv_def resources_ok_def)
  then show ?thesis
    using world_booted_inv(1) [OF assms] by (simp add: punctual_defs left_times_def pq_heap_def w z b)
qed

subsection \<open>Invariant of the clock\<close>

text \<open>How many steps the daemon has taken since its last decision, at most.\<close>

fun since_decision :: "daemon_pc \<Rightarrow> int" where
  "since_decision (DFrame i clock) = 0"
| "since_decision (DReturn i) = 1"
| "since_decision DPoll = 2"
| "since_decision DDecide = 3"

definition on_time :: "int \<Rightarrow> packet \<times> (int \<times> int) \<times> rte_mbuf \<Rightarrow> int \<Rightarrow> bool" where
  "on_time e s h \<longleftrightarrow> tx_time (fst s) - tx_delta_ns \<le> h \<and> h \<le> tx_time (fst s) + e"

definition clock_inv :: "int \<Rightarrow> 'd timed \<Rightarrow> bool" where
  "clock_inv e x \<longleftrightarrow> t_dec x \<le> t_last x \<and> t_last x \<le> t_now x \<and> t_now x \<le> t_last x + e \<and>
     t_last x \<le> t_dec x + since_decision (w_pc (t_world x)) * e \<and>
     (\<forall>i clock. w_pc (t_world x) = DFrame i clock \<longrightarrow> clock_ok clock \<and> clock_ns clock = t_dec x) \<and>
     list_all2 (on_time e) (w_sent (t_world x)) (t_times x)"

definition timed_inv :: "int \<Rightarrow> 'd timed \<Rightarrow> bool" where
  "timed_inv e x \<longleftrightarrow> punctual (t_dec x) (t_world x) \<and> clock_inv e x"

lemma decision_due:
  assumes "clock_inv e x" "4 * e \<le> tx_delta_ns" "0 \<le> e" "w_pc (t_world x) = DDecide"
  shows "t_dec x \<le> t_now x" "t_now x \<le> t_dec x + tx_delta_ns"
  using assms by (auto simp: clock_inv_def)

text \<open>When a frame is handed over, the decision is at most \<open>e\<close> old.\<close>

lemma framed_on_time:
  assumes inv: "world_inv (t_world x)" "clock_inv e x" and pc: "w_pc (t_world x) = DFrame i clock"
  shows "on_time e (content (w_shm (t_world x)) i, clock, mb) (t_now x)"
proof -
  have c: "clock_ok clock" "clock_ns clock = t_dec x" "t_last x \<le> t_dec x" "t_dec x \<le> t_last x" "t_last x \<le> t_now x" "t_now x \<le> t_last x + e"
    using inv(2) pc by (auto simp: clock_inv_def simp del: split_paired_All)
  have "due clock (tx_time (content (w_shm (t_world x)) i))" using inv(1) pc by (simp add: world_inv_def data_ok_def del: split_paired_All)
  then show ?thesis using c clock_reading [OF c(1)] by (simp add: due_def on_time_def)
qed

lemma app_step_sent:
  "world_step ops w w' \<Longrightarrow> w_pc w' = w_pc w \<Longrightarrow> w_sent w' = w_sent w"
proof (induction rule: world_step.induct)
  case (w_decide w clock d act)
  then show ?case by (cases act) auto
qed (simp_all add: set_shm_def)

lemma clock_step:
  assumes step: "timed_step ops e x y" and inv: "world_inv (t_world x)" "clock_inv e x" and e: "0 \<le> e"
  shows "clock_inv e y"
  using step
proof cases
  case (t_tick n)
  then show ?thesis using inv by (auto simp: clock_inv_def)
next
  case (t_app w)
  then show ?thesis using inv app_step_sent [OF t_app(2,3)] by (simp add: clock_inv_def)
next
  case (t_decide clock d act)
  then show ?thesis using inv e by (cases act) (auto simp: clock_inv_def decided_def)
next
  case (t_daemon w)
  have c: "t_dec x \<le> t_last x" "t_last x \<le> t_now x" "t_now x \<le> t_last x + e" "list_all2 (on_time e) (w_sent (t_world x)) (t_times x)"
      "t_last x \<le> t_dec x + since_decision (w_pc (t_world x)) * e"
    using inv(2) by (simp_all add: clock_inv_def)
  from t_daemon(2) show ?thesis
  proof cases
    case (w_poll table sp d)
    then show ?thesis using c e t_daemon(1) by (auto simp: clock_inv_def algebra_simps)
  next
    case (w_frame i clock mb d)
    then have "on_time e (content (w_shm (t_world x)) i, clock, mb) (t_now x)" using framed_on_time [OF inv] by blast
    then show ?thesis using c e w_frame t_daemon(1) by (auto simp: clock_inv_def algebra_simps intro: list_all2_appendI)
  next
    case (w_return i sp d)
    then show ?thesis using c e t_daemon(1) by (auto simp: clock_inv_def algebra_simps)
  qed (use t_daemon(3,4) in \<open>auto simp: set_shm_def\<close>)
qed

lemma timed_step_inv:
  assumes step: "paced_step ops e x y" and inv: "timed_inv e x" and ops: "default_rooms ops" "w_overlong (t_world y) = 0"
    and e: "0 \<le> e" "4 * e \<le> tx_delta_ns"
  shows "timed_inv e y"
proof -
  have p: "punctual (t_dec x) (t_world x)" "clock_inv e x" and st: "timed_step ops e x y" and adm: "admitted x y"
    using inv step by (simp_all add: timed_inv_def paced_step_def)
  have "t_dec x \<le> t_now x" using p(2) by (simp add: clock_inv_def)
  then have ad: "admissible (t_dec x) (t_world x) q" if "w_accepted (t_world y) = w_accepted (t_world x) @ [q]" for q
    using adm that by (auto simp: admitted_def admissible_def)
  have "world_inv (t_world x)" using p(1) by (simp add: punctual_def)
  from clock_step [OF st this p(2) e(1)] have "clock_inv e y" .
  moreover from st have "punctual (t_dec y) (t_world y)"
  proof cases
    case (t_tick n)
    then show ?thesis using p(1) by simp
  next
    case (t_app w)
    then show ?thesis using punctual_other [OF t_app(2) p(1) ops(1)] ops(2) ad by simp
  next
    case (t_decide clock d act)
    then show ?thesis using punctual_decide [OF p(1) t_decide(2,5,3)] decision_due [OF p(2) e(2,1) t_decide(2)] by simp
  next
    case (t_daemon w)
    then show ?thesis using punctual_other [OF t_daemon(2) p(1) ops(1)] ops(2) ad by simp
  qed
  ultimately show ?thesis by (simp add: timed_inv_def)
qed

interpretation timed: guarded_invariant "paced_step ops e"
  "\<lambda>x. timed_inv e x \<and> default_rooms ops \<and> 0 \<le> e \<and> 4 * e \<le> tx_delta_ns" "\<lambda>x. w_overlong (t_world x) = 0" for ops e
proof unfold_locales
  fix x y assume step: "paced_step ops e x y" and good: "w_overlong (t_world y) = 0"
  show "w_overlong (t_world x) = 0"
    using timed_world_step [of ops e x y] step good world_step_counts [of ops "t_world x" "t_world y"]
    by (auto simp: paced_step_def)
  assume "timed_inv e x \<and> default_rooms ops \<and> 0 \<le> e \<and> 4 * e \<le> tx_delta_ns"
  then show "timed_inv e y \<and> default_rooms ops \<and> 0 \<le> e \<and> 4 * e \<le> tx_delta_ns"
    using timed_step_inv [OF step] good by blast
qed

lemma booted_timed: "timed_booted x \<Longrightarrow> 0 \<le> e \<Longrightarrow> timed_inv e x"
  using booted_punctual [of "t_world x" "t_dec x"]
  by (auto simp: timed_inv_def timed_booted_def clock_inv_def world_booted_def)

lemma timed_reach:
  assumes "timed_booted x0" "default_rooms ops" "0 \<le> e" "4 * e \<le> tx_delta_ns" "(paced_step ops e)\<^sup>*\<^sup>* x0 x"
    and "w_overlong (t_world x) = 0"
  shows "timed_inv e x"
  using timed.reachable_inv [OF assms(5)] booted_timed [OF assms(1,3)] assms(2-4,6) by blast

subsection \<open>The daemon never faults\<close>

text \<open>
  The calls of each of its steps return: DPDK gives it a buffer whenever it asks, payloads fit a
  frame, the counter does not overflow.
\<close>

definition willing :: "'d dpdk \<Rightarrow> bool" where
  "willing ops \<longleftrightarrow> (\<forall>dev. \<exists>room dev'. rte_pktmbuf_alloc ops dev = (Some room, dev') \<and> length room = 2048)"

lemma willing_rooms: "willing ops \<Longrightarrow> default_rooms ops"
  unfolding willing_def default_rooms_def by (metis Pair_inject option.inject)

lemma decide_possible:
  assumes inv: "punctual now w" and clk: "clock_ok clock" "clock_ns clock \<le> now + tx_delta_ns"
  shows "\<exists>d act. tx_decide clock (w_daemon w) = Inr (d, act)"
proof (cases "pq_size (d_queue (w_daemon w)) = 0")
  case True
  then show ?thesis by (simp add: tx_decide_def kt_prio_queue_is_empty_def)
next
  case False
  let ?q = "d_queue (w_daemon w)"
  have wi: "world_inv w" using inv by (simp add: punctual_def)
  have wf: "pq_wf ?q" using wi by (simp add: world_inv_def resources_ok_def)
  obtain q where q: "pq_wf q" "pq_mset ?q = add_mset (elems ?q ! 0) (pq_mset q)"
      "kt_prio_queue_extract_min ?q True = Inr (q, 0, Some (data (elems ?q ! 0)))"
    using extract_correct [OF wf, of True] False by auto
  note h = head_first(1,2) [OF inv q(1,2)]
  have "0 \<le> prio_at ?q 0" using h clk(2) clock_bounds [OF clk(1)] by simp
  moreover have "is_i64 (prio_at ?q 0)" unfolding h(1) by (simp add: time_of_def tx_time_def)
  ultimately have "kt_get_time_diff_ns (clock_ns clock) (prio_at ?q 0) = Inr (prio_at ?q 0 - clock_ns clock)"
    by (rule time_diff [OF clk(1)])
  then show ?thesis
    using False q(3) h clk(2) clock_reading [OF clk(1)] getmin_correct [OF wf]
    by (simp add: tx_decide_def kt_prio_queue_is_empty_def)
qed

lemma frame_possible:
  assumes inv: "world_inv w" and ops: "willing ops" and pc: "w_pc w = DFrame i clock"
    and sz: "length (snd (content (w_shm w) i)) \<le> 2006"
  shows "\<exists>mb dev. tx_frame ops i (w_daemon w) = Inr (mb, (w_daemon w)\<lparr>d_dev := dev\<rparr>)"
proof -
  let ?md = "shm_metadata (w_shm w) ! unat i"
  obtain room dev where room: "rte_pktmbuf_alloc ops (d_dev (w_daemon w)) = (Some room, dev)" "length room = 2048"
    using ops unfolding willing_def by blast
  have "i \<in># in_flight w" using pc by (simp add: in_flight_def)
  then have i: "fitting (content (w_shm w) i)" "i \<in># owned w" using inv by (auto simp: world_inv_def data_ok_def owned_def)
  then have "unat i < 127" using inv all_indices_bound mset_subset_eqD by (fastforce simp: world_inv_def resources_ok_def)
  then have b: "unat i < length (shm_metadata (w_shm w))" "unat i * sizeof_kt_mbuf + 2048 \<le> length (shm_mbufs (w_shm w))"
    using inv by (auto simp: world_inv_def resources_ok_def shm_ok_def sizeof_kt_mbuf_def)
  have f: "length (md_eth_src ?md) = 6" "length (md_eth_dst ?md) = 6" "unat (md_size ?md) \<le> 2048"
    using i(1) by (simp_all add: fitting_def content_def Let_def)
  then have m: "unat (md_size ?md) \<le> 2006" "unat i * sizeof_kt_mbuf + unat (md_size ?md) \<le> length (shm_mbufs (w_shm w))"
    using sz b(2) by (simp_all add: content_def Let_def)
  let ?tx = "\<lparr>mb_data = room, mb_data_len = 0, mb_pkt_len = 0, mb_next_null = True, mb_nb_segs = 1\<rparr>"
  have "\<exists>mb. prepare_packet (rte_ipv4_cksum ops) ?tx (shm_mbufs (w_shm w)) (unat i * sizeof_kt_mbuf) ?md = Inr mb"
    using prepare_udp_parses [OF _ f(1,2) m(2), of ?tx] raw_frame_is_payload [OF _ f(1,2) m(2), of ?tx] m(1) room(2)
    by (cases "md_transport ?md = KT_METADATA_TRANSPORT_UDP") fastforce+
  then show ?thesis using room(1) b(1) by (auto simp: tx_frame_def w_shm_def case_prod_unfold)
qed

lemma return_possible:
  assumes inv: "world_inv w" and pc: "w_pc w = DReturn i" and cnt: "is_i64 (d_counter (w_daemon w) + 1)"
  shows "\<exists>rb c. tx_return 0 i (w_daemon w) = Inr ((w_daemon w)\<lparr>d_shm := (w_shm w)\<lparr>shm_free := rb\<rparr>, d_counter := c\<rparr>)"
proof -
  have ok: "shm_ok (w_shm w)" "resources_ok w" using inv by (simp_all add: world_inv_def resources_ok_def)
  have "length (rb_items (shm_free (w_shm w))) < 127" using owned_size [OF ok(2)] pc by (simp add: owned_def)
  then obtain rb fs where "kt_ringbuf_enqueue_burst 0 (shm_free (w_shm w)) [i] 8 1 = Inr (rb, 1, fs)"
    using enqueue_one [of "shm_free (w_shm w)" 0 i] ok(1) by (auto simp: shm_ok_def)
  then show ?thesis using cnt by (auto simp: tx_return_def w_shm_def i64_checked_def)
qed

text \<open>The counter of the daemon counts the frames whose buffers it has returned.\<close>

lemma counter_step:
  assumes "world_step ops w w'" "d_counter (w_daemon w) = int (length (w_sent w)) - int (length (unreturned (w_pc w)))"
  shows "d_counter (w_daemon w') = int (length (w_sent w')) - int (length (unreturned (w_pc w')))"
  using assms
proof (induction rule: world_step.induct)
  case (w_poll w table sp d)
  then show ?case by (auto simp: ktsnd_intake_def rbind_eq_Inr Let_def)
next
  case (w_decide w clock d act)
  then have "d_counter d = d_counter (w_daemon w)"
    by (auto simp: tx_decide_def rbind_eq_Inr split: if_splits option.splits)
  then show ?case using w_decide by (cases act) simp_all
next
  case (w_frame w i clock mb d)
  then show ?case by (auto simp: tx_frame_def rbind_eq_Inr case_prod_unfold Let_def split: prod.splits option.splits)
next
  case (w_return w i sp d)
  then show ?case by (auto simp: tx_return_def rbind_eq_Inr i64_checked_def split: if_splits)
qed (simp_all add: set_shm_def)

lemma counter_reach:
  assumes "(world_step ops)\<^sup>*\<^sup>* w0 w" "world_booted w0"
  shows "d_counter (w_daemon w) = int (length (w_sent w)) - int (length (unreturned (w_pc w)))"
  using assms
proof (induction rule: rtranclp_induct)
  case base
  then show ?case by (simp add: world_booted_def)
next
  case (step y z)
  then show ?case using counter_step by blast
qed

lemma paced_world_run: "(paced_step ops e)\<^sup>*\<^sup>* x y \<Longrightarrow> (world_step ops)\<^sup>*\<^sup>* (t_world x) (t_world y)"
proof (induction rule: rtranclp_induct)
  case (step y z)
  then show ?case using timed_world_step [of ops e y z] by (auto simp: paced_step_def intro: rtranclp.rtrancl_into_rtrancl)
qed simp

lemma hand_packet_accepted:
  assumes "world_inv w" "w_pc w = DFrame i clock"
  shows "content (w_shm w) i \<in> set (w_accepted w)"
proof -
  have "mset (w_accepted w) = image_mset (content (w_shm w)) (in_flight w) + (mset (map fst (w_sent w)) + mset (map fst (w_dropped w)))"
    using assms(1) by (simp add: world_inv_def account_ok_def)
  moreover have "i \<in># in_flight w" by (simp add: in_flight_def assms(2))
  ultimately have "content (w_shm w) i \<in># mset (w_accepted w)" by simp
  then show ?thesis by simp
qed

text \<open>One step of the daemon at this instant, with what it leaves alone.\<close>

definition daemon_moves :: "'d dpdk \<Rightarrow> int \<Rightarrow> 'd timed \<Rightarrow> 'd timed \<Rightarrow> bool" where
  "daemon_moves ops e x y \<longleftrightarrow> paced_step ops e x y \<and> t_now y = t_now x \<and> t_last y = t_now x \<and>
     w_pc (t_world y) \<noteq> w_pc (t_world x) \<and> w_calls (t_world y) = w_calls (t_world x) \<and>
     w_accepted (t_world y) = w_accepted (t_world x) \<and> w_overlong (t_world y) = w_overlong (t_world x)"

lemma daemon_movesI:
  assumes "world_step ops (t_world x) w" "w_pc (t_world x) \<noteq> DDecide" "w_pc w \<noteq> w_pc (t_world x)"
    and "w_calls w = w_calls (t_world x)" "w_accepted w = w_accepted (t_world x)" "w_overlong w = w_overlong (t_world x)"
  shows "\<exists>y. daemon_moves ops e x y"
  using t_daemon [OF assms(1-3), of e] assms(3-6)
  by (intro exI) (auto simp: daemon_moves_def paced_step_def admitted_def)

lemma daemon_steps:
  assumes inv: "timed_inv e x" and ops: "willing ops" and e: "0 \<le> e" "4 * e \<le> tx_delta_ns"
    and clk: "clock_ok clock" "clock_ns clock = t_now x"
    and cnt: "d_counter (w_daemon (t_world x)) = int (length (w_sent (t_world x))) - int (length (unreturned (w_pc (t_world x))))"
      "int (length (w_sent (t_world x))) < INT64_MAX"
    and sz: "\<forall>p \<in> set (w_accepted (t_world x)). length (snd p) \<le> 2006"
  shows "\<exists>y. daemon_moves ops e x y"
proof -
  let ?w = "t_world x"
  have p: "punctual (t_dec x) ?w" "clock_inv e x" and wi: "world_inv ?w" using inv by (simp_all add: timed_inv_def punctual_def)
  show ?thesis
  proof (cases "w_pc ?w")
    case DPoll
    have tbl: "length (replicate 64 (0 :: u64)) = 64" by simp
    obtain rb q where "ktsnd_intake 0 (replicate 64 0) (w_daemon ?w) = Inr ((w_daemon ?w)\<lparr>d_shm := (w_shm ?w)\<lparr>shm_tx := rb\<rparr>, d_queue := q\<rparr>)"
      using poll_result [OF wi tbl punctual_no_crossing [OF p(1)], of 0] by auto
    from world_step.w_poll [OF DPoll tbl this, of ops] show ?thesis by (rule daemon_movesI) (simp_all add: DPoll)
  next
    case DDecide
    have "clock_ns clock \<le> t_dec x + tx_delta_ns" using decision_due(2) [OF p(2) e(2,1) DDecide] clk(2) by simp
    from decide_possible [OF p(1) clk(1) this] obtain d act where "tx_decide clock (w_daemon ?w) = Inr (d, act)" by blast
    from t_decide [OF DDecide clk this, of ops e] show ?thesis
      by (intro exI [of _ "x\<lparr>t_world := decided clock d act ?w, t_last := t_now x, t_dec := t_now x\<rparr>"])
        (auto simp: daemon_moves_def paced_step_def admitted_def decided_def DDecide split: action.splits)
  next
    case (DFrame i c0)
    have "length (snd (content (w_shm ?w) i)) \<le> 2006" using sz hand_packet_accepted [OF wi DFrame] by blast
    from frame_possible [OF wi ops DFrame this] obtain mb dev where
      "tx_frame ops i (w_daemon ?w) = Inr (mb, (w_daemon ?w)\<lparr>d_dev := dev\<rparr>)" by blast
    from world_step.w_frame [OF DFrame this] show ?thesis by (rule daemon_movesI) (simp_all add: DFrame)
  next
    case (DReturn i)
    have "is_i64 (d_counter (w_daemon ?w) + 1)" using cnt DReturn by (simp add: is_i64_def INT64_MIN_def)
    from return_possible [OF wi DReturn this] obtain rb c where
      "tx_return 0 i (w_daemon ?w) = Inr ((w_daemon ?w)\<lparr>d_shm := (w_shm ?w)\<lparr>shm_free := rb\<rparr>, d_counter := c\<rparr>)" by blast
    from world_step.w_return [OF DReturn this, of ops] show ?thesis by (rule daemon_movesI) (simp_all add: DReturn)
  qed
qed

text \<open>What is still under way is not late by more than the time of a step.\<close>

lemma in_flight_not_late:
  assumes inv: "punctual (t_dec x) (t_world x)" "clock_inv e x" and e: "0 \<le> e" "4 * e \<le> tx_delta_ns"
    and p: "p \<in># image_mset (content (w_shm (t_world x))) (in_flight (t_world x))"
  shows "t_now x \<le> tx_time p + e"
proof -
  let ?w = "t_world x"
  have c: "t_now x \<le> t_last x + e" "t_last x \<le> t_dec x + since_decision (w_pc ?w) * e" using inv(2) by (simp_all add: clock_inv_def)
  have "since_decision (w_pc ?w) * e \<le> 3 * e" by (rule mult_right_mono [OF _ e(1)]) (cases "w_pc ?w"; simp)
  then have now: "t_now x \<le> t_dec x + tx_delta_ns" using c e by linarith
  from p obtain i where i: "p = content (w_shm ?w) i" "i \<in># waiting ?w \<or> i \<in> set (unsent (w_pc ?w))"
    by (auto simp: in_flight_waiting)
  from i(2) show ?thesis
  proof
    assume "i \<in># waiting ?w"
    then have "t_dec x + tx_delta_ns \<le> time_of ?w i"
      using inv(1) delta_pos by (auto simp: punctual_def ahead_def waiting_def horizon_of_def split: if_splits)
    then show ?thesis using now e(1) i(1) by (simp add: time_of_def)
  next
    assume "i \<in> set (unsent (w_pc ?w))"
    then obtain clock where "w_pc ?w = DFrame i clock" by (cases "w_pc ?w") auto
    then show ?thesis using framed_on_time [OF _ inv(2), of i clock] inv(1) i(1) by (simp add: punctual_def on_time_def)
  qed
qed

subsection \<open>Properties\<close>

text \<open>
  C2. Deadlines are met. In real time, with processes and daemon interleaved in any way, let each step of
  the daemon (poll, decide, frame, return) be done within \<open>e\<close> of the one before, \<open>4 * e\<close> at most 50
  microseconds, let no message be longer than a buffer, and let each packet be put into the transmit
  ring at least 100 microseconds ahead of its time, while the ring is empty and at most one other packet
  waits, at least 50 microseconds apart from it. Then in every state that is reached no poll has crossed
  the end of the ring and no packet was dropped; packets were handed to the device in the order of their
  times, the frame of each being what was sent, at an instant no more than 50 microseconds before its
  time and no more than \<open>e\<close> after it; and every accepted packet whose time passed more than \<open>e\<close> ago has
  been handed over.
\<close>

theorem deadlines_met:
  assumes "timed_booted x0" "default_rooms ops" "0 \<le> e" "4 * e \<le> tx_delta_ns" "(paced_step ops e)\<^sup>*\<^sup>* x0 x"
    and "w_overlong (t_world x) = 0"
  shows "w_crossed (t_world x) = 0 \<and> w_dropped (t_world x) = [] \<and>
    sorted (map (tx_time \<circ> fst) (w_sent (t_world x))) \<and>
    list_all2 (\<lambda>(p, clock, mb) h. framed p mb \<and> tx_time p - tx_delta_ns \<le> h \<and> h \<le> tx_time p + e)
      (w_sent (t_world x)) (t_times x) \<and>
    filter_mset (\<lambda>p. tx_time p + e < t_now x) (mset (w_accepted (t_world x))) \<subseteq># mset (map fst (w_sent (t_world x)))"
proof -
  let ?w = "t_world x"
  have inv: "punctual (t_dec x) ?w" "clock_inv e x" using timed_reach [OF assms] by (simp_all add: timed_inv_def)
  have wi: "world_inv ?w" using inv(1) by (simp add: punctual_def)
  have late: "t_now x \<le> tx_time p + e" if "p \<in># image_mset (content (w_shm ?w)) (in_flight ?w)" for p
    by (rule in_flight_not_late [OF inv assms(3,4) that])
  have "mset (w_accepted ?w) = image_mset (content (w_shm ?w)) (in_flight ?w) + mset (map fst (w_sent ?w))"
    using wi inv(1) by (simp add: world_inv_def account_ok_def punctual_def)
  moreover have "filter_mset (\<lambda>p. tx_time p + e < t_now x) (image_mset (content (w_shm ?w)) (in_flight ?w)) = {#}"
    using late by (auto simp: filter_mset_eq_conv simp flip: not_le)
  ultimately have "filter_mset (\<lambda>p. tx_time p + e < t_now x) (mset (w_accepted ?w)) \<subseteq># mset (map fst (w_sent ?w))"
    by (simp only: filter_union_mset add_0_left multiset_filter_subset)
  moreover have "sorted (map (tx_time \<circ> fst) (w_sent ?w))"
    using inv(1) by (simp add: punctual_def behind_def left_times_def sorted_append)
  moreover have "list_all2 (\<lambda>(p, clock, mb) h. framed p mb \<and> tx_time p - tx_delta_ns \<le> h \<and> h \<le> tx_time p + e)
      (w_sent ?w) (t_times x)"
    using inv(2) wi by (auto simp: clock_inv_def world_inv_def log_ok_def on_time_def list_all2_conv_all_nth split: prod.splits)
      (metis fst_conv nth_mem)+
  ultimately show ?thesis using inv(1) by (simp add: punctual_def)
qed

text \<open>
  C6. Time is never stopped by the daemon: in every state reached under the conditions of the deadlines,
  with a DPDK buffer whenever it asks for one, accepted payloads of at most 2006 bytes and fewer than
  \<open>2 ^ 63 - 1\<close> packets sent, the daemon's next step, wherever it is in its loop and whatever calls are
  under way, is possible at this instant without a fault and without a step of an application.
\<close>

theorem daemon_never_stuck:
  assumes "timed_booted x0" "willing ops" "0 \<le> e" "4 * e \<le> tx_delta_ns" "(paced_step ops e)\<^sup>*\<^sup>* x0 x"
    and "w_overlong (t_world x) = 0" "clock_ok clock" "clock_ns clock = t_now x"
    and "int (length (w_sent (t_world x))) < INT64_MAX" "\<forall>p \<in> set (w_accepted (t_world x)). length (snd p) \<le> 2006"
  shows "\<exists>y. timed_step ops e x y \<and> t_now y = t_now x \<and> t_last y = t_now x \<and> w_pc (t_world y) \<noteq> w_pc (t_world x) \<and>
    w_calls (t_world y) = w_calls (t_world x) \<and> w_accepted (t_world y) = w_accepted (t_world x)"
proof -
  have "timed_inv e x" using timed_reach [OF assms(1) willing_rooms [OF assms(2)] assms(3-6)] .
  moreover have "world_booted (t_world x0)" using assms(1) by (simp add: timed_booted_def)
  from counter_reach [OF paced_world_run [OF assms(5)] this]
  have "d_counter (w_daemon (t_world x)) = int (length (w_sent (t_world x))) - int (length (unreturned (w_pc (t_world x))))" .
  ultimately obtain y where "daemon_moves ops e x y" using daemon_steps assms(2-4,7-10) by blast
  then show ?thesis by (auto simp: daemon_moves_def paced_step_def)
qed

subsection \<open>A message on time\<close>

lemma demo_fill_time:
  "scheduled (g_socket_list demo_ktsn) (g_interface_list demo_ktsn) 3 (demo_msg [7, 8, 9]) = Some fill \<Longrightarrow>
   tx_time (fill sz md, iov) = 5000000100"
  by (auto simp: scheduled_def demo_ktsn_lookup AF_INET_def PF_PACKET_def tx_time_def i64_of_u64_def)

lemma demo_willing: "willing demo_dpdk"
  by (simp add: willing_def demo_dpdk_def)

text \<open>The steps of a call, at one instant.\<close>

lemma app_step_unmoved:
  assumes inv: "world_inv w" and step: "app_step ops w w'"
  shows "unmoved w w'"
proof -
  have pc: "w_pc w' = w_pc w" and acc: "w_accepted w' = w_accepted w" and st: "world_step ops w w'"
    using step by (simp_all add: app_step_def)
  from st show ?thesis
  proof cases
    case w_take
    show ?thesis unfolding w_take(1) by (rule take_unmoved [OF inv w_take(7)])
  next
    case w_copy
    show ?thesis unfolding w_copy(1) by (rule copy_unmoved [OF inv w_copy(2-4)])
  next
    case w_fill
    show ?thesis unfolding w_fill(1) by (rule fill_unmoved [OF inv w_fill(2-4)])
  next
    case (w_put t i p sp shm ok)
    have "length (rb_items (shm_tx (w_shm w))) < 127"
      using owned_size [of w] held_at [OF w_put(2)] w_put(3) inv by (simp add: world_inv_def owned_def in_flight_def)
    then show ?thesis using put_result [OF _ _ w_put(4)] inv acc w_put(1) by (auto simp: world_inv_def resources_ok_def)
  next
    case (w_decide clock d act)
    then show ?thesis using pc by (cases act) auto
  qed (use pc in auto)
qed

lemma app_steps_paced:
  assumes "(app_step ops)\<^sup>*\<^sup>* w w1" "world_inv w" "default_rooms ops" "w_crossed w = 0" "w_overlong w = 0"
  shows "(paced_step ops e)\<^sup>*\<^sup>* (x\<lparr>t_world := w\<rparr>) (x\<lparr>t_world := w1\<rparr>) \<and> world_inv w1 \<and> w_crossed w1 = 0 \<and> w_overlong w1 = 0 \<and>
    waiting w1 = waiting w \<and> rb_items (shm_tx (w_shm w1)) = rb_items (shm_tx (w_shm w)) \<and>
    w_accepted w1 = w_accepted w \<and> w_pc w1 = w_pc w"
  using assms
proof (induction rule: rtranclp_induct)
  case (step y z)
  have a: "world_step ops y z" "w_pc z = w_pc y" "w_accepted z = w_accepted y" "w_crossed z = w_crossed y" "w_overlong z = w_overlong y"
    using step.hyps(2) by (simp_all add: app_step_def)
  have inv: "world_inv y" using step by simp
  have u: "unmoved y z" by (rule app_step_unmoved [OF inv step.hyps(2)])
  have "paced_step ops e (x\<lparr>t_world := y\<rparr>) (x\<lparr>t_world := z\<rparr>)"
    using t_app [of ops "x\<lparr>t_world := y\<rparr>" z e] a by (simp add: paced_step_def admitted_def)
  moreover have "waiting z = waiting y" "rb_items (shm_tx (w_shm z)) = rb_items (shm_tx (w_shm y))"
    using u by (auto simp: unmoved_def waiting_def)
  moreover have "world_inv z" using world_step_inv [OF a(1) inv step.prems(2)] step a by simp
  ultimately show ?case using step a by (auto intro: rtranclp.rtrancl_into_rtrancl)
qed simp

lemma paced_call:
  assumes "completes ops (t_world x) t p w'" "world_inv (t_world x)" "default_rooms ops"
    and "w_crossed (t_world x) = 0" "w_overlong (t_world x) = 0" "waiting (t_world x) = {#}" "t_now x + 2 * tx_delta_ns \<le> tx_time p"
  shows "(paced_step ops e)\<^sup>*\<^sup>* x (x\<lparr>t_world := w'\<rparr>)"
proof -
  obtain w1 where w1: "(app_step ops)\<^sup>*\<^sup>* (t_world x) w1" "world_step ops w1 w'" using assms(1) by (auto simp: completes_def)
  note r = app_steps_paced [OF w1(1) assms(2-5), of e x]
  have "rb_items (shm_tx (w_shm (t_world x))) = []" using assms(6) by (simp add: waiting_def)
  then have "paced_step ops e (x\<lparr>t_world := w1\<rparr>) (x\<lparr>t_world := w'\<rparr>)"
    using t_app [of ops "x\<lparr>t_world := w1\<rparr>" w' e] w1(2) r assms(1,6,7)
    by (auto simp: paced_step_def admitted_def admissible_def completes_def)
  then show ?thesis using r by (auto intro: rtranclp.rtrancl_into_rtrancl)
qed

text \<open>From there time passes, the daemon taking a step every \<open>e\<close>.\<close>

lemma clock_of:
  assumes "0 \<le> n" "n < 2 ^ 33 * NSEC_PER_SEC"
  obtains clock where "clock_ok clock" "clock_ns clock = n"
proof (rule that [of "(n div NSEC_PER_SEC, n mod NSEC_PER_SEC)"])
  show "clock_ns (n div NSEC_PER_SEC, n mod NSEC_PER_SEC) = n" by (simp add: clock_ns_def)
  have "n = n div 1000000000 * 1000000000 + n mod 1000000000" "0 \<le> n mod 1000000000" "n mod 1000000000 < 1000000000"
    by simp_all
  then show "clock_ok (n div NSEC_PER_SEC, n mod NSEC_PER_SEC)"
    using assms unfolding clock_ok_def NSEC_PER_SEC_def fst_conv snd_conv by linarith
qed

lemma time_passes:
  assumes x0: "timed_booted x0" "willing ops" "0 \<le> e" "4 * e \<le> tx_delta_ns"
    and x: "(paced_step ops e)\<^sup>*\<^sup>* x0 x" "w_overlong (t_world x) = 0" "t_last x = t_now x" "0 \<le> t_now x"
      "length (w_accepted (t_world x)) \<le> 1" "\<forall>p \<in> set (w_accepted (t_world x)). length (snd p) \<le> 2006"
    and n: "t_now x + int n * e < 2 ^ 33 * NSEC_PER_SEC"
  shows "\<exists>y. (paced_step ops e)\<^sup>*\<^sup>* x0 y \<and> t_now y = t_now x + int n * e \<and> t_last y = t_now y \<and>
    w_overlong (t_world y) = 0 \<and> w_accepted (t_world y) = w_accepted (t_world x)"
  using n
proof (induction n)
  case 0
  then show ?case using x by (intro exI [of _ x]) simp
next
  case (Suc n)
  then have "t_now x + int n * e < 2 ^ 33 * NSEC_PER_SEC" using x0(3) by (simp add: algebra_simps)
  then obtain y where y: "(paced_step ops e)\<^sup>*\<^sup>* x0 y" "t_now y = t_now x + int n * e" "t_last y = t_now y"
      "w_overlong (t_world y) = 0" "w_accepted (t_world y) = w_accepted (t_world x)"
    using Suc.IH by blast
  let ?y = "y\<lparr>t_now := t_now y + e\<rparr>"
  have "paced_step ops e y ?y" using t_tick [of y "t_now y + e" e ops] y(3) x0(3) by (simp add: paced_step_def admitted_def)
  with y(1) have run: "(paced_step ops e)\<^sup>*\<^sup>* x0 ?y" by (rule rtranclp.rtrancl_into_rtrancl)
  have inv: "timed_inv e ?y" using timed_reach [OF x0(1) willing_rooms [OF x0(2)] x0(3,4) run] y(4) by simp
  have wb: "world_booted (t_world x0)" using x0(1) by (simp add: timed_booted_def)
  have "world_inv (t_world y)" using inv by (simp add: timed_inv_def punctual_def)
  then have "size (mset (w_accepted (t_world y))) =
      size (in_flight (t_world y)) + length (w_sent (t_world y)) + length (w_dropped (t_world y))"
    by (simp only: world_inv_def account_ok_def) simp
  then have cnt: "int (length (w_sent (t_world ?y))) < INT64_MAX" using x(5) y(5) by (simp add: INT64_MAX_def)
  have "0 \<le> t_now ?y" "t_now ?y < 2 ^ 33 * NSEC_PER_SEC"
    using x(4) x0(3) y(2) Suc.prems by (simp_all add: algebra_simps)
  then obtain clock where clk: "clock_ok clock" "clock_ns clock = t_now ?y" by (rule clock_of)
  obtain z where z: "daemon_moves ops e ?y z"
    using daemon_steps [OF inv x0(2-4) clk _ cnt] counter_reach [OF paced_world_run [OF run] wb] x(6) y(5) by auto
  then have "(paced_step ops e)\<^sup>*\<^sup>* x0 z" using run by (auto simp: daemon_moves_def intro: rtranclp.rtrancl_into_rtrancl)
  then show ?case using z y by (intro exI [of _ z]) (simp add: daemon_moves_def algebra_simps)
qed

text \<open>100 microseconds before its time a message is in the ring.\<close>

lemma timed_demo:
  obtains x0 x :: "rte_mbuf list timed" and p where "timed_booted x0" "(paced_step demo_dpdk 12500)\<^sup>*\<^sup>* x0 x"
    "w_accepted (t_world x) = [p]" "snd p = [7, 8, 9]" "tx_time p = 5000000100" "t_now x = 4999900100"
    "t_last x = t_now x" "w_overlong (t_world x) = 0" "w_sent (t_world x) = []"
proof -
  obtain w0 :: "rte_mbuf list world" where b: "world_booted w0" "w_calls w0 = [Ready, Ready]"
    by (rule demo_world_exists)
  note boot = world_booted_inv [OF b(1)] and rooms = willing_rooms [OF demo_willing]
  have z: "w_crossed w0 = 0" "w_overlong w0 = 0" using b(1) by (simp_all add: world_booted_def)
  have free: "rb_items (shm_free (w_shm w0)) = 0 # map of_nat [1..<127]" unfolding boot(3) by (simp add: upt_conv_Cons)
  obtain fill where f: "scheduled (g_socket_list demo_ktsn) (g_interface_list demo_ktsn) 3 (demo_msg [7, 8, 9]) = Some fill"
    by (rule demo_scheduled)
  let ?p = "(fill (of_nat (length [7, 8, 9 :: u8])) (shm_metadata (w_shm w0) ! unat (0 :: u64)), [7, 8, 9 :: u8])"
  obtain w where c: "completes demo_dpdk w0 1 ?p w"
    using call_completes [OF boot(1) rooms z _ _ f demo_macs _ _ free, of 1 "[7, 8, 9]" "[]"] b(2)
    by (auto simp: demo_msg_def)
  note time = demo_fill_time [OF f]
  let ?x0 = "\<lparr>t_world = w0, t_now = 4999900100, t_last = 4999900100, t_dec = 4999900100, t_times = []\<rparr>"
  have "waiting w0 = {#}" using boot(2) by (simp add: in_flight_waiting)
  then have "(paced_step demo_dpdk 12500)\<^sup>*\<^sup>* ?x0 (?x0\<lparr>t_world := w\<rparr>)"
    using boot(1) rooms z c by (intro paced_call [where p = ?p and t = 1]) (simp_all add: time tx_delta_ns_def)
  moreover have "w_accepted w = [?p]" "w_sent w = []" "w_overlong w = 0" using c b(1) by (simp_all add: completes_def world_booted_def)
  ultimately show thesis using that [of ?x0 "?x0\<lparr>t_world := w\<rparr>" ?p] b(1) time by (simp add: timed_booted_def)
qed

theorem daemon_never_stuck_witness:
  "\<exists>x0 x y :: rte_mbuf list timed. timed_booted x0 \<and> (paced_step demo_dpdk 12500)\<^sup>*\<^sup>* x0 x \<and>
     map snd (w_accepted (t_world x)) = [[7, 8, 9]] \<and> timed_step demo_dpdk 12500 x y \<and> w_pc (t_world y) \<noteq> w_pc (t_world x)"
proof (rule timed_demo)
  fix x0 x :: "rte_mbuf list timed" and p
  assume r: "timed_booted x0" "(paced_step demo_dpdk 12500)\<^sup>*\<^sup>* x0 x" "w_accepted (t_world x) = [p]" "snd p = [7, 8, 9]"
    "t_now x = 4999900100" "w_overlong (t_world x) = 0" "w_sent (t_world x) = []"
  have c: "clock_ok (4, 999900100)" "clock_ns (4, 999900100) = t_now x"
    by (simp_all add: clock_ok_def clock_ns_def NSEC_PER_SEC_def r)
  have "\<exists>y. timed_step demo_dpdk 12500 x y \<and> t_now y = t_now x \<and> t_last y = t_now x \<and> w_pc (t_world y) \<noteq> w_pc (t_world x) \<and>
      w_calls (t_world y) = w_calls (t_world x) \<and> w_accepted (t_world y) = w_accepted (t_world x)"
    by (rule daemon_never_stuck [OF r(1) demo_willing _ _ r(2,6) c]) (simp_all add: r INT64_MAX_def tx_delta_ns_def)
  then obtain y where "timed_step demo_dpdk 12500 x y" "w_pc (t_world y) \<noteq> w_pc (t_world x)" by blast
  then show ?thesis using r by (intro exI [of _ x0] exI [of _ x] exI [of _ y]) simp
qed

text \<open>And 25 microseconds after its time it has left, on time.\<close>

theorem deadlines_met_witness:
  "\<exists>x0 x :: rte_mbuf list timed. timed_booted x0 \<and> (paced_step demo_dpdk 12500)\<^sup>*\<^sup>* x0 x \<and> t_now x = 5000025100 \<and>
     w_dropped (t_world x) = [] \<and>
     (\<exists>p clock mb h. (p, clock, mb) \<in> set (w_sent (t_world x)) \<and> h \<in> set (t_times x) \<and> snd p = [7, 8, 9] \<and> framed p mb \<and>
        4999950100 \<le> h \<and> h \<le> 5000012600)"
proof (rule timed_demo)
  fix x0 x1 :: "rte_mbuf list timed" and p
  assume r: "timed_booted x0" "(paced_step demo_dpdk 12500)\<^sup>*\<^sup>* x0 x1" "w_accepted (t_world x1) = [p]" "snd p = [7, 8, 9]"
    "tx_time p = 5000000100" "t_now x1 = 4999900100" "t_last x1 = t_now x1" "w_overlong (t_world x1) = 0"
  have "\<exists>y. (paced_step demo_dpdk 12500)\<^sup>*\<^sup>* x0 y \<and> t_now y = t_now x1 + int 10 * 12500 \<and> t_last y = t_now y \<and>
      w_overlong (t_world y) = 0 \<and> w_accepted (t_world y) = w_accepted (t_world x1)"
    by (rule time_passes [OF r(1) demo_willing]) (use r in \<open>simp_all add: tx_delta_ns_def NSEC_PER_SEC_def\<close>)
  then obtain x where x: "(paced_step demo_dpdk 12500)\<^sup>*\<^sup>* x0 x" "t_now x = 5000025100" "w_overlong (t_world x) = 0"
      "w_accepted (t_world x) = [p]"
    using r(3,6) by auto
  have e: "0 \<le> (12500 :: int)" "4 * 12500 \<le> tx_delta_ns" by (simp_all add: tx_delta_ns_def)
  note d = deadlines_met [OF r(1) willing_rooms [OF demo_willing] e x(1,3)]
  have "{#p#} \<subseteq># mset (map fst (w_sent (t_world x)))" using d x(2,4) r(5) by simp
  then have "p \<in> set (map fst (w_sent (t_world x)))" by (metis in_multiset_in_set insert_subset_eq_iff)
  then obtain k where k: "k < length (w_sent (t_world x))" "fst (w_sent (t_world x) ! k) = p"
    by (auto simp: in_set_conv_nth)
  obtain clock mb where s: "w_sent (t_world x) ! k = (p, clock, mb)" using k(2) by (metis prod.collapse)
  have len: "length (t_times x) = length (w_sent (t_world x))" using d by (auto dest: list_all2_lengthD)
  have "framed p mb \<and> tx_time p - tx_delta_ns \<le> t_times x ! k \<and> t_times x ! k \<le> tx_time p + 12500"
    using d k(1) s by (auto simp: list_all2_conv_all_nth)
  moreover have "(p, clock, mb) \<in> set (w_sent (t_world x))" "t_times x ! k \<in> set (t_times x)" using k(1) s len by (metis nth_mem)+
  ultimately show ?thesis using r(1,4,5) x d
    by (intro exI [of _ x0] exI [of _ x] conjI exI [of _ p] exI [of _ clock] exI [of _ mb] exI [of _ "t_times x ! k"])
       (simp_all add: tx_delta_ns_def)
qed

end
