(* ===== verification/KT_Daemon_Faults.thy ===== *)
theory KT_Daemon_Faults
  imports KT_System
begin

section \<open>What the defects of queue and ring do to the daemon\<close>

text \<open>
  Two defects of the components reach the wire. The sift-down of the queue leaves the latest of
  three packets at the root, so the daemon waits for it while the packet before it misses its time
  and is dropped. A burst that crosses the end of the transmit ring reads the zeros behind the
  array, so the daemon queues buffer 0 in place of the packets it removed.
\<close>

subsection \<open>Three packets in order\<close>

lemma send_keeps_queue: "ktsnd_send ops sp i d = Inr d' \<Longrightarrow> d_queue d' = d_queue d"
  by (auto simp: ktsnd_send_def rbind_eq_Inr Let_def case_prod_unfold split: option.splits prod.splits)

lemma extract_at_most_three:
  assumes "pq_wf q" "0 < pq_size q" "pq_size q \<le> 3"
  shows "kt_prio_queue_extract_min q want =
    Inr (q\<lparr>elems := (elems q)[0 := elems q ! (pq_size q - 1)], pq_size := pq_size q - 1\<rparr>, 0,
      if want then Some (data (elems q ! 0)) else None)"
proof -
  let ?q = "q\<lparr>elems := (elems q)[0 := elems q ! (pq_size q - 1)], pq_size := pq_size q - 1\<rparr>"
  have "pq_wf ?q" using assms(1) by (auto simp: pq_wf_def)
  then have "heapify_min_idx ?q 0 = Inr 0" using heapify_min_idx_root_small [of ?q] assms(3) by simp
  then show ?thesis using extract_root_stays [OF assms(1,2)] by simp
qed

lemma tx_sends_root:
  assumes "pq_wf (d_queue d)" "0 < pq_size (d_queue d)" "clock_ok clock" "t = prio_at (d_queue d) 0" "0 \<le> t" "is_i64 t"
    and "0 \<le> t - clock_ns clock" "t - clock_ns clock \<le> tx_delta_ns"
    and "kt_prio_queue_extract_min (d_queue d) True = Inr (q, 0, Some i)" "ktsnd_tx ops sp clock d = Inr (d', act)"
  shows "act = Sent i" "d_queue d' = q"
proof -
  obtain st where "ktsnd_send ops sp i (d\<lparr>d_queue := q\<rparr>) = Inr st" "d' = st" "act = Sent i"
    using assms(10) unfolding tx_nonempty [OF assms(1-6)] using assms(7-9) by (auto simp: rbind_eq_Inr)
  then show "act = Sent i" "d_queue d' = q" using send_keeps_queue [of ops sp i "d\<lparr>d_queue := q\<rparr>" st] by simp_all
qed

text \<open>
  C34. Three packets are pending, stored in the order of their times \<open>a\<close>, \<open>b\<close>, \<open>c\<close>, the last more than 50
  microseconds after the second. After the daemon has sent the first, at every instant up to the
  time of the second it waits, although the second is due; when it has sent the third, in its
  window, it finds the second late and drops it.
\<close>

theorem due_packet_missed:
  assumes wf: "pq_wf (d_queue d)" and q: "elems (d_queue d) = a # b # c # rest" "pq_size (d_queue d) = 3"
    and t: "0 \<le> prio a" "prio a \<le> prio b" "prio b + tx_delta_ns < prio c" "is_i64 (prio c)"
    and first: "clock_ok c1" "0 \<le> prio a - clock_ns c1" "prio a - clock_ns c1 \<le> tx_delta_ns"
      "ktsnd_tx ops sp c1 d = Inr (d1, act1)"
  shows "act1 = Sent (data a) \<and>
    (\<forall>clock. clock_ok clock \<and> clock_ns clock \<le> prio b \<longrightarrow> ktsnd_tx ops sp clock d1 = Inr (d1, Wait)) \<and>
    (\<forall>c3 d2 act3. clock_ok c3 \<and> 0 \<le> prio c - clock_ns c3 \<and> prio c - clock_ns c3 \<le> tx_delta_ns \<and>
        ktsnd_tx ops sp c3 d1 = Inr (d2, act3) \<longrightarrow> act3 = Sent (data c) \<and>
      (\<forall>c4. clock_ok c4 \<and> clock_ns c3 \<le> clock_ns c4 \<longrightarrow>
        (\<exists>d3. ktsnd_tx ops sp c4 d2 = Inr (d3, Lost) \<and> pq_size (d_queue d3) = 0)))"
proof -
  let ?q1 = "(d_queue d)\<lparr>elems := c # b # c # rest, pq_size := 2\<rparr>"
  let ?q2 = "(d_queue d)\<lparr>elems := b # b # c # rest, pq_size := 1\<rparr>"
  have d: "0 \<le> tx_delta_ns" by (simp add: tx_delta_ns_def)
  have i64: "is_i64 (prio a)" "is_i64 (prio b)" using t d by (auto simp: is_i64_def INT64_MIN_def)
  have wf1: "pq_wf ?q1" "pq_wf ?q2" using wf q by (auto simp: pq_wf_def less_Suc_eq numeral_2_eq_2 numeral_3_eq_3)
  have e: "kt_prio_queue_extract_min (d_queue d) True = Inr (?q1, 0, Some (data a))"
      "kt_prio_queue_extract_min ?q1 True = Inr (?q2, 0, Some (data c))"
    using extract_at_most_three [OF wf, of True] extract_at_most_three [OF wf1(1), of True] q by simp_all
  have late: "kt_prio_queue_extract_min ?q2 False = Inr ((d_queue d)\<lparr>elems := b # b # c # rest, pq_size := 0\<rparr>, 0, None)"
    using extract_at_most_three [OF wf1(2), of False] by simp
  have d1: "act1 = Sent (data a)" "d_queue d1 = ?q1"
    using tx_sends_root [OF wf _ first(1) _ t(1) i64(1) first(2,3) e(1) first(4)] q by simp_all
  have wait: "ktsnd_tx ops sp clock d1 = Inr (d1, Wait)" if "clock_ok clock" "clock_ns clock \<le> prio b" for clock
    using tx_nonempty [of d1 clock "prio c" ops sp] that wf1(1) d1(2) t d by simp
  have third: "act3 = Sent (data c)" "d_queue d2 = ?q2"
    if "clock_ok c3" "0 \<le> prio c - clock_ns c3" "prio c - clock_ns c3 \<le> tx_delta_ns" "ktsnd_tx ops sp c3 d1 = Inr (d2, act3)"
    for c3 d2 act3
    using tx_sends_root [of d1 c3 "prio c" ?q2 "data c" ops sp d2 act3] that wf1(1) d1(2) t d e(2) by simp_all
  have drop: "ktsnd_tx ops sp c4 d2 = Inr (d2\<lparr>d_queue := (d_queue d)\<lparr>elems := b # b # c # rest, pq_size := 0\<rparr>\<rparr>, Lost)"
    if "clock_ok c4" "prio b < clock_ns c4" "d_queue d2 = ?q2" for c4 d2
    using tx_nonempty [of d2 c4 "prio b" ops sp] that wf1(2) t i64(2) late d by simp
  show ?thesis
  proof (intro conjI allI impI; (elim conjE)?)
    show "act1 = Sent (data a)" by (rule d1)
    show "ktsnd_tx ops sp clock d1 = Inr (d1, Wait)" if "clock_ok clock" "clock_ns clock \<le> prio b" for clock
      using that by (rule wait)
    fix c3 d2 act3
    assume c3: "clock_ok c3" "0 \<le> prio c - clock_ns c3" "prio c - clock_ns c3 \<le> tx_delta_ns"
      "ktsnd_tx ops sp c3 d1 = Inr (d2, act3)"
    show "act3 = Sent (data c)" using c3 by (rule third)
    show "\<exists>d3. ktsnd_tx ops sp c4 d2 = Inr (d3, Lost) \<and> pq_size (d_queue d3) = 0"
      if "clock_ok c4" "clock_ns c3 \<le> clock_ns c4" for c4
    proof -
      have "prio b < clock_ns c4" using c3(3) that(2) t(3) by linarith
      then show ?thesis using drop [OF that(1) _ third(2) [OF c3]] by simp
    qed
  qed
qed

text \<open>Three packets, 100 microseconds apart.\<close>

definition three_packets :: "rte_mbuf list ktsnd" where
  "three_packets = demo_ktsnd\<lparr>
     d_shm := (d_shm demo_ktsnd)\<lparr>shm_mbufs := replicate 6144 7, shm_metadata := replicate 3 demo_md\<rparr>,
     d_queue := \<lparr>elems = [\<lparr>prio = 5000000100, data = 0\<rparr>, \<lparr>prio = 5000100100, data = 1\<rparr>,
       \<lparr>prio = 5000200100, data = 2\<rparr>], pq_cap = 3, pq_size = 3\<rparr>\<rparr>"

lemma three_packets_queue:
  "pq_wf (d_queue three_packets)" "pq_size (d_queue three_packets) = 3"
  "elems (d_queue three_packets) = [\<lparr>prio = 5000000100, data = 0\<rparr>, \<lparr>prio = 5000100100, data = 1\<rparr>,
     \<lparr>prio = 5000200100, data = 2\<rparr>]"
  by (auto simp: three_packets_def pq_wf_def is_i64_def INT64_MIN_def INT64_MAX_def less_Suc_eq numeral_3_eq_3)

lemma three_packets_first:
  "\<exists>d1. ktsnd_tx demo_dpdk 0 (5, 0) three_packets = Inr (d1, Sent 0)"
proof -
  have i: "is_i64 1" "is_i64 5000000100" by (simp_all add: is_i64_def INT64_MIN_def INT64_MAX_def)
  have "\<exists>d1 mb. ktsnd_tx demo_dpdk 0 (5, 0) three_packets = Inr (d1, Sent 0) \<and>
    d_dev d1 = snd (rte_eth_tx_burst demo_dpdk [] mb) \<and>
    parse_udp (mbuf_frame mb) = Some \<lparr>v_eth_dst = md_eth_dst demo_md, v_eth_src = md_eth_src demo_md,
      v_ip_src = md_ip_src demo_md, v_ip_dst = md_ip_dst demo_md, v_sport = 9999, v_dport = md_udp_dport demo_md,
      v_payload = take (unat (md_size demo_md)) (drop (unat (0 :: u64) * 2048) (shm_mbufs (d_shm three_packets)))\<rparr> \<and>
    rb_items (shm_free (d_shm d1)) = rb_items (shm_free (d_shm three_packets)) @ [0] \<and>
    pq_mset (d_queue three_packets) = add_mset (elems (d_queue three_packets) ! 0) (pq_mset (d_queue d1)) \<and>
    d_counter d1 = d_counter three_packets + 1"
  proof (rule tx_udp [where t = 5000000100 and room = "replicate 2048 0"])
    show "rb_wf (shm_free (d_shm three_packets))"
      "rb_len (shm_free (d_shm three_packets)) < unat (rb_capacity (shm_free (d_shm three_packets)))"
      using demo_ktsnd_simps(4-6) length_rb_items [of "shm_free (d_shm demo_ktsnd)"]
      by (simp_all add: three_packets_def)
  qed (use three_packets_queue i in \<open>simp_all add: clock_ok_def clock_ns_def NSEC_PER_SEC_def tx_delta_ns_def demo_dpdk_def,
      simp_all add: three_packets_def demo_md_def demo_ktsnd_def\<close>)
  then show ?thesis by blast
qed

theorem due_packet_missed_witness:
  "\<exists>d1. ktsnd_tx demo_dpdk 0 (5, 0) three_packets = Inr (d1, Sent 0) \<and>
     ktsnd_tx demo_dpdk 0 (5, 100100) d1 = Inr (d1, Wait)"
proof -
  obtain d1 where d1: "ktsnd_tx demo_dpdk 0 (5, 0) three_packets = Inr (d1, Sent 0)" using three_packets_first by blast
  have c: "clock_ok (5, 0)" "clock_ok (5, 100100)" "clock_ns (5, 0) = 5000000000" "clock_ns (5, 100100) = 5000100100"
      "is_i64 5000200100"
    by (simp_all add: clock_ok_def clock_ns_def NSEC_PER_SEC_def is_i64_def INT64_MIN_def INT64_MAX_def)
  have "ktsnd_tx demo_dpdk 0 (5, 100100) d1 = Inr (d1, Wait)"
    using due_packet_missed [OF three_packets_queue(1,3,2) _ _ _ _ c(1) _ _ d1, THEN conjunct2, THEN conjunct1] c
    by (simp add: tx_delta_ns_def)
  then show ?thesis using d1 by blast
qed

subsection \<open>A burst across the end of the transmit ring\<close>

text \<open>
  C35. The transmit ring as the daemon lays it out has 128 elements and zeros behind them. When the
  \<open>m\<close> elements of a burst start \<open>k < m\<close> places before the end, the daemon removes all \<open>m\<close>, but queues
  only the first \<open>k\<close>; in place of the others it queues buffer 0, \<open>m - k\<close> times. The packets of the others
  are never sent and their buffers never returned.
\<close>

theorem crossing_poll_queues_buffer_zero:
  assumes wf: "rb_wf (shm_tx (d_shm d))" and ring: "rb_size (shm_tx (d_shm d)) = 128" "drop 128 (ring (shm_tx (d_shm d))) = replicate 368 0"
    and m: "m = min 8 (rb_len (shm_tx (d_shm d)))" "k = 128 - rb_slot (shm_tx (d_shm d)) (tail (cons (shm_tx (d_shm d))))" "k < m"
    and q: "pq_wf (d_queue d)" "pq_size (d_queue d) + m \<le> pq_cap (d_queue d)"
    and md: "\<forall>x \<in> set (rb_items (shm_tx (d_shm d))). unat x < length (shm_metadata (d_shm d))" "shm_metadata (d_shm d) \<noteq> []"
    and tbl: "length table = 64"
  shows "\<exists>d'. ktsnd_intake sp table d = Inr d' \<and> rb_items (shm_tx (d_shm d')) = drop m (rb_items (shm_tx (d_shm d))) \<and>
    queue_indices (d_queue d') =
      queue_indices (d_queue d) + mset (take k (rb_items (shm_tx (d_shm d)))) + replicate_mset (m - k) 0"
proof -
  let ?rb = "shm_tx (d_shm d)"
  let ?s = "rb_slot ?rb (tail (cons ?rb))"
  have geo: "rb_geo ?rb" using wf by (simp add: rb_wf_def)
  have s: "?s < 128" using rb_slot_less [OF geo, of "tail (cons ?rb)"] ring(1) by simp
  have "length (drop 128 (ring ?rb)) = 368" unfolding ring(2) by simp
  then have len: "length (ring ?rb) = 496" by simp
  have mm: "m = min (unat (8 :: u32)) (rb_len ?rb)" "m \<le> rb_len ?rb" "m \<le> 8" "k \<le> rb_len ?rb" using m by simp_all
  have fit: "?s + m \<le> length (ring ?rb)" "m \<le> length table" using s mm(3) len tbl by simp_all
  have "take k (drop ?s (ring ?rb)) = take k (rb_items ?rb)"
    using rb_items_read [OF wf mm(4)] m(2) s ring(1) by simp
  moreover have "take m (drop ?s (ring ?rb)) = take k (drop ?s (ring ?rb)) @ take (m - k) (drop 128 (ring ?rb))"
  proof -
    have "drop k (drop ?s (ring ?rb)) = drop 128 (ring ?rb)" using m(2) s by simp
    then show ?thesis using take_add [of k "m - k" "drop ?s (ring ?rb)"] m(3) by (simp only: le_add_diff_inverse less_imp_le)
  qed
  ultimately have read: "take m (drop ?s (ring ?rb)) = take k (rb_items ?rb) @ replicate (m - k) 0"
    unfolding ring(2) using mm(3) by simp
  define xs where "xs = take k (rb_items ?rb) @ replicate (m - k) (0 :: u64)"
  have table': "blit m table 0 (ring ?rb) ?s = xs @ drop m table"
    using blit_from_0 [OF fit(2,1)] read by (simp add: xs_def)
  have lx: "length xs = m" using mm(4) m(3) length_rb_items [of ?rb] by (simp add: xs_def)
  have um: "unat (of_nat m :: u32) = m" using mm(3) by (intro unat_of_nat_u32) simp_all
  have "\<forall>x \<in> set xs. unat x < length (shm_metadata (d_shm d))" using md by (auto simp: xs_def dest: in_set_takeD)
  then obtain q' where q': "rfold (insert_packet (shm_metadata (d_shm d))) (d_queue d) xs = Inr q'"
      "pq_mset q' = pq_mset (d_queue d) + image_mset (packet_node (shm_metadata (d_shm d))) (mset xs)"
    using insert_all [OF q(1), of xs] lx q(2) by auto
  have "queue_indices q' = queue_indices (d_queue d) + mset (take k (rb_items ?rb)) + replicate_mset (m - k) 0"
    using queue_indices_nodes [OF q'(2)] by (simp add: xs_def)
  then show ?thesis
    using dequeue_burst_eq [OF wf mm(1) fit(2,1), of sp] rb_items_get [OF wf mm(2)] um q'(1) lx
    by (simp add: ktsnd_intake_def Let_def table')
qed

definition crossing_daemon :: "rte_mbuf list ktsnd" where
  "crossing_daemon = (demo_daemon 0)\<lparr>d_shm := (d_shm (demo_daemon 0))\<lparr>
     shm_tx := (ringbuf_header ''RB_tx'' 128 1 (7 # replicate 125 0 @ [5, 6] @ replicate 368 0))
       \<lparr>prod := \<lparr>head = 129, tail = 129\<rparr>, cons := \<lparr>head = 126, tail = 126\<rparr>\<rparr>\<rparr>\<rparr>"

lemma crossing_daemon_tx:
  "rb_wf (shm_tx (d_shm crossing_daemon))" "rb_len (shm_tx (d_shm crossing_daemon)) = 3"
  "rb_slot (shm_tx (d_shm crossing_daemon)) (tail (cons (shm_tx (d_shm crossing_daemon)))) = 126"
  "rb_items (shm_tx (d_shm crossing_daemon)) = [5, 6, 7]"
  "rb_size (shm_tx (d_shm crossing_daemon)) = 128" "drop 128 (ring (shm_tx (d_shm crossing_daemon))) = replicate 368 0"
  by (simp_all add: crossing_daemon_def rb_wf_def rb_geo_def rb_len_def rb_slot_def rb_items_def ringbuf_header_def
      upt_rec nth_append nth_Cons')

theorem crossing_poll_queues_buffer_zero_witness:
  "\<exists>d'. ktsnd_intake 0 (replicate 64 0) crossing_daemon = Inr d' \<and> rb_items (shm_tx (d_shm d')) = [] \<and>
     queue_indices (d_queue d') = {#0, 5, 6#}"
proof -
  have q: "d_queue crossing_daemon = kt_prio_queue_init 127 (replicate 127 \<lparr>prio = 0, data = 0\<rparr>)"
      "length (shm_metadata (d_shm crossing_daemon)) = 127"
    by (simp_all add: crossing_daemon_def demo_daemon_def)
  have wf: "pq_wf (d_queue crossing_daemon)" unfolding q by (rule init_wf) simp_all
  have "pq_size (d_queue crossing_daemon) + 3 \<le> pq_cap (d_queue crossing_daemon)" "queue_indices (d_queue crossing_daemon) = {#}"
    by (simp_all add: q queue_indices_def) (simp add: kt_prio_queue_init_def)
  moreover have "\<exists>d'. ktsnd_intake 0 (replicate 64 0) crossing_daemon = Inr d' \<and>
      rb_items (shm_tx (d_shm d')) = drop 3 (rb_items (shm_tx (d_shm crossing_daemon))) \<and>
      queue_indices (d_queue d') = queue_indices (d_queue crossing_daemon) +
        mset (take 2 (rb_items (shm_tx (d_shm crossing_daemon)))) + replicate_mset (3 - 2) 0"
  proof (rule crossing_poll_queues_buffer_zero)
    show "shm_metadata (d_shm crossing_daemon) \<noteq> []" using q(2) by auto
  qed (use crossing_daemon_tx wf q(2) calculation in simp_all)
  ultimately show ?thesis using crossing_daemon_tx(4) by simp
qed

end
