(* ===== verification/KT_Print.thy ===== *)
theory KT_Print
  imports KT_Talker KT_Sockd
begin

section \<open>What the programs print\<close>

text \<open>
  The text behind the records of output in the other theories: the lines with which \<open>tsn_perf -v\<close>
  reports its measurements, the metadata the socket daemon shows, the interface table and the
  figures of the page allocator, with the conversions of \<open>printf\<close> they use. Shown here: the numbers
  of a line can be read back, also by the \<open>atol\<close> of the program's own option parsing, and both ways
  of printing an IPv4 address agree.
\<close>

subsection \<open>Conversions\<close>

fun digits :: "nat \<Rightarrow> string" where
  "digits n = (if n < 10 then [char_of (48 + n)] else digits (n div 10) @ [char_of (48 + n mod 10)])"

declare digits.simps [simp del]

text \<open>\<open>%d\<close> and \<open>%ld\<close>; an unsigned argument is read as a signed one of its width.\<close>

definition fmt_d :: "int \<Rightarrow> string" where
  "fmt_d v = (if v < 0 then CHR ''-'' # digits (nat (- v)) else digits (nat v))"

definition hex_digit :: "nat \<Rightarrow> char" where
  "hex_digit n = (if n < 10 then char_of (48 + n) else char_of (87 + n))"

definition fmt_02x :: "u8 \<Rightarrow> string" where
  "fmt_02x b = [hex_digit (unat b div 16), hex_digit (unat b mod 16)]"

fun hex_digits :: "nat \<Rightarrow> string" where
  "hex_digits n = (if n < 16 then [hex_digit n] else hex_digits (n div 16) @ [hex_digit (n mod 16)])"

declare hex_digits.simps [simp del]

definition fmt_p :: "u64 \<Rightarrow> string" where
  "fmt_p a = (if a = 0 then ''(nil)'' else ''0x'' @ hex_digits (unat a))"

definition newline :: string where "newline = [CHR 0x0A]"

subsection \<open>Measurements\<close>

fun talker_line :: "int \<times> int \<times> int \<times> int \<Rightarrow> string" where
  "talker_line (counter, wakeup_time, txtime, send_time) =
     fmt_d counter @ '', '' @ fmt_d wakeup_time @ '', '' @ fmt_d txtime @ '', '' @ fmt_d send_time @ newline"

fun listener_line :: "int \<times> int \<Rightarrow> string" where
  "listener_line (counter, now) = fmt_d counter @ '', '' @ fmt_d now @ newline"

definition exit_with_error :: "string \<Rightarrow> string \<times> fault" where
  "exit_with_error s = (''Error: '' @ s @ newline, Exit)"

definition usage :: "string \<Rightarrow> string" where
  "usage progname = ''usage: '' @ progname @ '' [device]'' @ newline"

subsection \<open>Addresses, metadata, interfaces\<close>

definition colons :: "u8 list \<Rightarrow> string" where
  "colons bs = fmt_02x (bs ! 0) @ concat (map (\<lambda>i. CHR '':'' # fmt_02x (bs ! i)) [1..<6])"

text \<open>The four octets of an address in host order, as the socket daemon shifts them out.\<close>

definition dotted :: "u32 \<Rightarrow> string" where
  "dotted w = fmt_d (uint (drop_bit 24 w AND 0xFF)) @ ''.'' @ fmt_d (uint (drop_bit 16 w AND 0xFF)) @ ''.'' @
     fmt_d (uint (drop_bit 8 w AND 0xFF)) @ ''.'' @ fmt_d (uint (w AND 0xFF))"

definition print_metadata :: "kt_metadata \<Rightarrow> string" where
  "print_metadata md =
     ''metadata: '' @ newline @
     ''  txtime: '' @ fmt_d (i64_of_u64 (md_txtime md)) @ newline @
     ''  size: '' @ fmt_d (i64_of_u64 (md_size md)) @ newline @
     ''  eth_src: '' @ colons (md_eth_src md) @ newline @
     ''  eth_dst: '' @ colons (md_eth_dst md) @ newline @
     ''  ip_src: '' @ dotted (md_ip_src md) @ newline @
     ''  ip_dst: '' @ dotted (md_ip_dst md) @ newline @
     ''  dport: '' @ fmt_d (uint (md_udp_dport md)) @ newline"

text \<open>\<open>inet_ntoa\<close> takes the address as it lies in memory, in network order.\<close>

definition inet_ntoa :: "u32 \<Rightarrow> string" where
  "inet_ntoa w = (let bs = rev (be32 w) in
     fmt_d (uint (bs ! 0)) @ ''.'' @ fmt_d (uint (bs ! 1)) @ ''.'' @ fmt_d (uint (bs ! 2)) @ ''.'' @ fmt_d (uint (bs ! 3)))"

definition print_interface :: "kt_interface \<Rightarrow> string" where
  "print_interface iface =
     ''Interface: '' @ if_name iface @ newline @
     ''  ifindex: '' @ fmt_d (if_index iface) @ newline @
     ''  addr: '' @ inet_ntoa (sa_word (if_addr iface)) @ newline @
     ''  netmask: '' @ inet_ntoa (sa_word (if_netmask iface)) @ newline"

subsection \<open>The allocator behind its handle\<close>

definition page_alloc_print_stats :: "kt_page_allocator \<Rightarrow> string" where
  "page_alloc_print_stats al =
     ''page_size: '' @ fmt_d (sint (page_size al)) @ newline @
     ''page_count: '' @ fmt_d (sint (page_count al)) @ newline @
     ''page_free: '' @ fmt_d (sint (page_free al)) @ newline @
     ''page_list: '' @ fmt_p (page_list_ptr al) @ newline @
     ''free_pages_mask: '' @ fmt_p (free_pages_mask_ptr al) @ newline @
     ''data: '' @ fmt_p (pa_data al) @ newline @ newline"

text \<open>The handle: the function pointers are set before the allocator behind it is initialised.\<close>

record kt_allocator =
  al_data :: kt_page_allocator
  al_alloc :: "kt_page_allocator \<Rightarrow> u32 \<Rightarrow> (kt_page_allocator \<times> u64 option) res"
  al_free :: "kt_page_allocator \<Rightarrow> u64 \<Rightarrow> kt_page_allocator res"
  al_print_stats :: "kt_page_allocator \<Rightarrow> string"

definition page_allocator_handle :: "kt_page_allocator \<Rightarrow> kt_allocator" where
  "page_allocator_handle al = \<lparr>al_data = al, al_alloc = page_alloc_alloc, al_free = page_alloc_free,
     al_print_stats = page_alloc_print_stats\<rparr>"

subsection \<open>Reading numbers back\<close>

text \<open>The fields of a line, between separators.\<close>

fun fields :: "char \<Rightarrow> string \<Rightarrow> string list" where
  "fields sep [] = [[]]"
| "fields sep (c # cs) =
     (if c = sep then [] # fields sep cs
      else case fields sep cs of [] \<Rightarrow> [[c]] | f # fs \<Rightarrow> (c # f) # fs)"

lemma fields_append:
  "sep \<notin> set xs \<Longrightarrow> fields sep (xs @ sep # ys) = xs # fields sep ys" "sep \<notin> set xs \<Longrightarrow> fields sep xs = [xs]"
  by (induction xs) (auto split: list.splits)

lemma code_digit: "n < 10 \<Longrightarrow> (of_char (char_of (48 + n)) :: int) = 48 + int n"
proof -
  assume "n < 10"
  then have "(of_char (char_of (48 + n) :: char) :: nat) = 48 + n" by simp
  then show ?thesis using of_nat_of_char [of "char_of (48 + n)", where ?'a = int] by simp
qed

lemma digit_char:
  assumes "n < 10"
  shows "digit_val (char_of (48 + n)) = int n" "is_digit (char_of (48 + n))" "\<not> is_space (char_of (48 + n))"
  using code_digit [OF assms] assms by (simp_all add: digit_val_def is_digit_def is_space_def)

lemma digits_all: "list_all is_digit (digits n)"
  by (induction n rule: digits.induct) (subst digits.simps, simp add: digit_char(2))

lemma digits_value: "foldl (\<lambda>v c. v * 10 + digit_val c) 0 (digits n) = int n"
proof (induction n rule: digits.induct)
  case (1 n)
  have "int (n div 10) * 10 + int (n mod 10) = int n" by (metis div_mult_mod_eq of_nat_add of_nat_mult of_nat_numeral)
  then show ?case using 1 by (subst digits.simps) (simp add: digit_char(1))
qed

lemma digits_ne: "digits n \<noteq> []"
  by (subst digits.simps) simp

lemma unsigned_digits:
  assumes "rest = [] \<or> \<not> is_digit (hd rest)"
  shows "unsigned_prefix (digits n @ rest) = int n"
proof -
  have "takeWhile is_digit (digits n @ rest) = digits n @ takeWhile is_digit rest"
    using digits_all [of n] by (simp add: list_all_iff)
  moreover have "takeWhile is_digit rest = []" using assms by (cases rest) auto
  ultimately show ?thesis by (simp add: unsigned_prefix_def digits_value)
qed

lemma digit_not_sign: "is_digit c \<Longrightarrow> c \<noteq> CHR ''-'' \<and> c \<noteq> CHR ''+'' \<and> c \<noteq> CHR '','' \<and> c \<noteq> CHR ''.'' \<and> \<not> is_space c"
  by (auto simp: is_digit_def digit_val_def is_space_def)

lemma decimal_fmt_d:
  assumes "rest = [] \<or> \<not> is_digit (hd rest)"
  shows "decimal_prefix (fmt_d v @ rest) = v" "decimal_prefix (CHR '' '' # fmt_d v @ rest) = v"
proof -
  obtain c cs where c: "digits (nat v) = c # cs" "is_digit c"
    using digits_ne [of "nat v"] digits_all [of "nat v"] by (cases "digits (nat v)") auto
  note n = digit_not_sign [OF c(2)]
  have m: "\<not> is_space CHR ''-''" "is_space CHR '' ''" by (simp_all add: is_space_def)
  have u: "unsigned_prefix (c # cs @ rest) = int (nat v)" using unsigned_digits [OF assms, of "nat v"] c(1) by simp
  show d: "decimal_prefix (fmt_d v @ rest) = v"
    using n m(1) u unsigned_digits [OF assms, of "nat (- v)"]
    by (cases "v < 0") (simp_all add: decimal_prefix_def fmt_d_def c(1))
  show "decimal_prefix (CHR '' '' # fmt_d v @ rest) = v" using d m(2) by (simp add: decimal_prefix_def)
qed

lemma atol_fmt_d:
  assumes "is_i64 v" "rest = [] \<or> \<not> is_digit (hd rest)"
  shows "atol (fmt_d v @ rest) = Inr v" "atol (CHR '' '' # fmt_d v @ rest) = Inr v"
  using decimal_fmt_d [OF assms(2), of v] assms(1) by (simp_all add: atol_def)

lemma fmt_d_chars: "CHR '','' \<notin> set (fmt_d v)" "CHR ''.'' \<notin> set (fmt_d v)"
  using digits_all [of "nat v"] digits_all [of "nat (- v)"] digit_not_sign
  by (auto simp: fmt_d_def list_all_iff)

text \<open>
  A line of the talker has exactly four fields and a line of the listener two, and reading each with
  \<open>atol\<close> gives the number that was printed.
\<close>

theorem measurement_lines_read_back:
  assumes "is_i64 a" "is_i64 b" "is_i64 c" "is_i64 d"
  shows "map atol (fields (CHR '','') (talker_line (a, b, c, d))) = map Inr [a, b, c, d]"
    and "map atol (fields (CHR '','') (listener_line (a, b))) = map Inr [a, b]"
proof -
  have nl: "\<not> is_digit (hd newline)" "CHR '','' \<notin> set newline" by (simp_all add: newline_def is_digit_def digit_val_def)
  note f = fields_append [of "CHR '',''"] fmt_d_chars(1)
  have last: "fields (CHR '','') (CHR '' '' # fmt_d x @ newline) = [CHR '' '' # fmt_d x @ newline]" for x
    using nl(2) f(3) [of x] by (intro f(2)) auto
  have mid: "fields (CHR '','') (CHR '' '' # fmt_d x @ CHR '','' # ys) = (CHR '' '' # fmt_d x) # fields (CHR '','') ys" for x ys
    using f(1) [of "CHR '' '' # fmt_d x" ys] f(3) [of x] by simp
  show "map atol (fields (CHR '','') (talker_line (a, b, c, d))) = map Inr [a, b, c, d]"
    using f(1,3) mid last atol_fmt_d [of a "[]"] atol_fmt_d [of b "[]"] atol_fmt_d [of c "[]"] atol_fmt_d [of d newline] nl(1) assms
    by simp
  show "map atol (fields (CHR '','') (listener_line (a, b))) = map Inr [a, b]"
    using f(1,3) mid last atol_fmt_d [of a "[]"] atol_fmt_d [of b newline] nl(1) assms by simp
qed

subsection \<open>Addresses\<close>

lemma octet: "uint (ucast (drop_bit k (w :: u32)) :: u8) = uint (drop_bit k w AND 0xFF)"
proof -
  have "x AND 0xFF = take_bit 8 x" for x :: u32 by (simp add: take_bit_eq_mask mask_eq_exp_minus_1)
  then show ?thesis by (simp add: unsigned_ucast_eq unsigned_take_bit_eq)
qed

lemma dotted_octets: "dotted w = fmt_d (uint (be32 w ! 0)) @ ''.'' @ fmt_d (uint (be32 w ! 1)) @ ''.'' @
   fmt_d (uint (be32 w ! 2)) @ ''.'' @ fmt_d (uint (be32 w ! 3))"
  using octet [of 24 w] octet [of 16 w] octet [of 8 w] octet [of 0 w] by (simp add: dotted_def be32_def)

lemma be32_of_be32: "be32 (of_be32 [a, b, c, d]) = [a, b, c, d]"
proof -
  have "\<not> bit (x :: u8) (8 + n) \<and> \<not> bit x (16 + n) \<and> \<not> bit x (24 + n)" for x n
    using bit_imp_le_length [of x "8 + n"] bit_imp_le_length [of x "16 + n"] bit_imp_le_length [of x "24 + n"] by auto
  then show ?thesis
    unfolding be32_def of_be32_def list.inject by (intro conjI refl; intro bit_word_eqI) (auto simp: bit_simps)
qed

text \<open>
  The address of an interface is printed in the same way by the library, from network order, and by
  the socket daemon, from the host order that \<open>sendmsg\<close> puts into the metadata; the octets can be
  read back.
\<close>

theorem addresses_print_alike:
  "inet_ntoa w = dotted (ntohl w)"
  "map atol (fields (CHR ''.'') (dotted w)) = map (Inr \<circ> uint) (be32 w)"
proof -
  obtain a b c d where r: "rev (be32 w) = [a, b, c, d]" by (simp add: be32_def)
  then show "inet_ntoa w = dotted (ntohl w)" by (simp add: dotted_octets inet_ntoa_def ntohl_def be32_of_be32)
  obtain a b c d where w: "be32 w = [a, b, c, d]" by (simp add: be32_def)
  have "is_i64 v" if "0 \<le> v \<and> v < 256" for v using that by (simp add: is_i64_def INT64_MIN_def INT64_MAX_def)
  then have i: "is_i64 (uint (x :: u8))" for x using uint_range_size [of x] by (simp add: word_size)
  have "atol (fmt_d (uint (x :: u8))) = Inr (uint x)" for x using atol_fmt_d(1) [OF i, of "[]"] by simp
  then show "map atol (fields (CHR ''.'') (dotted w)) = map (Inr \<circ> uint) (be32 w)"
    by (simp add: dotted_octets w fields_append fmt_d_chars(2))
qed

end
