(* ===== verification/Spec2Isabelle.thy ===== *)
theory Spec2Isabelle
  imports KT_Ringbuf_Lin KT_Talker_System KT_Sockd KT_Startup KT_Support KT_OpcUa
    KT_Realtime KT_Daemon_Faults KT_Print
begin

text \<open>
  \<^bold>\<open>KuberneTSN: a user-space packet scheduler for time-sensitive networking.\<close>

  An application is started with \<open>libktsn\<close> preloaded. A message that it sends with a transmission
  time does not go to the kernel: the library takes the index of a free buffer from a ring in
  shared memory, writes payload and metadata into that buffer and puts the index into a second
  ring. The daemon \<open>ktsnd\<close> polls this ring, orders the packets by transmission time in a queue,
  builds a frame when the window of a packet opens, hands it to DPDK and returns the index to the
  ring of free buffers. \<open>tsn_perf\<close> measures the latency, two examples use the OPC UA library.

  \<^bold>\<open>Theories and sources.\<close> All paths are below \<open>src/\<close>.

  \<^item> \<open>KT_Prelude\<close>: integer types of \<open>src/kt_common.h\<close> as words, faults and their sequencing,
    checked arrays, shared lemmas. A fault (\<open>Inl\<close>) is what C does instead of returning: an access
    outside an object, a signed overflow, a null pointer, an unwritten value, a failed assertion.
    Codes that the program returns are ordinary values.
  \<^item> \<open>KT_Interfaces\<close>: what clients rely on, as locales: a bounded bag (the queue), a bounded FIFO
    (the ring), a store of blocks (the allocator); an invariant that holds as long as nothing
    went wrong (\<open>guarded_invariant\<close>), and, extending it, what makes observed traces those of a
    specification (\<open>trace_refinement\<close>). Each is interpreted on the operations of the model in the
    theory of the provider, \<open>guarded_invariant\<close> for the interleaved ring, the interleaved processes and
    the processes with a clock, \<open>trace_refinement\<close> for the interleaved ring; \<open>message_sink\<close> of \<open>KT_Talker\<close> is interpreted on the preloaded library in \<open>KT_Talker_System\<close>.
  \<^item> \<open>KT_Queue\<close>: \<open>src/kt_queue.c\<close>. The record \<open>kt_prio_queue\<close> is the struct, with the allocated
    block as a list; one definition for each function. Insertion keeps the heap and adds exactly
    the packet; removal takes exactly the root. The heap order is lost by a removal from three or
    more packets, because the test of the right child forgets the left one.
  \<^item> \<open>KT_Ringbuf\<close>: \<open>src/kt_ringbuf.c\<close>, each call running alone. Single elements refine a bounded
    FIFO for every power of two and all counter values; bursts do as long as they stay inside the
    array; a burst across its end reads and writes behind it. The unrolled copy is a block copy.
  \<^item> \<open>KT_Ringbuf_Conc\<close>: the same two functions for any number of threads, as a step relation
    \<open>conc_step\<close> whose steps are single loads, compare-and-swaps, element copies and stores. Two counters
    record reservations across the end of the array and decisions on a head of \<open>2 ^ 32\<close> elements ago; as
    long as both are zero, returned elements are a prefix of the reserved ones, no cell has two
    holders, a call waits for every earlier reservation on its side and can be completed by those
    threads alone.
  \<^item> \<open>KT_Ringbuf_Lin\<close>: under the same conditions, or when every call is for one element, all that
    callers observe (calls, counts and elements returned) is a trace of a bounded queue with atomic
    operations (\<open>lin_step\<close>); for what cannot happen, a call on a ring may be taken for one step.
  \<^item> \<open>KT_Alloc\<close>: \<open>src/kt_alloc.c\<close>. Requests are first fit and complete, live blocks are disjoint in
    every reachable allocator, releasing undoes requesting. Two defects are proved: a request of
    zero bytes does not return, and initialisation counts pages outside the segment.
  \<^item> \<open>KT_Memory\<close>: \<open>src/kt_memory.c\<close> as traces of system calls with given answers, \<open>src/kt_common.c\<close>,
    and \<open>kt_shm\<close>, the contents of the segment.
  \<^item> \<open>KT_Packet\<close>: \<open>prepare_packet\<close> of \<open>ktsnd.c\<close>, byte by byte. A frame parses back to the metadata and
    the payload.
  \<^item> \<open>KT_Daemon\<close>: layout and main loop of \<open>ktsnd.c\<close>. The layout is disjoint; each branch of the time
    window does what the comments say; a late packet is dropped with its buffer.
  \<^item> \<open>KT_Daemon_Main\<close>: \<open>ip_parse\<close>, \<open>port_init\<close> and \<open>main\<close> of \<open>ktsnd.c\<close>. The port is set up until the first
    failure; the signal ends the loop after the iteration in which it arrives; a normal end releases
    both segments and keeps two blocks of the heap; the error returns leave segments behind, and
    then every later start is refused.
  \<^item> \<open>KT_Preload\<close>: \<open>libktsn.c\<close>. The record \<open>ktsn\<close> holds its global variables. The socket list refines a
    map; \<open>sendmsg\<close> writes one buffer, one metadata entry and one index and nothing else, unless the
    payload is longer than a buffer; every branch that schedules nothing.
  \<^item> \<open>KT_Startup\<close>: \<open>__libc_start_main\<close> of \<open>libktsn.c\<close>. The pointers of an application are those of the
    daemon moved to its own mapping; the interfaces are collected, whatever value the library's
    \<open>socket\<close>, which has no \<open>return\<close>, leaves to the queries.
  \<^item> \<open>KT_System\<close>: applications and daemon on one segment, as the reachable states \<open>sys_reach\<close> under
    any order of calls and polls, with the number of late packets and of polls across the end of
    the transmit ring. Without such a poll buffers are never shared and each late packet loses one for
    ever; after the last every message is refused; a message accepted into an idle system leaves as
    a frame of its own. A call is one step here.
  \<^item> \<open>KT_Delivery\<close>: the same processes interleaved inside their calls (\<open>world_step\<close>): the four steps of
    a call of \<open>sendmsg\<close> and the four of an iteration of the daemon, shown to make up the calls. Polls
    across the end of the ring and payloads longer than a buffer are counted; as long as there was
    neither, every accepted message is pending, was transmitted once, in its window and unaltered, or
    was late. A call on a ring is one step here.
  \<^item> \<open>KT_Realtime\<close>: the same in real time (\<open>timed_step\<close>): time passes between the steps, at most \<open>e\<close> from
    one step of the daemon to the next. When \<open>4 * e\<close> is at most 50 microseconds and packets arrive early
    enough, apart and no more than two at a time, none is dropped and each is handed to the device at
    most 50 microseconds before and at most \<open>e\<close> after its time; the daemon is never stuck.
  \<^item> \<open>KT_Daemon_Faults\<close>: what the defects of queue and ring do on the wire: a packet that is due is
    passed over and dropped; a burst across the end of the ring queues buffer 0 for other packets.
  \<^item> \<open>KT_Talker\<close>: \<open>apps/tsn_perf.c\<close>. Configurations that pass the checks are well typed; the calls of
    the talker, with instants and numbers; sizes below four bytes overrun the message.
  \<^item> \<open>KT_Talker_System\<close>: the talker on the library, from where it has its socket. It returns and
    its messages are in the ring.
  \<^item> \<open>KT_Sockd\<close>: \<open>ktsnd_socket.c\<close>. Its rings of 100 elements hand out a buffer twice; without new
    messages it never looks at its queue.
  \<^item> \<open>KT_Print\<close>: the text the programs print: measurements, metadata, interfaces, figures of the
    allocator. Numbers can be read back.
  \<^item> \<open>KT_Support\<close>: \<open>src/kt_logger.c\<close> and \<open>src/kt_mempool.c\<close>.
  \<^item> \<open>KT_OpcUa\<close>: \<open>apps/opcua_sub.c\<close>, \<open>apps/opcua_pub.c\<close> and the message types of
    \<open>apps/ua_pubsub_networkmessage.h\<close>. The subscriber prints exactly the fields of known type and
    stops at an empty array of such a type.

  \<^bold>\<open>Parameters.\<close> Code that is not in the repository is an argument: \<open>libc\<close> (the functions that the
  library replaces), \<open>app_os\<close> (the system below \<open>tsn_perf\<close>), \<open>dpdk\<close> and \<open>eth_answers\<close> (DPDK), \<open>posix_answers\<close>
  (the calls for a segment), \<open>ua_lib\<close> (open62541). \<open>sp\<close> is how often a weak compare-and-swap fails
  for no reason, \<open>junk\<close> the contents of an unwritten variable or block, \<open>rax\<close> the value a caller finds
  after a function that ended without \<open>return\<close>; the theorems hold for all of them unless a hypothesis
  says otherwise.

  \<^bold>\<open>Loops.\<close> Loops that end are total functions with a termination proof. The search for pages and
  the loop of the talker may not end and are partial functions into \<open>option\<close>; that they do return is
  part of \<open>alloc_first_fit\<close> and \<open>talker_reaches_ring\<close>, that the first does not on zero bytes is
  \<open>alloc_zero_diverges\<close>. Loops that a signal ends run over the list of their inputs, or a number of
  turns, of any length, so no fuel runs out.

  \<^bold>\<open>Where the code goes wrong.\<close> Reservations and polls across the end of the array, overlong payloads
  and stale heads are steps of the models; theorems that need their absence have it as a hypothesis
  on the counter of such steps, and what happens otherwise is shown in \<open>KT_Ringbuf\<close>, \<open>KT_Preload\<close> and
  \<open>KT_Daemon_Faults\<close>.

  \<^bold>\<open>Not modelled.\<close> The insides of libc, DPDK and open62541; log and diagnostic output; memory
  barriers and orders weaker than sequential consistency; waiting inside the ring in the theories
  that take its calls for one step (\<open>KT_Delivery\<close>, \<open>KT_Realtime\<close>), where \<open>e\<close> has to cover it; of the OPC UA header the
  types for buffered messages and the declarations of functions, which neither example uses; shell
  scripts and container files. What is left of the C files beside these is includes, comments,
  prototypes and the declarations of the function pointers that \<open>libc\<close> stands for.
\<close>

end
